(* ===== verification/Arti_Prelude.thy ===== *)
theory Arti_Prelude
  imports Main "HOL-Library.Word"
begin

text \<open>
  The prelude of the development: the names of the machine types, the fact collections the
  component theories fill, and the generic lemmas on lists, words and results that they share.
  Rust's fixed-width integers are words; \<open>usize\<close> is \<open>nat\<close>, with the comparison against
  its maximum written out where the code makes one; a \<open>Result<T, E>\<close> is \<open>'e + 'a\<close> with
  \<open>Inl\<close> for \<open>Err\<close>.
\<close>

unbundle bit_operations_syntax

type_synonym u8 = "8 word"
type_synonym u16 = "16 word"
type_synonym u32 = "32 word"
type_synonym u64 = "64 word"
type_synonym u128 = "128 word"
type_synonym bytes = "u8 list"

abbreviation usize_max :: nat where
  "usize_max \<equiv> 18446744073709551615"

text \<open>
  \<open>parses_intros\<close> holds the rules that run a decoder over an encoding, \<open>readable_intros\<close>
  the closure rules of the reading contract, \<open>wire_simps\<close> the equations that evaluate encoders,
  \<open>safe_intros\<close> the rules that show a decoder free of panics.
\<close>

named_theorems parses_intros
named_theorems readable_intros
named_theorems wire_simps
named_theorems safe_intros

definition res_bind :: "'e + 'a \<Rightarrow> ('a \<Rightarrow> 'e + 'b) \<Rightarrow> 'e + 'b" where
  "res_bind m f = (case m of Inl e \<Rightarrow> Inl e | Inr x \<Rightarrow> f x)"

definition res_map_err :: "('e \<Rightarrow> 'f) \<Rightarrow> 'e + 'a \<Rightarrow> 'f + 'a" where
  "res_map_err f m = (case m of Inl e \<Rightarrow> Inl (f e) | Inr x \<Rightarrow> Inr x)"

definition is_ok :: "'e + 'a \<Rightarrow> bool" where
  "is_ok m = (case m of Inl _ \<Rightarrow> False | Inr _ \<Rightarrow> True)"

lemma res_bind_simps [simp]:
  "res_bind (Inl e) f = Inl e"
  "res_bind (Inr x) f = f x"
  by (simp_all add: res_bind_def)

lemma res_bind_Inr_iff: "res_bind m f = Inr y \<longleftrightarrow> (\<exists>x. m = Inr x \<and> f x = Inr y)"
  by (cases m) auto

lemma res_map_err_simps [simp]:
  "res_map_err f (Inl e) = Inl (f e)"
  "res_map_err f (Inr x) = Inr x"
  by (simp_all add: res_map_err_def)

lemma is_ok_simps [simp]:
  "\<not> is_ok (Inl e)"
  "is_ok (Inr x)"
  by (simp_all add: is_ok_def)

lemma is_ok_iff: "is_ok m \<longleftrightarrow> (\<exists>x. m = Inr x)"
  by (cases m) auto

lemma take_append_exact [simp]: "n = length xs \<Longrightarrow> take n (xs @ ys) = xs"
  by simp

lemma drop_append_exact [simp]: "n = length xs \<Longrightarrow> drop n (xs @ ys) = ys"
  by simp

lemma unat_of_nat_small [simp]:
  "n < 2 ^ LENGTH('a::len) \<Longrightarrow> unat (of_nat n :: 'a word) = n"
  by (simp add: unat_of_nat)

lemma unat_u8_lt [simp]: "unat (w :: u8) < 256"
  using unsigned_less [of w, where ?'a = nat] by simp

lemma unat_u16_lt [simp]: "unat (w :: u16) < 65536"
  using unsigned_less [of w, where ?'a = nat] by simp

lemma unat_u8_le [simp]: "unat (w :: u8) \<le> 255"
  using unat_u8_lt [of w] by linarith

lemma unat_u16_le [simp]: "unat (w :: u16) \<le> 65535"
  using unat_u16_lt [of w] by linarith

end
