(* ===== verification/Rust_Std.thy ===== *)
theory Rust_Std
  imports Arti_Prelude
begin

text \<open>
  The parts of Rust's standard library the sources call: checked, saturating and non-zero
  integer operations, big-endian byte order, decimal printing and parsing of unsigned integers,
  UTF-8 validity, and the line and field splitting of \<open>str\<close>. Strings are lists of
  characters, one per byte of their UTF-8 form.
\<close>

section \<open>Definitions\<close>

subsection \<open>Integers\<close>

definition checked_sub_n :: "nat \<Rightarrow> nat \<Rightarrow> nat option" where
  "checked_sub_n a b = (if b \<le> a then Some (a - b) else None)"

definition nonzero :: "'a::zero \<Rightarrow> 'a option" where
  "nonzero x = (if x = 0 then None else Some x)"

definition checked_add_w :: "'a::len word \<Rightarrow> 'a word \<Rightarrow> 'a word option" where
  "checked_add_w a b = (if unat a + unat b < 2 ^ LENGTH('a) then Some (a + b) else None)"

definition checked_sub_w :: "'a::len word \<Rightarrow> 'a word \<Rightarrow> 'a word option" where
  "checked_sub_w a b = (if b \<le> a then Some (a - b) else None)"

definition saturating_add_w :: "'a::len word \<Rightarrow> 'a word \<Rightarrow> 'a word" where
  "saturating_add_w a b = (if unat a + unat b < 2 ^ LENGTH('a) then a + b else - 1)"

definition saturating_sub_w :: "'a::len word \<Rightarrow> 'a word \<Rightarrow> 'a word" where
  "saturating_sub_w a b = (if b \<le> a then a - b else 0)"

definition saturating_mul_w :: "'a::len word \<Rightarrow> 'a word \<Rightarrow> 'a word" where
  "saturating_mul_w a b = (if unat a * unat b < 2 ^ LENGTH('a) then a * b else - 1)"

definition saturating_add_n :: "nat \<Rightarrow> nat \<Rightarrow> nat" where
  "saturating_add_n a b = min (a + b) usize_max"

subsection \<open>Big-endian byte order\<close>

fun be_bytes :: "nat \<Rightarrow> nat \<Rightarrow> bytes" where
  "be_bytes 0 n = []"
| "be_bytes (Suc k) n = be_bytes k (n div 256) @ [of_nat (n mod 256)]"

definition be_nat :: "bytes \<Rightarrow> nat" where
  "be_nat bs = foldl (\<lambda>acc b. acc * 256 + unat b) 0 bs"

definition to_be_bytes :: "'a::len word \<Rightarrow> bytes" where
  "to_be_bytes w = be_bytes (LENGTH('a) div 8) (unat w)"

definition from_be_bytes :: "bytes \<Rightarrow> 'a::len word" where
  "from_be_bytes bs = of_nat (be_nat bs)"

subsection \<open>IP addresses\<close>

text \<open>\<open>std::net::IpAddr\<close>; the octets of an address are its number in network byte order.\<close>

datatype ip_addr = V4 u32 | V6 u128

definition is_unspecified :: "ip_addr \<Rightarrow> bool" where
  "is_unspecified a = (case a of V4 x \<Rightarrow> x = 0 | V6 x \<Rightarrow> x = 0)"

definition octets :: "ip_addr \<Rightarrow> bytes" where
  "octets a = (case a of V4 x \<Rightarrow> to_be_bytes x | V6 x \<Rightarrow> to_be_bytes x)"

subsection \<open>Characters and decimal numbers\<close>

definition ascii_bytes :: "string \<Rightarrow> bytes" where
  "ascii_bytes s = map (\<lambda>c. of_nat (of_char c)) s"

definition bytes_string :: "bytes \<Rightarrow> string" where
  "bytes_string bs = map (\<lambda>b. char_of (unat b)) bs"

definition is_ascii :: "bytes \<Rightarrow> bool" where
  "is_ascii bs = list_all (\<lambda>b. b < 128) bs"

definition is_ascii_digit :: "char \<Rightarrow> bool" where
  "is_ascii_digit c = (48 \<le> (of_char c :: nat) \<and> (of_char c :: nat) \<le> 57)"

definition digit_val :: "char \<Rightarrow> nat" where
  "digit_val c = of_char c - 48"

definition digit_char :: "nat \<Rightarrow> char" where
  "digit_char d = char_of (48 + d)"

fun dec_string :: "nat \<Rightarrow> string" where
  "dec_string n = (if n < 10 then [digit_char n] else dec_string (n div 10) @ [digit_char (n mod 10)])"

declare dec_string.simps [simp del]

definition digits_value :: "string \<Rightarrow> nat" where
  "digits_value s = foldl (\<lambda>acc c. acc * 10 + digit_val c) 0 s"

text \<open>
  \<open>str::parse\<close> for an unsigned type with maximum \<open>mx\<close>: an optional plus sign, at least one
  digit, only digits, and a value that fits.
\<close>

definition parse_uint :: "nat \<Rightarrow> string \<Rightarrow> nat option" where
  "parse_uint mx s =
     (let ds = (case s of [] \<Rightarrow> [] | c # t \<Rightarrow> if c = CHR ''+'' then t else s)
      in if ds = [] \<or> \<not> list_all is_ascii_digit ds then None
         else if digits_value ds \<le> mx then Some (digits_value ds) else None)"

text \<open>\<open>std::str::from_utf8\<close>: whether the bytes are well-formed UTF-8.\<close>

definition utf8_cont :: "u8 \<Rightarrow> bool" where
  "utf8_cont b = (128 \<le> b \<and> b \<le> 191)"

fun utf8_ok :: "bytes \<Rightarrow> bool" where
  "utf8_ok [] = True"
| "utf8_ok (a # bs) =
     (if a < 128 then utf8_ok bs
      else if 194 \<le> a \<and> a \<le> 223 then
        (case bs of b # r \<Rightarrow> utf8_cont b \<and> utf8_ok r | _ \<Rightarrow> False)
      else if 224 \<le> a \<and> a \<le> 239 then
        (case bs of b # c # r \<Rightarrow>
           utf8_cont b \<and> utf8_cont c \<and> (a = 224 \<longrightarrow> 160 \<le> b) \<and> (a = 237 \<longrightarrow> b \<le> 159) \<and> utf8_ok r
         | _ \<Rightarrow> False)
      else if 240 \<le> a \<and> a \<le> 244 then
        (case bs of b # c # d # r \<Rightarrow>
           utf8_cont b \<and> utf8_cont c \<and> utf8_cont d
           \<and> (a = 240 \<longrightarrow> 144 \<le> b) \<and> (a = 244 \<longrightarrow> b \<le> 143) \<and> utf8_ok r
         | _ \<Rightarrow> False)
      else False)"

subsection \<open>Splitting\<close>

text \<open>\<open>find\<close> splits at the first occurrence; \<open>split\<close> at every one.\<close>

fun split_once :: "'a \<Rightarrow> 'a list \<Rightarrow> ('a list \<times> 'a list) option" where
  "split_once d [] = None"
| "split_once d (x # xs) =
     (if x = d then Some ([], xs)
      else map_option (\<lambda>(a, b). (x # a, b)) (split_once d xs))"

fun split_on :: "'a \<Rightarrow> 'a list \<Rightarrow> 'a list list" where
  "split_on d [] = [[]]"
| "split_on d (x # xs) =
     (if x = d then [] # split_on d xs
      else (case split_on d xs of [] \<Rightarrow> [[x]] | f # fs \<Rightarrow> (x # f) # fs))"

fun join_with :: "'a list \<Rightarrow> 'a list list \<Rightarrow> 'a list" where
  "join_with sep [] = []"
| "join_with sep [x] = x"
| "join_with sep (x # y # xs) = x @ sep @ join_with sep (y # xs)"

section \<open>Lemmas\<close>

lemma checked_sub_n_nonzero:
  "Option.bind (checked_sub_n n m) nonzero = (if m < n then Some (n - m) else None)"
  by (auto simp: checked_sub_n_def nonzero_def)

lemma nonzero_Some_iff [simp]: "nonzero x = Some y \<longleftrightarrow> x = y \<and> y \<noteq> 0"
  by (auto simp: nonzero_def)

lemma nonzero_None_iff [simp]: "nonzero x = None \<longleftrightarrow> x = 0"
  by (auto simp: nonzero_def)

lemma be_bytes_numeral [simp]:
  "be_bytes (numeral k) n = be_bytes (pred_numeral k) (n div 256) @ [of_nat (n mod 256)]"
  by (simp only: numeral_eq_Suc [of k] be_bytes.simps)

lemma length_be_bytes [simp]: "length (be_bytes k n) = k"
  by (induction k arbitrary: n) auto

lemma be_nat_Nil [simp]: "be_nat [] = 0"
  by (simp add: be_nat_def)

lemma be_nat_snoc [simp]: "be_nat (bs @ [b]) = be_nat bs * 256 + unat b"
  by (simp add: be_nat_def)

lemma be_nat_be_bytes: "be_nat (be_bytes k n) = n mod 256 ^ k"
proof (induction k arbitrary: n)
  case (Suc k)
  have "be_nat (be_bytes (Suc k) n) = (n div 256 mod 256 ^ k) * 256 + n mod 256"
    by (simp add: Suc.IH)
  also have "\<dots> = n mod 256 ^ Suc k"
    by (simp add: mod_mult2_eq mult.commute)
  finally show ?case .
qed (simp add: be_nat_def)

lemma be_bytes_be_nat: "be_bytes (length bs) (be_nat bs) = bs"
  by (induction bs rule: rev_induct) simp_all

lemma be_nat_less: "be_nat bs < 256 ^ length bs"
proof (induction bs rule: rev_induct)
  case (snoc b bs)
  have "be_nat bs * 256 + unat b < (be_nat bs + 1) * 256"
    by simp
  also have "\<dots> \<le> 256 ^ length bs * 256"
    using snoc by (intro mult_right_mono) auto
  finally show ?case by simp
qed simp

lemma length_to_be_bytes [simp]: "length (to_be_bytes (w :: 'a::len word)) = LENGTH('a) div 8"
  by (simp add: to_be_bytes_def)

lemma from_to_be_bytes [simp]:
  assumes "8 dvd LENGTH('a)"
  shows "from_be_bytes (to_be_bytes (w :: 'a::len word)) = w"
proof -
  from assms obtain k where k: "LENGTH('a) = 8 * k" by (auto elim: dvdE)
  have "(256::nat) ^ k = 2 ^ LENGTH('a)"
    by (simp add: k power_mult)
  then have "be_nat (to_be_bytes w) = unat w"
    using unsigned_less [of w, where ?'a = nat]
    by (simp add: to_be_bytes_def be_nat_be_bytes k)
  then show ?thesis by (simp add: from_be_bytes_def)
qed

lemma to_from_be_bytes:
  assumes "LENGTH('a) = 8 * length bs"
  shows "to_be_bytes (from_be_bytes bs :: 'a::len word) = bs"
proof -
  have "(256::nat) ^ length bs = 2 ^ LENGTH('a)"
    by (simp add: assms power_mult)
  then have "unat (from_be_bytes bs :: 'a word) = be_nat bs"
    using be_nat_less [of bs] by (simp add: from_be_bytes_def)
  then show ?thesis
    by (simp add: to_be_bytes_def assms be_bytes_be_nat)
qed

lemma digit_char_props:
  assumes "d < 10"
  shows "is_ascii_digit (digit_char d)" and "digit_val (digit_char d) = d"
  using assms by (simp_all add: is_ascii_digit_def digit_val_def digit_char_def)

lemma dec_string_nonempty [simp]: "dec_string n \<noteq> []"
  by (subst dec_string.simps) simp

lemma dec_string_digits: "list_all is_ascii_digit (dec_string n)"
proof (induction n rule: dec_string.induct)
  case (1 n)
  then show ?case
    by (cases "n < 10") (simp_all add: dec_string.simps [of n] digit_char_props)
qed

lemma digits_value_snoc: "digits_value (s @ [c]) = digits_value s * 10 + digit_val c"
  by (simp add: digits_value_def)

lemma digits_value_dec_string [simp]: "digits_value (dec_string n) = n"
proof (induction n rule: dec_string.induct)
  case (1 n)
  then show ?case
    by (cases "n < 10")
      (simp_all add: dec_string.simps [of n] digits_value_snoc digit_char_props,
       simp add: digits_value_def digit_char_props)
qed

lemma plus_not_digit [simp]: "\<not> is_ascii_digit (CHR ''+'')"
  by (simp add: is_ascii_digit_def)

lemma parse_uint_digits:
  assumes "s \<noteq> []" and "list_all is_ascii_digit s"
  shows "parse_uint mx s = (if digits_value s \<le> mx then Some (digits_value s) else None)"
proof -
  obtain c t where s: "s = c # t" using assms(1) by (cases s) auto
  with assms(2) have "c \<noteq> CHR ''+''" by auto
  with s assms show ?thesis by (simp add: parse_uint_def Let_def)
qed

lemma parse_uint_dec_string: "n \<le> mx \<Longrightarrow> parse_uint mx (dec_string n) = Some n"
  by (simp add: parse_uint_digits dec_string_digits)

lemma bytes_string_ascii_bytes [simp]: "bytes_string (ascii_bytes s) = s"
proof -
  have "char_of (unat (of_nat (of_char c) :: u8)) = c" for c :: char
  proof -
    have "(of_char c :: nat) < 2 ^ LENGTH(8)" by simp
    then have "unat (of_nat (of_char c) :: u8) = of_char c" by (rule unat_of_nat_small)
    then show ?thesis by simp
  qed
  then show ?thesis by (simp add: bytes_string_def ascii_bytes_def o_def)
qed

lemma split_once_append:
  "d \<notin> set xs \<Longrightarrow> split_once d (xs @ d # ys) = Some (xs, ys)"
  by (induction xs) auto

lemma split_once_None_iff [simp]: "split_once d xs = None \<longleftrightarrow> d \<notin> set xs"
  by (induction xs) auto

lemma split_on_nonempty [simp]: "split_on d xs \<noteq> []"
  by (induction xs) (auto split: list.splits)

lemma split_on_no_sep: "d \<notin> set xs \<Longrightarrow> split_on d xs = [xs]"
  by (induction xs) auto

lemma split_on_append: "d \<notin> set xs \<Longrightarrow> split_on d (xs @ d # ys) = xs # split_on d ys"
  by (induction xs) auto

lemma split_on_join:
  "xss \<noteq> [] \<Longrightarrow> (\<And>xs. xs \<in> set xss \<Longrightarrow> d \<notin> set xs) \<Longrightarrow> split_on d (join_with [d] xss) = xss"
  by (induction "[d]" xss rule: join_with.induct) (auto simp: split_on_no_sep split_on_append)

end
