(* ===== verification/Bytes_Reader.thy ===== *)
theory Bytes_Reader
  imports Rust_Std
begin

text \<open>
  The reader of \<open>tor-bytes\<close> (\<open>reader.rs\<close>, \<open>impls.rs\<close>, \<open>err.rs\<close>).
  A \<open>&mut Reader\<close> method is a function from a reader to a result and the reader it leaves
  behind, also when it fails. The contract that the documentation of the \<open>Readable\<close> trait
  spells out (\<open>lib.rs\<close>) is the locale \<open>readable\<close>; it is closed under sequencing, so a
  decoder built from conforming pieces conforms. A panic of the source is the error
  \<open>Panicked\<close>.
\<close>

section \<open>The reader\<close>

datatype bytes_error =
    Truncated
  | Incomplete nat
  | ExtraneousBytes
  | BadLengthValue
  | BadMessage string
  | InvalidMessage string
  | MissingData
  | Bug string
  | Panicked string

datatype completeness = PossiblyIncomplete | SupposedlyComplete

record reader =
  r_b :: bytes
  r_off :: nat
  r_completeness :: completeness

type_synonym 'a rd = "reader \<Rightarrow> (bytes_error + 'a) \<times> reader"

definition rret :: "'a \<Rightarrow> 'a rd" where
  "rret x r = (Inr x, r)"

definition rfail :: "bytes_error \<Rightarrow> 'a rd" where
  "rfail e r = (Inl e, r)"

definition rbind :: "'a rd \<Rightarrow> ('a \<Rightarrow> 'b rd) \<Rightarrow> 'b rd" where
  "rbind m f r = (case m r of (Inl e, r') \<Rightarrow> (Inl e, r') | (Inr x, r') \<Rightarrow> f x r')"

definition from_slice :: "bytes \<Rightarrow> reader" where
  "from_slice bs = \<lparr>r_b = bs, r_off = 0, r_completeness = SupposedlyComplete\<rparr>"

definition from_possibly_incomplete_slice :: "bytes \<Rightarrow> reader" where
  "from_possibly_incomplete_slice bs = \<lparr>r_b = bs, r_off = 0, r_completeness = PossiblyIncomplete\<rparr>"

definition total_len :: "reader \<Rightarrow> nat" where
  "total_len r = length (r_b r)"

definition remaining :: "reader \<Rightarrow> nat" where
  "remaining r = length (r_b r) - r_off r"

definition into_rest :: "reader \<Rightarrow> bytes" where
  "into_rest r = drop (r_off r) (r_b r)"

definition consumed :: "reader \<Rightarrow> nat" where
  "consumed r = r_off r"

definition incomplete_error :: "reader \<Rightarrow> nat \<Rightarrow> bytes_error" where
  "incomplete_error r deficit =
     (case r_completeness r of
        PossiblyIncomplete \<Rightarrow> Incomplete deficit
      | SupposedlyComplete \<Rightarrow> MissingData)"

definition peek :: "nat \<Rightarrow> bytes rd" where
  "peek n r =
     (case Option.bind (checked_sub_n n (remaining r)) nonzero of
        Some deficit \<Rightarrow> (Inl (incomplete_error r deficit), r)
      | None \<Rightarrow> (Inr (take n (drop (r_off r) (r_b r))), r))"

definition advance :: "nat \<Rightarrow> unit rd" where
  "advance n = rbind (peek n) (\<lambda>_ r. (Inr (), r\<lparr>r_off := r_off r + n\<rparr>))"

definition should_be_exhausted :: "unit rd" where
  "should_be_exhausted r = (if remaining r \<noteq> 0 then (Inl ExtraneousBytes, r) else (Inr (), r))"

definition truncate_r :: "nat \<Rightarrow> unit rd" where
  "truncate_r n r =
     (Inr (), if n < remaining r then r\<lparr>r_b := take (r_off r + n) (r_b r)\<rparr> else r)"

definition take_r :: "nat \<Rightarrow> bytes rd" where
  "take_r n = rbind (peek n) (\<lambda>b. rbind (advance n) (\<lambda>_. rret b))"

text \<open>\<open>take_into\<close> fills a buffer; the model returns the bytes copied into a buffer of \<open>n\<close>.\<close>

definition take_into :: "nat \<Rightarrow> bytes rd" where
  "take_into n = rbind (take_r n) rret"

definition extract_r :: "'a rd \<Rightarrow> 'a rd" where
  "extract_r take_from r =
     (let off_orig = r_off r in
      case take_from r of
        (Inl e, r') \<Rightarrow> (Inl e, r'\<lparr>r_off := off_orig\<rparr>)
      | (Inr x, r') \<Rightarrow> (Inr x, r'))"

text \<open>\<open>impl Readable for [u8; N]\<close> and for \<open>GenericArray<u8, N>\<close>.\<close>

definition take_array :: "nat \<Rightarrow> bytes rd" where
  "take_array n = take_into n"

definition take_u8 :: "u8 rd" where
  "take_u8 = rbind (take_r 1) (\<lambda>b. case b of [] \<Rightarrow> rfail (Panicked ''index'') | x # _ \<Rightarrow> rret x)"

definition take_u16 :: "u16 rd" where
  "take_u16 = rbind (extract_r (take_array 2)) (\<lambda>b. rret (from_be_bytes b))"

definition take_u32 :: "u32 rd" where
  "take_u32 = rbind (extract_r (take_array 4)) (\<lambda>b. rret (from_be_bytes b))"

definition take_u64 :: "u64 rd" where
  "take_u64 = rbind (extract_r (take_array 8)) (\<lambda>b. rret (from_be_bytes b))"

definition take_u128 :: "u128 rd" where
  "take_u128 = rbind (extract_r (take_array 16)) (\<lambda>b. rret (from_be_bytes b))"

fun position_of :: "u8 \<Rightarrow> bytes \<Rightarrow> nat option" where
  "position_of t [] = None"
| "position_of t (b # bs) = (if b = t then Some 0 else map_option Suc (position_of t bs))"

definition take_until :: "u8 \<Rightarrow> bytes rd" where
  "take_until term r =
     (case position_of term (drop (r_off r) (r_b r)) of
        None \<Rightarrow> (Inl (incomplete_error r 1), r)
      | Some pos \<Rightarrow> rbind (take_r pos) (\<lambda>result. rbind (advance 1) (\<lambda>_. rret result)) r)"

definition take_rest :: "bytes rd" where
  "take_rest r =
     (case take_r (remaining r) r of
        (Inl _, r') \<Rightarrow> (Inl (Panicked ''taking remaining failed''), r')
      | (Inr b, r') \<Rightarrow> (Inr b, r'))"

definition take_all_but :: "nat \<Rightarrow> bytes rd" where
  "take_all_but n r =
     (case r_completeness r of
        PossiblyIncomplete \<Rightarrow> (Inl (Bug ''Called take_all_but on a PossiblyIncomplete reader.''), r)
      | SupposedlyComplete \<Rightarrow>
          (case checked_sub_n (remaining r) n of
             None \<Rightarrow> (Inl MissingData, r)
           | Some n_to_take \<Rightarrow>
               (case take_r n_to_take r of
                  (Inl _, r') \<Rightarrow> (Inl (Bug ''Subtraction misled us somehow''), r')
                | (Inr result, r') \<Rightarrow> (Inr result, r'))))"

fun extract_loop :: "nat \<Rightarrow> 'a rd \<Rightarrow> 'a list rd" where
  "extract_loop 0 take_from = rret []"
| "extract_loop (Suc n) take_from =
     rbind take_from (\<lambda>item. rbind (extract_loop n take_from) (\<lambda>items. rret (item # items)))"

definition extract_n :: "nat \<Rightarrow> 'a rd \<Rightarrow> 'a list rd" where
  "extract_n n take_from r =
     (let off_orig = r_off r in
      case extract_loop n take_from r of
        (Inl e, r') \<Rightarrow> (Inl e, r'\<lparr>r_off := off_orig\<rparr>)
      | (Inr xs, r') \<Rightarrow> (Inr xs, r'))"

definition run_inner :: "'a rd \<Rightarrow> bytes \<Rightarrow> bytes_error + 'a" where
  "run_inner f body =
     (case f (from_slice body) of
        (Inl e, _) \<Rightarrow> Inl e
      | (Inr out, inner) \<Rightarrow>
          (case should_be_exhausted inner of (Inl e, _) \<Rightarrow> Inl e | (Inr _, _) \<Rightarrow> Inr out))"

definition read_nested_generic :: "'l::len word rd \<Rightarrow> 'a rd \<Rightarrow> 'a rd" where
  "read_nested_generic take_len f =
     rbind (extract_r take_len) (\<lambda>l.
       if usize_max < unat l then rfail BadLengthValue
       else rbind (take_r (unat l)) (\<lambda>body r. (run_inner f body, r)))"

definition read_nested_u8len :: "'a rd \<Rightarrow> 'a rd" where
  "read_nested_u8len = read_nested_generic take_u8"

definition read_nested_u16len :: "'a rd \<Rightarrow> 'a rd" where
  "read_nested_u16len = read_nested_generic take_u16"

definition read_nested_u32len :: "'a rd \<Rightarrow> 'a rd" where
  "read_nested_u32len = read_nested_generic take_u32"

definition cursor :: "reader \<Rightarrow> nat" where
  "cursor r = r_off r"

definition range_r :: "reader \<Rightarrow> nat \<Rightarrow> nat \<Rightarrow> bytes" where
  "range_r r start stop =
     (if start \<le> stop \<and> stop \<le> length (r_b r)
      then take (stop - start) (drop start (r_b r)) else [])"

section \<open>Views and specifications\<close>

text \<open>
  \<open>rest r\<close> is what the reader still has to read, \<open>adv n r\<close> the reader \<open>n\<close> bytes
  further on. The type invariant is that the offset lies within the slice.
\<close>

definition rest :: "reader \<Rightarrow> bytes" where
  "rest r = drop (r_off r) (r_b r)"

definition adv :: "nat \<Rightarrow> reader \<Rightarrow> reader" where
  "adv n r = r\<lparr>r_off := r_off r + n\<rparr>"

definition reader_inv :: "reader \<Rightarrow> bool" where
  "reader_inv r = (r_off r \<le> length (r_b r))"

text \<open>
  \<open>parses m bs x\<close>: wherever the next bytes are \<open>bs\<close>, \<open>m\<close> reads exactly them and yields
  \<open>x\<close>. \<open>yields m bs x\<close>: on a reader that holds exactly \<open>bs\<close>, \<open>m\<close> yields \<open>x\<close>.
\<close>

definition parses :: "'a rd \<Rightarrow> bytes \<Rightarrow> 'a \<Rightarrow> bool" where
  "parses m bs x \<longleftrightarrow>
     (\<forall>r ys. reader_inv r \<longrightarrow> rest r = bs @ ys \<longrightarrow> m r = (Inr x, adv (length bs) r))"

definition yields :: "'a rd \<Rightarrow> bytes \<Rightarrow> 'a \<Rightarrow> bool" where
  "yields m bs x \<longleftrightarrow> (\<forall>r. reader_inv r \<longrightarrow> rest r = bs \<longrightarrow> fst (m r) = Inr x)"

lemma reader_defs_inv [simp]:
  "reader_inv (from_slice bs)"
  "reader_inv (from_possibly_incomplete_slice bs)"
  by (simp_all add: reader_inv_def from_slice_def from_possibly_incomplete_slice_def)

lemma rest_from_slice [simp]:
  "rest (from_slice bs) = bs"
  "rest (from_possibly_incomplete_slice bs) = bs"
  by (simp_all add: rest_def from_slice_def from_possibly_incomplete_slice_def)

lemma completeness_from_slice [simp]:
  "r_completeness (from_slice bs) = SupposedlyComplete"
  "r_completeness (from_possibly_incomplete_slice bs) = PossiblyIncomplete"
  by (simp_all add: from_slice_def from_possibly_incomplete_slice_def)

lemma length_rest [simp]: "length (rest r) = remaining r"
  by (simp add: rest_def remaining_def)

lemma adv_simps [simp]:
  "r_b (adv n r) = r_b r"
  "r_off (adv n r) = r_off r + n"
  "r_completeness (adv n r) = r_completeness r"
  "adv 0 r = r"
  "adv m (adv n r) = adv (n + m) r"
  by (simp_all add: adv_def add.assoc)

lemma rest_adv [simp]: "rest (adv n r) = drop n (rest r)"
  by (simp add: rest_def add.commute)

lemma remaining_adv [simp]: "remaining (adv n r) = remaining r - n"
  by (simp add: remaining_def)

lemma reader_inv_adv: "reader_inv r \<Longrightarrow> n \<le> remaining r \<Longrightarrow> reader_inv (adv n r)"
  by (auto simp: reader_inv_def remaining_def)

lemma adv_off_update [simp]: "(adv n r)\<lparr>r_off := r_off r\<rparr> = r"
  by (simp add: adv_def)

lemma rbind_simps [simp]:
  "m r = (Inl e, r') \<Longrightarrow> rbind m f r = (Inl e, r')"
  "m r = (Inr x, r') \<Longrightarrow> rbind m f r = f x r'"
  by (simp_all add: rbind_def)

lemma rret_apply [simp]: "rret x r = (Inr x, r)"
  by (simp add: rret_def)

lemma rfail_apply [simp]: "rfail e r = (Inl e, r)"
  by (simp add: rfail_def)

lemma rbind_Inr_iff:
  "rbind m f r = (Inr y, r'') \<longleftrightarrow> (\<exists>x r'. m r = (Inr x, r') \<and> f x r' = (Inr y, r''))"
  by (auto simp: rbind_def split: prod.splits sum.splits)

lemma peek_eq:
  "peek n r =
     (if remaining r < n then (Inl (incomplete_error r (n - remaining r)), r)
      else (Inr (take n (rest r)), r))"
  by (simp add: peek_def checked_sub_n_nonzero rest_def)

lemma advance_eq:
  "advance n r =
     (if remaining r < n then (Inl (incomplete_error r (n - remaining r)), r)
      else (Inr (), adv n r))"
  by (simp add: advance_def rbind_def peek_eq adv_def)

lemma take_r_eq:
  "take_r n r =
     (if remaining r < n then (Inl (incomplete_error r (n - remaining r)), r)
      else (Inr (take n (rest r)), adv n r))"
  by (simp add: take_r_def rbind_def peek_eq advance_eq)

lemma take_rest_eq: "take_rest r = (Inr (rest r), adv (remaining r) r)"
  by (simp add: take_rest_def take_r_eq flip: length_rest)

lemma position_of_append: "t \<notin> set xs \<Longrightarrow> position_of t (xs @ t # ys) = Some (length xs)"
  by (induction xs) auto

lemma position_of_None_iff: "position_of t xs = None \<longleftrightarrow> t \<notin> set xs"
  by (induction xs) auto

lemma position_of_Some_D:
  "position_of t xs = Some n \<Longrightarrow> n < length xs \<and> xs ! n = t \<and> t \<notin> set (take n xs)"
  by (induction xs arbitrary: n) (auto split: if_splits simp: nth_Cons split: nat.splits)

end
