(* ===== verification/Bytes_Readable.thy ===== *)
theory Bytes_Readable
  imports Bytes_Reader
begin

text \<open>
  The contract of \<open>tor_bytes::Readable\<close> as its documentation states it (\<open>lib.rs\<close>), the
  closure rules by which a decoder built from conforming parts conforms, and the rules that run
  a decoder over an encoding. Client facts that rest on the contract alone are proved once, in
  the locale.
\<close>

section \<open>The contract\<close>

text \<open>
  A success depends only on the bytes it consumes; a failure leaves the reader somewhere
  in the unread part; on a possibly incomplete reader a failure other than \<open>Incomplete\<close> is
  repeated on every longer input, and \<open>Incomplete d\<close> is a lower bound: fewer than \<open>d\<close> more
  bytes give \<open>Incomplete\<close> again; a reader that is supposed to be complete never says
  \<open>Incomplete\<close>.
\<close>

locale readable =
  fixes take_from :: "'a rd"
  assumes ok_stable:
      "reader_inv r \<Longrightarrow> take_from r = (Inr x, r') \<Longrightarrow>
        \<exists>n. n \<le> remaining r \<and> r' = adv n r \<and> parses take_from (take n (rest r)) x"
    and err_within:
      "reader_inv r \<Longrightarrow> take_from r = (Inl e, r') \<Longrightarrow> \<exists>n. n \<le> remaining r \<and> r' = adv n r"
    and err_stable:
      "reader_inv r \<Longrightarrow> reader_inv s \<Longrightarrow> r_completeness r = PossiblyIncomplete \<Longrightarrow>
        r_completeness s = PossiblyIncomplete \<Longrightarrow> rest s = rest r @ zs \<Longrightarrow>
        fst (take_from r) = Inl e \<Longrightarrow> (\<And>d. e \<noteq> Incomplete d) \<Longrightarrow> fst (take_from s) = Inl e"
    and deficit_bound:
      "reader_inv r \<Longrightarrow> reader_inv s \<Longrightarrow> r_completeness r = PossiblyIncomplete \<Longrightarrow>
        r_completeness s = PossiblyIncomplete \<Longrightarrow> rest s = rest r @ zs \<Longrightarrow>
        fst (take_from r) = Inl (Incomplete d) \<Longrightarrow> length zs < d \<Longrightarrow>
        \<exists>d'. d \<le> d' + length zs \<and> fst (take_from s) = Inl (Incomplete d')"
    and deficit_pos:
      "reader_inv r \<Longrightarrow> fst (take_from r) = Inl (Incomplete d) \<Longrightarrow> 0 < d"
    and complete_reader:
      "reader_inv r \<Longrightarrow> r_completeness r = SupposedlyComplete \<Longrightarrow>
        fst (take_from r) \<noteq> Inl (Incomplete d)"
begin

lemma take_from_frame:
  assumes "reader_inv r" and "take_from r = (res, r')"
  shows "reader_inv r' \<and> r_b r' = r_b r \<and> r_completeness r' = r_completeness r"
proof (cases res)
  case (Inl e)
  with assms err_within [of r e r'] show ?thesis
    by (auto intro: reader_inv_adv)
next
  case (Inr x)
  with assms ok_stable [of r x r'] show ?thesis
    by (auto intro: reader_inv_adv)
qed

lemma extract_rewinds:
  assumes "reader_inv r" and "fst (extract_r take_from r) = Inl e"
  shows "extract_r take_from r = (Inl e, r)"
proof (cases "take_from r")
  case (Pair res r')
  with assms show ?thesis
    using err_within [of r e r'] by (cases res) (auto simp: extract_r_def Let_def)
qed

lemma extract_Inr [simp]:
  "extract_r take_from r = (Inr x, r') \<longleftrightarrow> take_from r = (Inr x, r')"
  by (auto simp: extract_r_def Let_def split: prod.splits sum.splits)

lemma ok_extends:
  assumes "reader_inv r" and "take_from r = (Inr x, r')"
    and "reader_inv s" and "rest s = rest r @ zs"
  shows "\<exists>n. r' = adv n r \<and> take_from s = (Inr x, adv n s)"
proof -
  obtain n where n: "n \<le> remaining r" "r' = adv n r" "parses take_from (take n (rest r)) x"
    using ok_stable [OF assms(1,2)] by blast
  have "rest s = take n (rest r) @ (drop n (rest r) @ zs)"
    using assms(4) by (metis append.assoc append_take_drop_id)
  with n(3) assms(3) have "take_from s = (Inr x, adv (length (take n (rest r))) s)"
    unfolding parses_def by blast
  with n show ?thesis by auto
qed

end

section \<open>Running a decoder over an encoding\<close>

lemma parses_ret [parses_intros]: "parses (rret x) [] x"
  by (simp add: parses_def)

lemma parses_bind [parses_intros]:
  assumes "parses m as x" and "parses (f x) bs y"
  shows "parses (rbind m f) (as @ bs) y"
  unfolding parses_def
proof (intro allI impI)
  fix r ys
  assume inv: "reader_inv r" and rest: "rest r = (as @ bs) @ ys"
  then have "m r = (Inr x, adv (length as) r)"
    using assms(1) by (simp add: parses_def)
  moreover have "length as \<le> remaining r"
    using rest by (simp flip: length_rest)
  then have "reader_inv (adv (length as) r)"
    using inv by (rule reader_inv_adv [rotated])
  then have "f x (adv (length as) r) = (Inr y, adv (length bs) (adv (length as) r))"
    using assms(2) rest by (simp add: parses_def)
  ultimately show "rbind m f r = (Inr y, adv (length (as @ bs)) r)"
    by simp
qed

lemma parses_bind_ret [parses_intros]:
  assumes "parses m bs x" and "y = f x"
  shows "parses (rbind m (\<lambda>x. rret (f x))) bs y"
  using parses_bind [OF assms(1), where f = "\<lambda>x. rret (f x)" and bs = "[]"] assms(2)
  by (simp add: parses_ret del: rret_apply)

lemma parses_take [parses_intros]: "n = length bs \<Longrightarrow> parses (take_r n) bs bs"
  by (auto simp: parses_def take_r_eq simp flip: length_rest)

lemma parses_advance [parses_intros]: "n = length bs \<Longrightarrow> parses (advance n) bs ()"
  by (auto simp: parses_def advance_eq simp flip: length_rest)

lemma parses_array [parses_intros]: "n = length bs \<Longrightarrow> parses (take_array n) bs bs"
  unfolding take_array_def take_into_def
  using parses_bind [OF parses_take parses_ret] by fastforce

lemma parses_extract [parses_intros]: "parses m bs x \<Longrightarrow> parses (extract_r m) bs x"
  by (simp add: parses_def extract_r_def Let_def)

lemma parses_u8 [parses_intros]: "parses take_u8 [w] w"
  by (auto simp: parses_def take_u8_def take_r_eq simp flip: length_rest)

lemma parses_be:
  assumes "LENGTH('a) = 8 * n"
  shows "parses (rbind (extract_r (take_array n)) (\<lambda>b. rret (from_be_bytes b)))
     (to_be_bytes (w :: 'a::len word)) w"
proof -
  have "parses (rbind (extract_r (take_array n)) (\<lambda>b. rret (from_be_bytes b :: 'a word)))
     (to_be_bytes w @ []) (from_be_bytes (to_be_bytes w))"
    by (rule parses_bind [OF parses_extract [OF parses_array] parses_ret]) (simp add: assms)
  then show ?thesis using assms by simp
qed

lemma parses_u16 [parses_intros]: "parses take_u16 (to_be_bytes w) w"
  unfolding take_u16_def by (rule parses_be) simp

lemma parses_u32 [parses_intros]: "parses take_u32 (to_be_bytes w) w"
  unfolding take_u32_def by (rule parses_be) simp

lemma parses_u64 [parses_intros]: "parses take_u64 (to_be_bytes w) w"
  unfolding take_u64_def by (rule parses_be) simp

lemma parses_u128 [parses_intros]: "parses take_u128 (to_be_bytes w) w"
  unfolding take_u128_def by (rule parses_be) simp

lemma parses_until [parses_intros]: "t \<notin> set bs \<Longrightarrow> parses (take_until t) (bs @ [t]) bs"
  by (auto simp: parses_def take_until_def position_of_append take_r_eq advance_eq
      simp flip: length_rest rest_def)

lemma parses_if_True: "c \<Longrightarrow> parses m bs x \<Longrightarrow> parses (if c then m else m') bs x"
  by simp

lemma parses_if_False: "\<not> c \<Longrightarrow> parses m' bs x \<Longrightarrow> parses (if c then m else m') bs x"
  by simp

lemma parses_loop:
  assumes "\<And>x. x \<in> set xs \<Longrightarrow> parses m (enc x) x"
  shows "parses (extract_loop (length xs) m) (concat (map enc xs)) xs"
  using assms
proof (induction xs)
  case Nil
  then show ?case by (simp add: parses_def)
next
  case (Cons x xs)
  have "parses (rbind (extract_loop (length xs) m) (\<lambda>items. rret (x # items)))
      (concat (map enc xs) @ []) (x # xs)"
    using Cons by (intro parses_bind [OF Cons.IH parses_ret]) auto
  then have "parses (extract_loop (length (x # xs)) m) (enc x @ (concat (map enc xs) @ [])) (x # xs)"
    using Cons.prems unfolding length_Cons extract_loop.simps by (intro parses_bind [of m]) auto
  then show ?case by simp
qed

lemma parses_extract_n:
  "parses (extract_loop n m) bs xs \<Longrightarrow> parses (extract_n n m) bs xs"
  by (simp add: parses_def extract_n_def Let_def)

lemma yields_parses: "parses m bs x \<Longrightarrow> yields m (bs @ ys) x"
  by (auto simp: parses_def yields_def)

lemma yields_parses_all: "parses m bs x \<Longrightarrow> yields m bs x"
  using yields_parses [of m bs x "[]"] by simp

lemma yields_bind:
  assumes "parses m as x" and "yields (f x) bs y"
  shows "yields (rbind m f) (as @ bs) y"
  unfolding yields_def
proof (intro allI impI)
  fix r
  assume inv: "reader_inv r" and rest: "rest r = as @ bs"
  then have "m r = (Inr x, adv (length as) r)"
    using assms(1) by (simp add: parses_def)
  moreover have "reader_inv (adv (length as) r)"
    using inv rest by (auto intro: reader_inv_adv simp flip: length_rest)
  ultimately show "fst (rbind m f r) = Inr y"
    using assms(2) rest by (simp add: yields_def)
qed

lemma yields_ret: "yields (rret x) bs x"
  by (simp add: yields_def)

lemma yields_rest: "yields take_rest bs bs"
  by (simp add: yields_def take_rest_eq)

lemma parses_nested:
  assumes "run_inner f body = Inr x" and "parses take_len lbs l" and "unat l = length body"
    and "length body \<le> usize_max"
  shows "parses (read_nested_generic take_len f) (lbs @ body) x"
proof -
  have "parses (rbind (take_r (length body)) (\<lambda>b r. (run_inner f b, r))) (body @ []) x"
    by (rule parses_bind [OF parses_take]) (simp_all add: parses_def assms(1))
  with assms show ?thesis
    unfolding read_nested_generic_def
    by (intro parses_bind [OF parses_extract]) auto
qed

lemma run_inner_parses:
  assumes "parses f body x"
  shows "run_inner f body = Inr x"
proof -
  have "f (from_slice body) = (Inr x, adv (length body) (from_slice body))"
    using assms by (auto simp: parses_def)
  then show ?thesis
    by (simp add: run_inner_def should_be_exhausted_def remaining_def from_slice_def adv_def)
qed

lemma run_inner_rest: "run_inner take_rest body = Inr body"
  by (simp add: run_inner_def take_rest_eq should_be_exhausted_def del: length_rest)

lemma run_inner_rest_map: "run_inner (rbind take_rest (\<lambda>b. rret (f b))) body = Inr (f body)"
  by (simp add: run_inner_def take_rest_eq should_be_exhausted_def rbind_def del: length_rest)

section \<open>Closure of the contract\<close>

lemma readable_ret [readable_intros]: "readable (rret x)"
proof
  fix r y r'
  assume "rret x r = (Inr y, r')"
  then show "\<exists>n\<le>remaining r. r' = adv n r \<and> parses (rret x) (take n (rest r)) y"
    by (auto simp: parses_ret intro!: exI [of _ 0])
qed auto

lemma readable_fail [readable_intros]: "(\<And>d. e \<noteq> Incomplete d) \<Longrightarrow> readable (rfail e)"
  by unfold_locales (auto intro!: exI [of _ 0])

lemma incomplete_error_simps [simp]:
  "r_completeness r = PossiblyIncomplete \<Longrightarrow> incomplete_error r d = Incomplete d"
  "r_completeness r = SupposedlyComplete \<Longrightarrow> incomplete_error r d = MissingData"
  by (simp_all add: incomplete_error_def)

lemma incomplete_error_iff:
  "incomplete_error r d = Incomplete d' \<longleftrightarrow> d = d' \<and> r_completeness r = PossiblyIncomplete"
  by (cases "r_completeness r") auto

lemma length_restD: "rest s = rest r @ zs \<Longrightarrow> remaining s = remaining r + length zs"
  by (simp flip: length_rest)

lemma readable_take [readable_intros]: "readable (take_r n)"
proof
  fix r x r'
  assume r: "reader_inv r" "take_r n r = (Inr x, r')"
  then have "n \<le> remaining r" "r' = adv n r" "x = take n (rest r)"
    by (auto simp: take_r_eq split: if_splits)
  moreover have "parses (take_r n) (take n (rest r)) (take n (rest r))"
    using \<open>n \<le> remaining r\<close> by (intro parses_take) simp
  ultimately show "\<exists>n'\<le>remaining r. r' = adv n' r \<and> parses (take_r n) (take n' (rest r)) x"
    by blast
qed (auto simp: take_r_eq incomplete_error_iff length_restD split: if_splits intro!: exI [of _ 0])


lemma readable_const: "(\<And>d. c \<noteq> Inl (Incomplete d)) \<Longrightarrow> readable (\<lambda>r. (c, r))"
proof (cases c)
  case (Inl e)
  assume "\<And>d. c \<noteq> Inl (Incomplete d)"
  then show ?thesis
    using readable_fail [of e] Inl by (simp add: rfail_def [abs_def])
next
  case (Inr x)
  then show ?thesis
    using readable_ret [of x] by (simp add: rret_def [abs_def])
qed

text \<open>Two readers with a common unread prefix stay so after a success on the shorter one.\<close>

lemma readable_lockstep:
  assumes "readable m" and "reader_inv r" and "reader_inv s" and "rest s = rest r @ zs"
    and "m r = (Inr x, r')"
  obtains n where "r' = adv n r" "m s = (Inr x, adv n s)" "reader_inv (adv n r)"
    "reader_inv (adv n s)" "rest (adv n s) = rest (adv n r) @ zs"
proof -
  obtain n where n: "r' = adv n r" "m s = (Inr x, adv n s)"
    using readable.ok_extends [OF assms(1,2,5,3,4)] by blast
  obtain k where "k \<le> remaining r" "r' = adv k r"
    using readable.ok_stable [OF assms(1,2,5)] by blast
  with n have "n \<le> remaining r"
    by (metis adv_simps(2) add_left_cancel)
  with n assms(2-4) show thesis
    by (intro that [of n]) (auto intro!: reader_inv_adv simp: length_restD)
qed

lemma rbind_cases:
  obtains (err) e r' where "m r = (Inl e, r')" "rbind m f r = (Inl e, r')"
  | (ok) x r' where "m r = (Inr x, r')" "rbind m f r = f x r'"
proof (cases "m r")
  case (Pair res r')
  then show thesis by (cases res) (auto intro: err ok)
qed

lemma readable_bind [readable_intros]:
  assumes m: "readable m" and f: "\<And>x. readable (f x)"
  shows "readable (rbind m f)"
proof (unfold_locales, goal_cases)
  case (1 r y r'')
  then obtain x r' where mx: "m r = (Inr x, r')" and fx: "f x r' = (Inr y, r'')"
    by (auto simp: rbind_Inr_iff)
  obtain n where n: "n \<le> remaining r" "r' = adv n r" "parses m (take n (rest r)) x"
    using readable.ok_stable [OF m 1(1) mx] by blast
  then have "reader_inv r'" using 1(1) by (simp add: reader_inv_adv)
  then obtain k where k: "k \<le> remaining r'" "r'' = adv k r'" "parses (f x) (take k (rest r')) y"
    using readable.ok_stable [OF f _ fx] by blast
  have "parses (rbind m f) (take n (rest r) @ take k (drop n (rest r))) y"
    using n k by (auto intro: parses_bind)
  then show ?case
    using n k by (intro exI [of _ "n + k"]) (auto simp: take_add)
next
  case (2 r e r'')
  show ?case
  proof (cases rule: rbind_cases [of m r f])
    case err
    then show ?thesis using readable.err_within [OF m 2(1)] 2(2) by auto
  next
    case (ok x r')
    obtain n where n: "n \<le> remaining r" "r' = adv n r"
      using readable.ok_stable [OF m 2(1) ok(1)] by blast
    then have "reader_inv r'" using 2(1) by (simp add: reader_inv_adv)
    then obtain k where "k \<le> remaining r'" "r'' = adv k r'"
      using readable.err_within [OF f] ok(2) 2(2) by metis
    then show ?thesis using n by (intro exI [of _ "n + k"]) auto
  qed
next
  case (3 r s zs e)
  show ?case
  proof (cases rule: rbind_cases [of m r f])
    case (err e' r')
    then have "fst (m s) = Inl e"
      using readable.err_stable [OF m 3(1-5)] 3(6,7) by simp
    then show ?thesis by (cases "m s") auto
  next
    case (ok x r')
    from readable_lockstep [OF m 3(1,2,5) ok(1)] obtain n where
      "r' = adv n r" "m s = (Inr x, adv n s)" "reader_inv (adv n r)" "reader_inv (adv n s)"
      "rest (adv n s) = rest (adv n r) @ zs" by metis
    with ok 3 readable.err_stable [OF f, of "adv n r" "adv n s" zs x e] show ?thesis by simp
  qed
next
  case (4 r s zs d)
  show ?case
  proof (cases rule: rbind_cases [of m r f])
    case (err e' r')
    then obtain d' where "d \<le> d' + length zs" "fst (m s) = Inl (Incomplete d')"
      using readable.deficit_bound [OF m 4(1-5), of d] 4(6,7) by auto
    then show ?thesis by (cases "m s") auto
  next
    case (ok x r')
    from readable_lockstep [OF m 4(1,2,5) ok(1)] obtain n where
      "r' = adv n r" "m s = (Inr x, adv n s)" "reader_inv (adv n r)" "reader_inv (adv n s)"
      "rest (adv n s) = rest (adv n r) @ zs" by metis
    with ok 4 readable.deficit_bound [OF f, of "adv n r" "adv n s" zs x d] show ?thesis by simp
  qed
next
  case (5 r d)
  show ?case
  proof (cases rule: rbind_cases [of m r f])
    case err
    then show ?thesis using readable.deficit_pos [OF m 5(1)] 5(2) by simp
  next
    case (ok x r')
    then have "reader_inv r'" using readable.take_from_frame [OF m 5(1)] by blast
    then show ?thesis using readable.deficit_pos [OF f, of r' x d] ok 5(2) by simp
  qed
next
  case (6 r d)
  show ?case
  proof (cases rule: rbind_cases [of m r f])
    case err
    then show ?thesis using readable.complete_reader [OF m 6] by simp
  next
    case (ok x r')
    then have "reader_inv r'" "r_completeness r' = SupposedlyComplete"
      using readable.take_from_frame [OF m 6(1) ok(1)] 6(2) by simp_all
    then show ?thesis using readable.complete_reader [OF f, of r' x d] ok by simp
  qed
qed

lemma readable_extract [readable_intros]:
  assumes m: "readable m"
  shows "readable (extract_r m)"
proof -
  have fst_eq: "fst (extract_r m r) = fst (m r)" for r
    by (auto simp: extract_r_def Let_def split: prod.splits sum.splits)
  show ?thesis
  proof (unfold_locales, goal_cases)
    case (1 r x r')
    then show ?case
      using readable.ok_stable [OF m, of r x r'] readable.extract_Inr [OF m, of r x r']
      by (auto intro: parses_extract)
  next
    case (2 r e r')
    then show ?case
      using readable.extract_rewinds [OF m 2(1)] by (intro exI [of _ 0]) auto
  next
    case (3 r s zs e)
    then show ?case unfolding fst_eq by (rule readable.err_stable [OF m])
  next
    case (4 r s zs d)
    then show ?case unfolding fst_eq by (rule readable.deficit_bound [OF m])
  next
    case (5 r d)
    then show ?case unfolding fst_eq by (rule readable.deficit_pos [OF m])
  next
    case (6 r d)
    then show ?case unfolding fst_eq by (rule readable.complete_reader [OF m])
  qed
qed

lemma extract_n_eq: "extract_n n m = extract_r (extract_loop n m)"
  by (simp add: fun_eq_iff extract_n_def extract_r_def)

lemma readable_loop [readable_intros]: "readable m \<Longrightarrow> readable (extract_loop n m)"
  by (induction n) (auto intro!: readable_bind readable_ret simp del: rret_apply)

lemma readable_extract_n [readable_intros]: "readable m \<Longrightarrow> readable (extract_n n m)"
  unfolding extract_n_eq by (intro readable_intros)

lemma readable_advance [readable_intros]: "readable (advance n)"
proof -
  have "advance n = rbind (take_r n) (\<lambda>_. rret ())"
    by (rule ext) (simp add: advance_eq rbind_def take_r_eq)
  then show ?thesis by (auto intro!: readable_intros simp del: rret_apply)
qed

lemma readable_array [readable_intros]: "readable (take_array n)"
  unfolding take_array_def take_into_def by (intro readable_intros)

lemma readable_u8 [readable_intros]: "readable take_u8"
  unfolding take_u8_def
  by (rule readable_bind, rule readable_take) (auto intro!: readable_intros split: list.splits)

lemma readable_be [readable_intros]:
  "readable take_u16" "readable take_u32" "readable take_u64" "readable take_u128"
  unfolding take_u16_def take_u32_def take_u64_def take_u128_def
  by (intro readable_bind readable_extract readable_array readable_ret)+

lemma readable_if [readable_intros]:
  "readable m \<Longrightarrow> readable m' \<Longrightarrow> readable (if c then m else m')"
  by simp

lemma take_until_eq:
  "take_until t r =
     (case position_of t (rest r) of
        None \<Rightarrow> (Inl (incomplete_error r 1), r)
      | Some n \<Rightarrow> (Inr (take n (rest r)), adv (n + 1) r))"
  by (auto simp: take_until_def take_r_eq advance_eq rbind_def simp flip: rest_def
      dest: position_of_Some_D split: option.splits)

lemma position_of_extends: "position_of t xs = Some n \<Longrightarrow> position_of t (xs @ ys) = Some n"
  by (induction xs arbitrary: n) (auto split: if_splits)

lemma readable_until [readable_intros]: "readable (take_until t)"
proof (unfold_locales, goal_cases)
  case (1 r x r')
  then obtain n where pos: "position_of t (rest r) = Some n" "x = take n (rest r)" "r' = adv (n + 1) r"
    by (auto simp: take_until_eq split: option.splits)
  note facts = position_of_Some_D [OF pos(1)]
  then have "take (n + 1) (rest r) = take n (rest r) @ [t]"
    by (simp add: take_Suc_conv_app_nth)
  with facts pos show ?case
    by (intro exI [of _ "n + 1"]) (auto intro: parses_until)
next
  case (2 r e r')
  then show ?case by (intro exI [of _ 0]) (auto simp: take_until_eq split: option.splits)
qed (auto simp: take_until_eq incomplete_error_iff split: option.splits)

text \<open>
  A reader that runs to the end of its input breaks the prefix law, but may be nested: all that
  \<open>read_nested\<close> needs is that it never says \<open>Incomplete\<close> on a complete reader.
\<close>

definition settled :: "'a rd \<Rightarrow> bool" where
  "settled f \<longleftrightarrow>
     (\<forall>r. reader_inv r \<longrightarrow> r_completeness r = SupposedlyComplete \<longrightarrow>
        reader_inv (snd (f r)) \<and> r_completeness (snd (f r)) = SupposedlyComplete \<and>
        (\<forall>d. fst (f r) \<noteq> Inl (Incomplete d)))"

lemma settled_readable: "readable f \<Longrightarrow> settled f"
  unfolding settled_def
  using readable.take_from_frame [of f] readable.complete_reader [of f]
  by (metis prod.collapse)

lemma settled_rest: "settled take_rest"
  by (simp add: settled_def take_rest_eq reader_inv_adv)

lemma settled_exhausted: "settled should_be_exhausted"
  by (simp add: settled_def should_be_exhausted_def)

lemma settled_bind:
  assumes "settled m" and "\<And>x. settled (f x)"
  shows "settled (rbind m f)"
  unfolding settled_def
proof (intro allI impI)
  fix r
  assume r: "reader_inv r" "r_completeness r = SupposedlyComplete"
  show "reader_inv (snd (rbind m f r)) \<and> r_completeness (snd (rbind m f r)) = SupposedlyComplete \<and>
        (\<forall>d. fst (rbind m f r) \<noteq> Inl (Incomplete d))"
  proof (cases rule: rbind_cases [of m r f])
    case (err e r')
    with assms(1) [unfolded settled_def, rule_format, OF r] show ?thesis by simp
  next
    case (ok x r')
    have "reader_inv r'" "r_completeness r' = SupposedlyComplete"
      using assms(1) [unfolded settled_def, rule_format, OF r] ok(1) by simp_all
    with assms(2) [of x] ok(2) show ?thesis by (simp add: settled_def)
  qed
qed

lemma run_inner_settled:
  assumes "settled f"
  shows "run_inner f body \<noteq> Inl (Incomplete d)"
proof -
  have "fst (f (from_slice body)) \<noteq> Inl (Incomplete d)"
    using assms by (simp add: settled_def)
  then show ?thesis
    by (auto simp: run_inner_def should_be_exhausted_def split: prod.splits sum.splits if_splits)
qed

lemma readable_nested [readable_intros]:
  assumes "readable take_len" and "settled f"
  shows "readable (read_nested_generic take_len f)"
  unfolding read_nested_generic_def
  using assms run_inner_settled [OF assms(2)]
  by (intro readable_bind readable_extract readable_if readable_take readable_const readable_fail)
    auto

lemma readable_nested_len [readable_intros]:
  assumes "settled f"
  shows "readable (read_nested_u8len f)" "readable (read_nested_u16len f)"
    "readable (read_nested_u32len f)"
  using assms unfolding read_nested_u8len_def read_nested_u16len_def read_nested_u32len_def
  by (auto intro: readable_nested readable_u8 readable_be)

interpretation rd_u8: readable take_u8 by (rule readable_u8)
interpretation rd_u16: readable take_u16 by (rule readable_be)
interpretation rd_u32: readable take_u32 by (rule readable_be)
interpretation rd_u64: readable take_u64 by (rule readable_be)
interpretation rd_u128: readable take_u128 by (rule readable_be)

section \<open>Freedom from panics\<close>

text \<open>
  \<open>safe_rd m\<close>: on a well-formed reader \<open>m\<close> does not panic and leaves a well-formed reader
  over the same slice.
\<close>

definition safe_rd :: "'a rd \<Rightarrow> bool" where
  "safe_rd m \<longleftrightarrow>
     (\<forall>r. reader_inv r \<longrightarrow> reader_inv (snd (m r)) \<and> r_b (snd (m r)) = r_b r \<and>
        (\<forall>msg. fst (m r) \<noteq> Inl (Panicked msg)))"

definition rmap :: "('a \<Rightarrow> 'b) \<Rightarrow> 'a rd \<Rightarrow> 'b rd" where
  "rmap f m = rbind m (\<lambda>x. rret (f x))"

lemma safe_ret [safe_intros]: "safe_rd (rret x)"
  by (simp add: safe_rd_def)

lemma safe_fail [safe_intros]: "(\<And>msg. e \<noteq> Panicked msg) \<Longrightarrow> safe_rd (rfail e)"
  by (simp add: safe_rd_def)

lemma safe_bind_post:
  assumes "safe_rd m" and "\<And>r x. reader_inv r \<Longrightarrow> fst (m r) = Inr x \<Longrightarrow> safe_rd (f x)"
  shows "safe_rd (rbind m f)"
  unfolding safe_rd_def
proof (intro allI impI)
  fix r
  assume r: "reader_inv r"
  show "reader_inv (snd (rbind m f r)) \<and> r_b (snd (rbind m f r)) = r_b r \<and>
      (\<forall>msg. fst (rbind m f r) \<noteq> Inl (Panicked msg))"
  proof (cases rule: rbind_cases [of m r f])
    case (err e r')
    with assms(1) [unfolded safe_rd_def, rule_format, OF r] show ?thesis by simp
  next
    case (ok x r')
    have "reader_inv r'" "r_b r' = r_b r"
      using assms(1) [unfolded safe_rd_def, rule_format, OF r] ok(1) by simp_all
    with assms(2) [OF r, of x] ok show ?thesis by (simp add: safe_rd_def)
  qed
qed

lemma safe_bind [safe_intros]: "safe_rd m \<Longrightarrow> (\<And>x. safe_rd (f x)) \<Longrightarrow> safe_rd (rbind m f)"
  by (rule safe_bind_post)

lemma incomplete_error_not_panic [simp]: "incomplete_error r d \<noteq> Panicked msg"
  by (simp add: incomplete_error_def split: completeness.splits)

lemma safe_take [safe_intros]: "safe_rd (take_r n)"
  by (simp add: safe_rd_def take_r_eq reader_inv_adv)

lemma safe_bind_take:
  "(\<And>b. length b = n \<Longrightarrow> safe_rd (f b)) \<Longrightarrow> safe_rd (rbind (take_r n) f)"
  by (rule safe_bind_post [OF safe_take]) (auto simp: take_r_eq split: if_splits)

lemma safe_advance [safe_intros]: "safe_rd (advance n)"
  by (simp add: safe_rd_def advance_eq reader_inv_adv)

lemma safe_array [safe_intros]: "safe_rd (take_array n)"
  unfolding take_array_def take_into_def by (intro safe_bind safe_take safe_ret)

lemma safe_extract [safe_intros]:
  assumes "safe_rd m"
  shows "safe_rd (extract_r m)"
  unfolding safe_rd_def
proof (intro allI impI)
  fix r
  assume r: "reader_inv r"
  show "reader_inv (snd (extract_r m r)) \<and> r_b (snd (extract_r m r)) = r_b r \<and>
      (\<forall>msg. fst (extract_r m r) \<noteq> Inl (Panicked msg))"
    using assms [unfolded safe_rd_def, rule_format, OF r] r
    by (cases "m r"; cases "fst (m r)") (auto simp: extract_r_def reader_inv_def)
qed

lemma safe_be [safe_intros]:
  "safe_rd take_u16" "safe_rd take_u32" "safe_rd take_u64" "safe_rd take_u128"
  unfolding take_u16_def take_u32_def take_u64_def take_u128_def
  by (intro safe_bind safe_extract safe_array safe_ret)+

lemma safe_u8 [safe_intros]: "safe_rd take_u8"
  unfolding take_u8_def
  by (rule safe_bind_take) (auto simp: safe_ret length_Suc_conv simp del: rret_apply)

lemma safe_until [safe_intros]: "safe_rd (take_until t)"
  by (auto simp: safe_rd_def take_until_eq intro!: reader_inv_adv dest!: position_of_Some_D
      split: option.splits)

lemma safe_rest [safe_intros]: "safe_rd take_rest"
  by (simp add: safe_rd_def take_rest_eq reader_inv_adv)

lemma safe_if [safe_intros]:
  "(c \<Longrightarrow> safe_rd m) \<Longrightarrow> (\<not> c \<Longrightarrow> safe_rd m') \<Longrightarrow> safe_rd (if c then m else m')"
  by simp

lemma safe_map [safe_intros]: "safe_rd m \<Longrightarrow> safe_rd (rmap f m)"
  unfolding rmap_def by (intro safe_bind safe_ret)

lemma safe_loop [safe_intros]: "safe_rd m \<Longrightarrow> safe_rd (extract_loop n m)"
  by (induction n) (auto intro!: safe_bind safe_ret simp del: rret_apply)

lemma safe_exhausted [safe_intros]: "safe_rd should_be_exhausted"
  by (simp add: safe_rd_def should_be_exhausted_def)

lemma run_inner_safe: "safe_rd f \<Longrightarrow> run_inner f body \<noteq> Inl (Panicked msg)"
proof -
  assume "safe_rd f"
  then have "fst (f (from_slice body)) \<noteq> Inl (Panicked msg)"
    by (simp add: safe_rd_def)
  then show ?thesis
    by (auto simp: run_inner_def should_be_exhausted_def split: prod.splits sum.splits if_splits)
qed

lemma safe_nested [safe_intros]:
  assumes "safe_rd take_len" and "safe_rd f"
  shows "safe_rd (read_nested_generic take_len f)"
  unfolding read_nested_generic_def
  using assms run_inner_safe [OF assms(2)]
  by (intro safe_bind safe_extract safe_if safe_take safe_fail) (auto simp: safe_rd_def)

lemma safe_nested_len [safe_intros]:
  assumes "safe_rd f"
  shows "safe_rd (read_nested_u8len f)" "safe_rd (read_nested_u16len f)" "safe_rd (read_nested_u32len f)"
  using assms unfolding read_nested_u8len_def read_nested_u16len_def read_nested_u32len_def
  by (auto intro: safe_nested safe_u8 safe_be)

lemma readable_map [readable_intros]: "readable m \<Longrightarrow> readable (rmap f m)"
  unfolding rmap_def by (intro readable_bind readable_ret)

lemma parses_map [parses_intros]: "parses m bs x \<Longrightarrow> y = f x \<Longrightarrow> parses (rmap f m) bs y"
  unfolding rmap_def using parses_bind [OF _ parses_ret] by fastforce

lemma yields_map: "yields m bs x \<Longrightarrow> yields (rmap f m) bs (f x)"
  by (auto simp: yields_def rmap_def rbind_def split: prod.splits sum.splits)

lemma settled_map: "settled m \<Longrightarrow> settled (rmap f m)"
  unfolding rmap_def by (intro settled_bind settled_readable [OF readable_ret])

section \<open>Properties of the reader\<close>

lemma extract_loop_length: "extract_loop n m r = (Inr xs, r') \<Longrightarrow> length xs = n"
  by (induction n arbitrary: r xs r') (auto simp: rbind_Inr_iff)

text \<open>
  C34: \<open>extract_n\<close> is all or nothing. When every item read conforms to the \<open>Readable\<close>
  contract, a failure at any item restores the reader to where it was, and a success yields
  exactly \<open>n\<close> items and has moved within the unread bytes.
\<close>

theorem extract_n_atomic:
  assumes "readable m" and "reader_inv r"
  shows "case extract_n n m r of
      (Inl e, r') \<Rightarrow> r' = r
    | (Inr xs, r') \<Rightarrow> length xs = n \<and> (\<exists>k. k \<le> remaining r \<and> r' = adv k r)"
proof -
  have loop: "readable (extract_loop n m)"
    using assms(1) by (rule readable_loop)
  show ?thesis
  proof (cases "extract_n n m r")
    case (Pair res r')
    show ?thesis
    proof (cases res)
      case (Inl e)
      with Pair readable.extract_rewinds [OF loop assms(2)] show ?thesis
        by (simp add: extract_n_eq)
    next
      case (Inr xs)
      with Pair have "extract_loop n m r = (Inr xs, r')"
        by (simp add: extract_n_eq readable.extract_Inr [OF loop])
      with Pair Inr readable.ok_stable [OF loop assms(2)] show ?thesis
        by (auto dest: extract_loop_length)
    qed
  qed
qed

theorem extract_n_atomic_witness:
  "case extract_n 2 take_u16 (from_slice [1, 2, 3]) of
      (Inl e, r') \<Rightarrow> r' = from_slice [1, 2, 3]
    | (Inr xs, r') \<Rightarrow> length xs = 2 \<and>
        (\<exists>k. k \<le> remaining (from_slice [1, 2, 3]) \<and> r' = adv k (from_slice [1, 2, 3]))"
  by (rule extract_n_atomic) (auto intro: readable_be)

text \<open>
  C37: no primitive read panics. On every reader that satisfies the type invariant, the indexing
  in \<open>take_u8\<close>, the \<open>expect\<close> in \<open>take_rest\<close> and the internal-error return of
  \<open>take_all_but\<close> on a complete reader are unreachable, and the reader each leaves behind
  still has its offset within the slice.
\<close>

theorem reads_never_panic:
  assumes "reader_inv r"
  shows "(\<forall>msg. fst (take_u8 r) \<noteq> Inl (Panicked msg)) \<and> reader_inv (snd (take_u8 r)) \<and>
    (\<forall>msg. fst (take_rest r) \<noteq> Inl (Panicked msg)) \<and> reader_inv (snd (take_rest r)) \<and>
    (\<forall>msg. fst (take_until t r) \<noteq> Inl (Panicked msg)) \<and> reader_inv (snd (take_until t r)) \<and>
    (r_completeness r = SupposedlyComplete \<longrightarrow>
       (\<forall>msg. fst (take_all_but n r) \<noteq> Inl (Bug msg))) \<and> reader_inv (snd (take_all_but n r))"
proof -
  have "(\<forall>msg. fst (take_u8 r) \<noteq> Inl (Panicked msg)) \<and> reader_inv (snd (take_u8 r))"
    using assms
    by (cases "rest r")
      (auto simp: take_u8_def rbind_def take_r_eq incomplete_error_def reader_inv_adv
        simp flip: length_rest split: completeness.splits)
  moreover have "(\<forall>msg. fst (take_until t r) \<noteq> Inl (Panicked msg)) \<and> reader_inv (snd (take_until t r))"
    using assms
    by (auto simp: take_until_eq incomplete_error_def intro!: reader_inv_adv
        dest!: position_of_Some_D split: option.splits completeness.splits)
  moreover have "(r_completeness r = SupposedlyComplete \<longrightarrow>
       (\<forall>msg. fst (take_all_but n r) \<noteq> Inl (Bug msg))) \<and> reader_inv (snd (take_all_but n r))"
    using assms
    by (auto simp: take_all_but_def take_r_eq checked_sub_n_def intro!: reader_inv_adv
        split: completeness.splits)
  ultimately show ?thesis
    using assms by (simp add: take_rest_eq reader_inv_adv)
qed

theorem reads_never_panic_witness:
  "(\<forall>msg. fst (take_u8 (from_slice [])) \<noteq> Inl (Panicked msg)) \<and>
   (\<forall>msg. fst (take_all_but 3 (from_slice [7])) \<noteq> Inl (Bug msg))"
  using reads_never_panic [of "from_slice []"] reads_never_panic [of "from_slice [7]" _ 3] by simp

end
