(* ===== verification/Bytes_Writer.thy ===== *)
theory Bytes_Writer
  imports Bytes_Readable
begin

text \<open>
  The writer of \<open>tor-bytes\<close> (\<open>writer.rs\<close>, \<open>impls.rs\<close>) and the fixed-size writer of
  \<open>tor-cell\<close> (\<open>slicewriter.rs\<close>). A Rust encoder is generic in its writer and can do nothing
  with it but call \<open>write_all\<close>, so an encoder is modelled by the blocks it hands to
  \<open>write_all\<close> in order, and the error with which it returns early, if any. What a writer
  does with the blocks is the locale \<open>writer\<close>, interpreted on \<open>Vec<u8>\<close> and on
  \<open>SliceWriter\<close>.
\<close>

section \<open>Encoders\<close>

datatype encode_error = EBadLengthValue | EBug string

type_synonym wr = "bytes list \<times> encode_error option"

definition w_all :: "bytes \<Rightarrow> wr" where
  "w_all b = ([b], None)"

definition w_fail :: "encode_error \<Rightarrow> wr" where
  "w_fail e = ([], Some e)"

definition write_u8 :: "u8 \<Rightarrow> wr" where
  "write_u8 x = w_all [x]"

definition write_u16 :: "u16 \<Rightarrow> wr" where
  "write_u16 x = w_all (to_be_bytes x)"

definition write_u32 :: "u32 \<Rightarrow> wr" where
  "write_u32 x = w_all (to_be_bytes x)"

definition write_u64 :: "u64 \<Rightarrow> wr" where
  "write_u64 x = w_all (to_be_bytes x)"

definition write_u128 :: "u128 \<Rightarrow> wr" where
  "write_u128 x = w_all (to_be_bytes x)"

definition write_zeros :: "nat \<Rightarrow> wr" where
  "write_zeros n = w_all (replicate n 0)"

text \<open>A sequence of writes with the \<open>?\<close> operator after each.\<close>

fun wseq :: "wr list \<Rightarrow> wr" where
  "wseq [] = ([], None)"
| "wseq (w # ws) =
     (case w of
        (cs, Some e) \<Rightarrow> (cs, Some e)
      | (cs, None) \<Rightarrow> (case wseq ws of (ds, e) \<Rightarrow> (cs @ ds, e)))"

text \<open>The result of an encoder, and the bytes it wrote when it succeeded.\<close>

definition wout :: "wr \<Rightarrow> encode_error + bytes" where
  "wout w = (case snd w of Some e \<Rightarrow> Inl e | None \<Rightarrow> Inr (concat (fst w)))"

text \<open>
  \<open>NestedWriter\<close>: the inner writer is a \<open>Vec\<close> of its own; an error while filling it returns
  before \<open>finish\<close>, and \<open>finish\<close> refuses a length that does not fit the length type.
\<close>

definition nested_finish :: "nat \<Rightarrow> (nat \<Rightarrow> bytes) \<Rightarrow> wr \<Rightarrow> wr" where
  "nested_finish bound enc_len inner =
     (case wout inner of
        Inl e \<Rightarrow> w_fail e
      | Inr body \<Rightarrow>
          (if length body < bound then wseq [w_all (enc_len (length body)), w_all body]
           else w_fail EBadLengthValue))"

definition write_nested_u8len :: "wr \<Rightarrow> wr" where
  "write_nested_u8len = nested_finish (2 ^ 8) (\<lambda>n. [of_nat n])"

definition write_nested_u16len :: "wr \<Rightarrow> wr" where
  "write_nested_u16len = nested_finish (2 ^ 16) (\<lambda>n. to_be_bytes (of_nat n :: u16))"

definition write_nested_u32len :: "wr \<Rightarrow> wr" where
  "write_nested_u32len = nested_finish (2 ^ 32) (\<lambda>n. to_be_bytes (of_nat n :: u32))"

text \<open>\<open>len.try_into().map_err(|_| EncodeError::BadLengthValue)?\<close> followed by a write of the length.\<close>

definition w_len_u8 :: "nat \<Rightarrow> wr" where
  "w_len_u8 n = (if n < 2 ^ 8 then write_u8 (of_nat n) else w_fail EBadLengthValue)"

definition w_len_u16 :: "nat \<Rightarrow> wr" where
  "w_len_u16 n = (if n < 2 ^ 16 then write_u16 (of_nat n) else w_fail EBadLengthValue)"

lemma wout_simps [wire_simps]:
  "wout (w_all b) = Inr b"
  "wout (w_fail e) = Inl e"
  "wout (write_u8 x) = Inr [x]"
  "wout (write_u16 y) = Inr (to_be_bytes y)"
  "wout (write_u32 z) = Inr (to_be_bytes z)"
  "wout (write_u64 u) = Inr (to_be_bytes u)"
  "wout (write_u128 v) = Inr (to_be_bytes v)"
  "wout (write_zeros n) = Inr (replicate n 0)"
  "wout (wseq []) = Inr []"
  by (simp_all add: wout_def w_all_def w_fail_def write_u8_def write_u16_def write_u32_def
      write_u64_def write_u128_def write_zeros_def)

lemma wout_wseq_Cons [wire_simps]:
  "wout (wseq (w # ws)) = res_bind (wout w) (\<lambda>a. res_bind (wout (wseq ws)) (\<lambda>b. Inr (a @ b)))"
  by (auto simp: wout_def res_bind_def split: option.splits prod.splits)

declare wseq.simps [simp del]

lemma wout_len [wire_simps]:
  "wout (w_len_u8 n) = (if n < 2 ^ 8 then Inr [of_nat n] else Inl EBadLengthValue)"
  "wout (w_len_u16 n) = (if n < 2 ^ 16 then Inr (to_be_bytes (of_nat n :: u16)) else Inl EBadLengthValue)"
  by (simp_all add: w_len_u8_def w_len_u16_def wout_simps)

lemma wout_nested [wire_simps]:
  "wout (write_nested_u8len w) = res_bind (wout w) (\<lambda>body.
     if length body < 2 ^ 8 then Inr ([of_nat (length body)] @ body) else Inl EBadLengthValue)"
  "wout (write_nested_u16len w) = res_bind (wout w) (\<lambda>body.
     if length body < 2 ^ 16 then Inr (to_be_bytes (of_nat (length body) :: u16) @ body)
     else Inl EBadLengthValue)"
  "wout (write_nested_u32len w) = res_bind (wout w) (\<lambda>body.
     if length body < 2 ^ 32 then Inr (to_be_bytes (of_nat (length body) :: u32) @ body)
     else Inl EBadLengthValue)"
  by (auto simp: write_nested_u8len_def write_nested_u16len_def write_nested_u32len_def
      nested_finish_def wout_simps wout_wseq_Cons res_bind_def split: sum.splits)

lemma wout_append_all: "wout (wseq (map w_all bs)) = Inr (concat bs)"
  by (induction bs) (simp_all add: wire_simps)

section \<open>Writers\<close>

text \<open>
  What an encoder relies on: the blocks appear in order after what was there; a writer with
  bounded room remembers that something did not fit.
\<close>

locale writer =
  fixes write_all :: "bytes \<Rightarrow> 'w \<Rightarrow> 'w"
    and contents :: "'w \<Rightarrow> bytes option"
    and fits :: "'w \<Rightarrow> nat \<Rightarrow> bool"
    and wf :: "'w \<Rightarrow> bool"
  assumes wf_write: "wf w \<Longrightarrow> wf (write_all b w)"
    and write_fits: "wf w \<Longrightarrow> contents w = Some c \<Longrightarrow> fits w (length b) \<Longrightarrow>
          contents (write_all b w) = Some (c @ b)"
    and write_overflow: "wf w \<Longrightarrow> contents w = Some c \<Longrightarrow> \<not> fits w (length b) \<Longrightarrow>
          contents (write_all b w) = None"
    and write_stuck: "wf w \<Longrightarrow> contents w = None \<Longrightarrow> contents (write_all b w) = None"
    and fits_write: "wf w \<Longrightarrow> contents w = Some c \<Longrightarrow> fits w (length b) \<Longrightarrow>
          fits (write_all b w) n = fits w (length b + n)"
    and fits_zero: "wf w \<Longrightarrow> contents w = Some c \<Longrightarrow> fits w 0"
    and fits_mono: "fits w (m + n) \<Longrightarrow> fits w m"
begin

lemma run_stuck: "wf w \<Longrightarrow> contents w = None \<Longrightarrow> contents (fold write_all cs w) = None"
  by (induction cs arbitrary: w) (auto simp: wf_write write_stuck)

lemma run_blocks:
  assumes "wf w" and "contents w = Some c"
  shows "contents (fold write_all cs w) =
    (if fits w (length (concat cs)) then Some (c @ concat cs) else None)"
  using assms
proof (induction cs arbitrary: w c)
  case Nil
  then show ?case using fits_zero [OF Nil] by simp
next
  case (Cons b cs)
  show ?case
  proof (cases "fits w (length b)")
    case True
    then have "contents (write_all b w) = Some (c @ b)"
      using Cons.prems by (simp add: write_fits)
    from Cons.IH [OF wf_write [OF Cons.prems(1)] this] show ?thesis
      using True Cons.prems by (simp add: fits_write)
  next
    case False
    then have "contents (write_all b w) = None"
      using Cons.prems by (simp add: write_overflow)
    moreover have "\<not> fits w (length b + length (concat cs))"
      using False fits_mono by blast
    ultimately show ?thesis
      using Cons.prems by (simp add: run_stuck wf_write)
  qed
qed

lemma run_wf: "wf w \<Longrightarrow> wf (fold write_all cs w)"
  by (induction cs arbitrary: w) (auto simp: wf_write)

text \<open>Encoding on any writer appends what encoding on a growing buffer would return.\<close>

lemma run_encoder:
  assumes "wf w" and "contents w = Some c" and "wout e = Inr bs" and "fits w (length bs)"
  shows "contents (fold write_all (fst e) w) = Some (c @ bs)"
  using assms run_blocks [OF assms(1,2), of "fst e"]
  by (auto simp: wout_def split: option.splits)

end

definition vec_write_all :: "bytes \<Rightarrow> bytes \<Rightarrow> bytes" where
  "vec_write_all b v = v @ b"

text \<open>\<open>resize(len.saturating_add(n), 0)\<close>.\<close>

definition vec_write_zeros :: "nat \<Rightarrow> bytes \<Rightarrow> bytes" where
  "vec_write_zeros n v =
     (let new_len = saturating_add_n (length v) n in
      take new_len v @ replicate (new_len - length v) 0)"

interpretation vec: writer vec_write_all Some "\<lambda>_ _. True" "\<lambda>_. True"
  by unfold_locales (simp_all add: vec_write_all_def)

record slice_writer =
  sw_data :: bytes
  sw_offset :: nat

definition sw_new :: "bytes \<Rightarrow> slice_writer" where
  "sw_new d = \<lparr>sw_data = d, sw_offset = 0\<rparr>"

definition sw_write_all :: "bytes \<Rightarrow> slice_writer \<Rightarrow> slice_writer" where
  "sw_write_all b s =
     (let new_offset = saturating_add_n (sw_offset s) (length b) in
      if new_offset \<le> length (sw_data s)
      then s\<lparr>sw_data := take (sw_offset s) (sw_data s) @ b @ drop new_offset (sw_data s),
             sw_offset := new_offset\<rparr>
      else s\<lparr>sw_offset := usize_max\<rparr>)"

definition sw_advance :: "nat \<Rightarrow> slice_writer \<Rightarrow> slice_writer" where
  "sw_advance n s =
     (let new_offset = saturating_add_n (sw_offset s) n in
      if new_offset \<le> length (sw_data s) then s\<lparr>sw_offset := new_offset\<rparr>
      else s\<lparr>sw_offset := usize_max\<rparr>)"

definition sw_offset_res :: "slice_writer \<Rightarrow> unit + nat" where
  "sw_offset_res s = (if sw_offset s \<noteq> usize_max then Inr (sw_offset s) else Inl ())"

definition sw_try_unwrap :: "slice_writer \<Rightarrow> unit + (bytes \<times> nat)" where
  "sw_try_unwrap s = res_bind (sw_offset_res s) (\<lambda>offset. Inr (sw_data s, offset))"

definition sw_contents :: "slice_writer \<Rightarrow> bytes option" where
  "sw_contents s = (if sw_offset s = usize_max then None else Some (take (sw_offset s) (sw_data s)))"

definition sw_wf :: "slice_writer \<Rightarrow> bool" where
  "sw_wf s \<longleftrightarrow> length (sw_data s) < usize_max \<and>
     (sw_offset s \<le> length (sw_data s) \<or> sw_offset s = usize_max)"

definition sw_fits :: "slice_writer \<Rightarrow> nat \<Rightarrow> bool" where
  "sw_fits s n \<longleftrightarrow> sw_offset s + n \<le> length (sw_data s)"

lemma sw_write_fits:
  assumes "sw_wf s" and "sw_offset s \<noteq> usize_max" and "sw_fits s (length b)"
  shows "sw_write_all b s =
     \<lparr>sw_data = take (sw_offset s) (sw_data s) @ b @ drop (sw_offset s + length b) (sw_data s),
      sw_offset = sw_offset s + length b\<rparr>"
  using assms
  by (cases s) (auto simp: sw_write_all_def sw_fits_def sw_wf_def saturating_add_n_def min_def Let_def)

lemma sw_write_overflow:
  assumes "sw_wf s" and "sw_offset s = usize_max \<or> \<not> sw_fits s (length b)"
  shows "sw_write_all b s = s\<lparr>sw_offset := usize_max\<rparr>"
  using assms
  by (auto simp: sw_write_all_def sw_fits_def sw_wf_def saturating_add_n_def min_def Let_def)

interpretation sw: writer sw_write_all sw_contents sw_fits sw_wf
proof (unfold_locales, goal_cases)
  case (1 s b)
  show ?case
  proof (cases "sw_offset s \<noteq> usize_max \<and> sw_fits s (length b)")
    case True
    then show ?thesis using 1 by (simp add: sw_write_fits) (auto simp: sw_wf_def sw_fits_def)
  next
    case False
    then show ?thesis using 1 by (subst sw_write_overflow) (auto simp: sw_wf_def)
  qed
next
  case (2 s c b)
  then have "sw_offset s \<noteq> usize_max" "c = take (sw_offset s) (sw_data s)"
    by (auto simp: sw_contents_def split: if_splits)
  moreover have "sw_offset s + length b \<le> length (sw_data s)" "length (sw_data s) < usize_max"
    using 2 by (simp_all add: sw_fits_def sw_wf_def)
  ultimately show ?case
    using 2 by (simp add: sw_contents_def sw_write_fits)
next
  case (3 s c b)
  then show ?case by (simp add: sw_write_overflow) (simp add: sw_contents_def)
next
  case (4 s b)
  then show ?case by (auto simp: sw_contents_def sw_write_overflow split: if_splits)
next
  case (5 s c b n)
  then have "sw_offset s \<noteq> usize_max" by (auto simp: sw_contents_def split: if_splits)
  with 5 show ?case by (simp add: sw_write_fits) (simp add: sw_fits_def sw_wf_def add.assoc)
next
  case (6 s c)
  then show ?case by (auto simp: sw_contents_def sw_fits_def sw_wf_def split: if_splits)
next
  case (7 s m n)
  then show ?case by (simp add: sw_fits_def)
qed

text \<open>The bytes behind the offset keep the value they had: a fixed cell body stays zero-padded.\<close>

lemma sw_tail_kept:
  assumes "sw_wf s" and "sw_fits s (length (concat cs))" and "sw_offset s \<noteq> usize_max"
  shows "fold sw_write_all cs s =
    \<lparr>sw_data = take (sw_offset s) (sw_data s) @ concat cs @
        drop (sw_offset s + length (concat cs)) (sw_data s),
     sw_offset = sw_offset s + length (concat cs)\<rparr>"
  using assms
proof (induction cs arbitrary: s)
  case Nil
  then show ?case by simp
next
  case (Cons b cs)
  then have step: "sw_write_all b s =
     \<lparr>sw_data = take (sw_offset s) (sw_data s) @ b @ drop (sw_offset s + length b) (sw_data s),
      sw_offset = sw_offset s + length b\<rparr>"
    by (intro sw_write_fits) (auto simp: sw_fits_def)
  have "fold sw_write_all cs (sw_write_all b s) =
    \<lparr>sw_data = take (sw_offset (sw_write_all b s)) (sw_data (sw_write_all b s)) @ concat cs @
        drop (sw_offset (sw_write_all b s) + length (concat cs)) (sw_data (sw_write_all b s)),
     sw_offset = sw_offset (sw_write_all b s) + length (concat cs)\<rparr>"
    using Cons.prems by (intro Cons.IH) (auto simp: step sw_wf_def sw_fits_def)
  then show ?case
    using Cons.prems by (simp add: step sw_wf_def sw_fits_def min_absorb2 add_ac)
qed

section \<open>Codecs\<close>

text \<open>
  An encoder and a \<open>Readable\<close> that belong together: on valid values the encoder succeeds and
  the reader reads back exactly what was written, whatever follows. Such encodings are
  uniquely decodable and prefix-free, and sequences of them can be read back.
\<close>

locale codec = readable take_from for take_from :: "'a rd" +
  fixes enc :: "'a \<Rightarrow> wr" and valid :: "'a \<Rightarrow> bool"
  assumes round_trip: "valid x \<Longrightarrow> \<exists>bs. wout (enc x) = Inr bs \<and> parses take_from bs x"
begin

lemma enc_parses: "valid x \<Longrightarrow> wout (enc x) = Inr bs \<Longrightarrow> parses take_from bs x"
  using round_trip by fastforce

lemma prefix_free:
  assumes "valid x" and "valid y" and "wout (enc x) = Inr as" and "wout (enc y) = Inr bs"
    and "as @ us = bs @ vs"
  shows "x = y \<and> as = bs \<and> us = vs"
proof -
  have "take_from (from_slice (as @ us)) = (Inr x, adv (length as) (from_slice (as @ us)))"
    using enc_parses [OF assms(1,3)] by (simp add: parses_def)
  moreover have "take_from (from_slice (bs @ vs)) = (Inr y, adv (length bs) (from_slice (bs @ vs)))"
    using enc_parses [OF assms(2,4)] by (simp add: parses_def)
  ultimately have "x = y" using assms(5) by simp
  with assms show ?thesis by simp
qed

lemma list_round_trip:
  assumes "list_all valid xs"
  shows "\<exists>bs. wout (wseq (map enc xs)) = Inr bs \<and> parses (extract_loop (length xs) take_from) bs xs"
  using assms
proof (induction xs)
  case Nil
  then show ?case by (simp add: wire_simps parses_def)
next
  case (Cons x xs)
  then obtain bs where bs: "wout (wseq (map enc xs)) = Inr bs"
    "parses (extract_loop (length xs) take_from) bs xs" by auto
  obtain a where a: "wout (enc x) = Inr a" "parses take_from a x"
    using Cons.prems round_trip by auto
  have "parses (extract_loop (length (x # xs)) take_from) (a @ bs) (x # xs)"
    unfolding length_Cons extract_loop.simps
    by (rule parses_bind [OF a(2)], rule parses_bind_ret [OF bs(2)]) simp
  with a bs show ?case by (simp add: wire_simps)
qed

text \<open>A counted list: a one-byte or two-byte number of items, then the items.\<close>

lemma counted_u8_round_trip:
  assumes "list_all valid xs" and "length xs < 2 ^ 8"
  shows "\<exists>bs. wout (wseq (w_len_u8 (length xs) # map enc xs)) = Inr bs \<and>
    parses (rbind take_u8 (\<lambda>n. extract_loop (unat n) take_from)) bs xs"
proof -
  obtain bs where bs: "wout (wseq (map enc xs)) = Inr bs"
    "parses (extract_loop (length xs) take_from) bs xs"
    using list_round_trip [OF assms(1)] by blast
  have "parses (rbind take_u8 (\<lambda>n. extract_loop (unat n) take_from)) ([of_nat (length xs)] @ bs) xs"
    by (rule parses_bind [OF parses_u8]) (use bs assms(2) in \<open>simp add: unat_of_nat\<close>)
  with bs assms(2) show ?thesis by (simp add: wire_simps)
qed

lemma counted_u16_round_trip:
  assumes "list_all valid xs" and "length xs < 2 ^ 16"
  shows "\<exists>bs. wout (wseq (w_len_u16 (length xs) # map enc xs)) = Inr bs \<and>
    parses (rbind take_u16 (\<lambda>n. extract_loop (unat n) take_from)) bs xs"
proof -
  obtain bs where bs: "wout (wseq (map enc xs)) = Inr bs"
    "parses (extract_loop (length xs) take_from) bs xs"
    using list_round_trip [OF assms(1)] by blast
  have "parses (rbind take_u16 (\<lambda>n. extract_loop (unat n) take_from))
      (to_be_bytes (of_nat (length xs) :: u16) @ bs) xs"
    by (rule parses_bind [OF parses_u16]) (use bs assms(2) in \<open>simp add: unat_of_nat\<close>)
  with bs assms(2) show ?thesis by (simp add: wire_simps)
qed

end

lemma codec_parsesI:
  assumes "readable d" and "\<And>x. v x \<Longrightarrow> wout (e x) = Inr (b x)" and "\<And>x. v x \<Longrightarrow> parses d (b x) x"
  shows "codec d e v"
  using assms by (auto simp: codec_def codec_axioms_def)

interpretation cd_u8: codec take_u8 write_u8 "\<lambda>_. True"
  by (rule codec_parsesI [where b = "\<lambda>x. [x]"])
    (auto intro: readable_intros parses_intros simp: wire_simps)
interpretation cd_u16: codec take_u16 write_u16 "\<lambda>_. True"
  by (rule codec_parsesI [where b = to_be_bytes])
    (auto intro: readable_intros parses_intros simp: wire_simps)
interpretation cd_u32: codec take_u32 write_u32 "\<lambda>_. True"
  by (rule codec_parsesI [where b = to_be_bytes])
    (auto intro: readable_intros parses_intros simp: wire_simps)
interpretation cd_u64: codec take_u64 write_u64 "\<lambda>_. True"
  by (rule codec_parsesI [where b = to_be_bytes])
    (auto intro: readable_intros parses_intros simp: wire_simps)
interpretation cd_u128: codec take_u128 write_u128 "\<lambda>_. True"
  by (rule codec_parsesI [where b = to_be_bytes])
    (auto intro: readable_intros parses_intros simp: wire_simps)

lemma parses_nested_u8len [parses_intros]:
  assumes "run_inner f body = Inr x" and "length body < 2 ^ 8"
  shows "parses (read_nested_u8len f) ([of_nat (length body)] @ body) x"
  unfolding read_nested_u8len_def
  by (rule parses_nested [OF assms(1) parses_u8]) (use assms(2) in \<open>simp_all add: unat_of_nat\<close>)

lemma parses_nested_u16len [parses_intros]:
  assumes "run_inner f body = Inr x" and "length body < 2 ^ 16"
  shows "parses (read_nested_u16len f) (to_be_bytes (of_nat (length body) :: u16) @ body) x"
  unfolding read_nested_u16len_def
  by (rule parses_nested [OF assms(1) parses_u16]) (use assms(2) in \<open>simp_all add: unat_of_nat\<close>)

lemma parses_nested_u32len [parses_intros]:
  assumes "run_inner f body = Inr x" and "length body < 2 ^ 32"
  shows "parses (read_nested_u32len f) (to_be_bytes (of_nat (length body) :: u32) @ body) x"
  unfolding read_nested_u32len_def
  by (rule parses_nested [OF assms(1) parses_u32]) (use assms(2) in \<open>simp_all add: unat_of_nat\<close>)

section \<open>Properties of the writers\<close>

text \<open>
  C30: writing into a \<open>SliceWriter\<close> implements writing into a growing \<open>Vec\<close>. For every
  encoder that succeeds with bytes \<open>bs\<close>, the fixed-size writer returns the buffer with
  \<open>bs\<close> at its start and the remaining bytes untouched if they fit, and \<open>Truncated\<close> if they
  do not, however the encoder cuts its output into blocks.
\<close>

theorem slice_writer_refines_vec:
  assumes "length d < usize_max" and "wout e = Inr bs"
  shows "fold vec_write_all (fst e) [] = bs \<and>
    sw_try_unwrap (fold sw_write_all (fst e) (sw_new d)) =
      (if length bs \<le> length d then Inr (bs @ drop (length bs) d, length bs) else Inl ())"
proof -
  have new: "sw_wf (sw_new d)" "sw_contents (sw_new d) = Some []" "sw_offset (sw_new d) \<noteq> usize_max"
    using assms(1) by (simp_all add: sw_wf_def sw_contents_def sw_new_def)
  have bs: "bs = concat (fst e)"
    using assms(2) by (simp add: wout_def split: option.splits)
  have "sw_try_unwrap (fold sw_write_all (fst e) (sw_new d)) =
      (if length bs \<le> length d then Inr (bs @ drop (length bs) d, length bs) else Inl ())"
  proof (cases "length bs \<le> length d")
    case True
    then have "sw_fits (sw_new d) (length (concat (fst e)))"
      by (simp add: sw_fits_def sw_new_def bs)
    from sw_tail_kept [OF new(1) this new(3)] show ?thesis
      using True assms(1) by (simp add: sw_try_unwrap_def sw_offset_res_def bs sw_new_def)
  next
    case False
    then have "sw_contents (fold sw_write_all (fst e) (sw_new d)) = None"
      using sw.run_blocks [OF new(1,2), of "fst e"] by (simp add: sw_fits_def sw_new_def bs)
    then show ?thesis
      using False by (simp add: sw_try_unwrap_def sw_offset_res_def sw_contents_def split: if_splits)
  qed
  moreover have "fold vec_write_all (fst e) [] = bs"
    using vec.run_blocks [of "[]" "[]" "fst e"] bs by simp
  ultimately show ?thesis by simp
qed

theorem slice_writer_refines_vec_witness:
  "sw_try_unwrap (fold sw_write_all (fst (wseq [write_u16 5, write_u8 7])) (sw_new [9, 9, 9, 9])) =
     Inr ([0, 5, 7] @ [9], 3)"
proof -
  have e: "wout (wseq [write_u16 5, write_u8 7]) = Inr [0, 5, 7]"
    by (simp add: wire_simps) (simp add: to_be_bytes_def)
  show ?thesis
    using slice_writer_refines_vec [OF _ e, of "[9, 9, 9, 9]"] by simp
qed

text \<open>
  C32: what a nested writer finishes, the nested reader of the same width reads back: if the
  inner encoder succeeds with a body that the inner reader decodes completely to \<open>x\<close> and the
  length fits the length field, then \<open>finish\<close> succeeds and \<open>read_nested\<close> yields \<open>x\<close>, consuming
  exactly the bytes written; if the length does not fit, \<open>finish\<close> fails with
  \<open>BadLengthValue\<close> and writes nothing.
\<close>

theorem nested_roundtrip:
  assumes "wout w = Inr body" and "run_inner f body = Inr x"
  shows "(if length body < 2 ^ 8
          then \<exists>bs. wout (write_nested_u8len w) = Inr bs \<and> parses (read_nested_u8len f) bs x
          else write_nested_u8len w = ([], Some EBadLengthValue)) \<and>
    (if length body < 2 ^ 16
          then \<exists>bs. wout (write_nested_u16len w) = Inr bs \<and> parses (read_nested_u16len f) bs x
          else write_nested_u16len w = ([], Some EBadLengthValue)) \<and>
    (if length body < 2 ^ 32
          then \<exists>bs. wout (write_nested_u32len w) = Inr bs \<and> parses (read_nested_u32len f) bs x
          else write_nested_u32len w = ([], Some EBadLengthValue))"
  using parses_nested_u8len [OF assms(2)] parses_nested_u16len [OF assms(2)]
    parses_nested_u32len [OF assms(2)]
  by (auto simp: assms(1) write_nested_u8len_def write_nested_u16len_def
      write_nested_u32len_def nested_finish_def wire_simps) (simp_all add: w_fail_def)

theorem nested_roundtrip_witness:
  "\<exists>bs. wout (write_nested_u8len (write_u16 513)) = Inr bs \<and>
     parses (read_nested_u8len take_u16) bs 513"
  using nested_roundtrip [of "write_u16 513" "to_be_bytes (513 :: u16)" take_u16 513]
  by (simp add: wout_simps run_inner_parses parses_u16)

end
