(* ===== verification/Chan_Msg.thy ===== *)
theory Chan_Msg
  imports Bytes_Writer
begin

text \<open>
  Channel messages (\<open>tor-cell/src/chancell.rs\<close>, \<open>chancell/msg.rs\<close>): the commands, the message
  bodies with their encoders and decoders, and the enum \<open>AnyChanMsg\<close> that the
  \<open>restricted_msg!\<close> macro (\<open>restrict.rs\<close>) expands to. The \<open>caret_int!\<close> types are integers
  with names for some values, so they are words here.
\<close>

section \<open>Commands and circuit identifiers\<close>

abbreviation CELL_DATA_LEN :: nat where
  "CELL_DATA_LEN \<equiv> 509"

type_synonym chan_cmd = u8

abbreviation (input) ChanCmd_PADDING :: chan_cmd where "ChanCmd_PADDING \<equiv> 0"
abbreviation (input) ChanCmd_CREATE :: chan_cmd where "ChanCmd_CREATE \<equiv> 1"
abbreviation (input) ChanCmd_CREATED :: chan_cmd where "ChanCmd_CREATED \<equiv> 2"
abbreviation (input) ChanCmd_RELAY :: chan_cmd where "ChanCmd_RELAY \<equiv> 3"
abbreviation (input) ChanCmd_DESTROY :: chan_cmd where "ChanCmd_DESTROY \<equiv> 4"
abbreviation (input) ChanCmd_CREATE_FAST :: chan_cmd where "ChanCmd_CREATE_FAST \<equiv> 5"
abbreviation (input) ChanCmd_CREATED_FAST :: chan_cmd where "ChanCmd_CREATED_FAST \<equiv> 6"
abbreviation (input) ChanCmd_VERSIONS :: chan_cmd where "ChanCmd_VERSIONS \<equiv> 7"
abbreviation (input) ChanCmd_NETINFO :: chan_cmd where "ChanCmd_NETINFO \<equiv> 8"
abbreviation (input) ChanCmd_RELAY_EARLY :: chan_cmd where "ChanCmd_RELAY_EARLY \<equiv> 9"
abbreviation (input) ChanCmd_CREATE2 :: chan_cmd where "ChanCmd_CREATE2 \<equiv> 10"
abbreviation (input) ChanCmd_CREATED2 :: chan_cmd where "ChanCmd_CREATED2 \<equiv> 11"
abbreviation (input) ChanCmd_PADDING_NEGOTIATE :: chan_cmd where "ChanCmd_PADDING_NEGOTIATE \<equiv> 12"
abbreviation (input) ChanCmd_VPADDING :: chan_cmd where "ChanCmd_VPADDING \<equiv> 128"
abbreviation (input) ChanCmd_CERTS :: chan_cmd where "ChanCmd_CERTS \<equiv> 129"
abbreviation (input) ChanCmd_AUTH_CHALLENGE :: chan_cmd where "ChanCmd_AUTH_CHALLENGE \<equiv> 130"
abbreviation (input) ChanCmd_AUTHENTICATE :: chan_cmd where "ChanCmd_AUTHENTICATE \<equiv> 131"
abbreviation (input) ChanCmd_AUTHORIZE :: chan_cmd where "ChanCmd_AUTHORIZE \<equiv> 132"

text \<open>\<open>CircId\<close> wraps a \<open>NonZeroU32\<close>; an \<open>Option<CircId>\<close> is an option of a nonzero word.\<close>

type_synonym circ_id = u32

definition CircId_new :: "u32 \<Rightarrow> circ_id option" where
  "CircId_new val = (if val = 0 then None else Some val)"

definition get_or_zero :: "circ_id option \<Rightarrow> u32" where
  "get_or_zero circ_id = (case circ_id of Some c \<Rightarrow> c | None \<Rightarrow> 0)"

datatype circ_id_req = WantNone | WantSome | AnyCircId

definition is_var_cell :: "chan_cmd \<Rightarrow> bool" where
  "is_var_cell cmd \<longleftrightarrow> cmd = ChanCmd_VERSIONS \<or> cmd \<ge> 128"

definition allows_circid :: "chan_cmd \<Rightarrow> circ_id_req" where
  "allows_circid cmd =
     (if cmd \<in> {ChanCmd_PADDING, ChanCmd_NETINFO, ChanCmd_PADDING_NEGOTIATE, ChanCmd_VERSIONS,
                ChanCmd_VPADDING, ChanCmd_CERTS, ChanCmd_AUTH_CHALLENGE, ChanCmd_AUTHENTICATE}
      then WantNone
      else if cmd \<in> {ChanCmd_CREATE, ChanCmd_CREATED, ChanCmd_RELAY, ChanCmd_DESTROY,
                     ChanCmd_CREATE_FAST, ChanCmd_CREATED_FAST, ChanCmd_RELAY_EARLY,
                     ChanCmd_CREATE2, ChanCmd_CREATED2}
      then WantSome
      else AnyCircId)"

definition accepts_circid_val :: "chan_cmd \<Rightarrow> circ_id option \<Rightarrow> bool" where
  "accepts_circid_val cmd cid =
     (case allows_circid cmd of
        WantNone \<Rightarrow> cid = None
      | WantSome \<Rightarrow> cid \<noteq> None
      | AnyCircId \<Rightarrow> True)"

section \<open>Message bodies\<close>

subsection \<open>Padding, Vpadding\<close>

definition padding_encode :: wr where
  "padding_encode = wseq []"

definition padding_take :: "unit rd" where
  "padding_take = rret ()"

definition vpadding_encode :: "u16 \<Rightarrow> wr" where
  "vpadding_encode len = write_zeros (unat len)"

definition vpadding_take :: "u16 rd" where
  "vpadding_take r =
     (if remaining r > 65535 then (Inl (InvalidMessage ''Too many bytes in VPADDING cell''), r)
      else (Inr (of_nat (remaining r)), r))"

subsection \<open>Fixed-length handshakes\<close>

abbreviation TAP_C_HANDSHAKE_LEN :: nat where "TAP_C_HANDSHAKE_LEN \<equiv> 186"
abbreviation TAP_S_HANDSHAKE_LEN :: nat where "TAP_S_HANDSHAKE_LEN \<equiv> 148"
abbreviation FAST_C_HANDSHAKE_LEN :: nat where "FAST_C_HANDSHAKE_LEN \<equiv> 20"
abbreviation FAST_S_HANDSHAKE_LEN :: nat where "FAST_S_HANDSHAKE_LEN \<equiv> 40"

definition handshake_encode :: "bytes \<Rightarrow> wr" where
  "handshake_encode handshake = w_all handshake"

definition handshake_take :: "nat \<Rightarrow> bytes rd" where
  "handshake_take len = take_r len"

subsection \<open>Create2, Created2\<close>

record create2 =
  handshake_type :: u16
  handshake :: bytes

definition create2_encode :: "create2 \<Rightarrow> wr" where
  "create2_encode m =
     wseq [write_u16 (handshake_type m), w_len_u16 (length (handshake m)), w_all (handshake m)]"

definition create2_take :: "create2 rd" where
  "create2_take =
     rbind take_u16 (\<lambda>ht.
     rbind take_u16 (\<lambda>hlen.
     rbind (take_r (unat hlen)) (\<lambda>hs.
     rret \<lparr>handshake_type = ht, handshake = hs\<rparr>)))"

definition created2_encode :: "bytes \<Rightarrow> wr" where
  "created2_encode hs = wseq [w_len_u16 (length hs), w_all hs]"

definition created2_take :: "bytes rd" where
  "created2_take = rbind take_u16 (\<lambda>hlen. take_r (unat hlen))"

subsection \<open>Relay, RelayEarly, Destroy\<close>

text \<open>\<open>Relay::new\<close> copies into the start of a zeroed body and panics on a longer slice.\<close>

definition Relay_new :: "bytes \<Rightarrow> bytes option" where
  "Relay_new body =
     (if length body \<le> CELL_DATA_LEN then Some (body @ replicate (CELL_DATA_LEN - length body) 0)
      else None)"

definition relay_encode :: "bytes \<Rightarrow> wr" where
  "relay_encode body = w_all body"

definition relay_take :: "bytes rd" where
  "relay_take =
     rbind (take_r CELL_DATA_LEN) (\<lambda>b.
       if length b = CELL_DATA_LEN then rret b else rfail (Panicked ''copy_from_slice''))"

definition relay_early_encode :: "bytes \<Rightarrow> wr" where
  "relay_early_encode body = relay_encode body"

definition relay_early_take :: "bytes rd" where
  "relay_early_take = relay_take"

definition destroy_encode :: "u8 \<Rightarrow> wr" where
  "destroy_encode reason = write_u8 reason"

definition destroy_take :: "u8 rd" where
  "destroy_take = take_u8"

subsection \<open>Netinfo\<close>

record netinfo =
  timestamp :: u32
  their_addr :: "ip_addr option"
  my_addr :: "ip_addr list"

definition enc_one_netinfo_addr :: "ip_addr \<Rightarrow> wr" where
  "enc_one_netinfo_addr addr =
     (case addr of
        V4 ipv4 \<Rightarrow> wseq [write_u8 4, write_u8 4, w_all (octets (V4 ipv4))]
      | V6 ipv6 \<Rightarrow> wseq [write_u8 6, write_u8 16, w_all (octets (V6 ipv6))])"

definition take_one_netinfo_addr :: "ip_addr option rd" where
  "take_one_netinfo_addr =
     rbind take_u8 (\<lambda>atype.
     rbind take_u8 (\<lambda>alen.
     rbind (take_r (unat alen)) (\<lambda>abody.
       if atype = 4 \<and> alen = 4 then
         (case abody of
            b0 # b1 # b2 # b3 # _ \<Rightarrow> rret (Some (V4 (from_be_bytes [b0, b1, b2, b3])))
          | _ \<Rightarrow> rfail (Panicked ''index''))
       else if atype = 6 \<and> alen = 16 then
         (if length abody = 16 then rret (Some (V6 (from_be_bytes abody)))
          else rfail (Panicked ''copy_from_slice''))
       else rret None)))"

definition Netinfo_from_client :: "ip_addr option \<Rightarrow> netinfo" where
  "Netinfo_from_client their = \<lparr>timestamp = 0, their_addr = their, my_addr = []\<rparr>"

definition Netinfo_from_relay :: "u32 \<Rightarrow> ip_addr option \<Rightarrow> ip_addr list \<Rightarrow> netinfo" where
  "Netinfo_from_relay ts their my = \<lparr>timestamp = ts, their_addr = their, my_addr = my\<rparr>"

text \<open>\<open>timestamp()\<close> as seconds since the epoch.\<close>

definition netinfo_timestamp :: "netinfo \<Rightarrow> nat option" where
  "netinfo_timestamp m = (if timestamp m = 0 then None else Some (unat (timestamp m)))"

definition netinfo_encode :: "netinfo \<Rightarrow> wr" where
  "netinfo_encode m =
     wseq ([write_u32 (timestamp m),
            enc_one_netinfo_addr (case their_addr m of Some a \<Rightarrow> a | None \<Rightarrow> V4 0),
            w_len_u8 (length (my_addr m))] @
           map enc_one_netinfo_addr (my_addr m))"

definition opt_filter :: "('a \<Rightarrow> bool) \<Rightarrow> 'a option \<Rightarrow> 'a option" where
  "opt_filter P x = (case x of Some a \<Rightarrow> (if P a then Some a else None) | None \<Rightarrow> None)"

fun netinfo_addrs_loop :: "nat \<Rightarrow> ip_addr list rd" where
  "netinfo_addrs_loop 0 = rret []"
| "netinfo_addrs_loop (Suc n) =
     rbind take_one_netinfo_addr (\<lambda>a.
     rbind (netinfo_addrs_loop n) (\<lambda>rest.
     rret (case a of Some x \<Rightarrow> x # rest | None \<Rightarrow> rest)))"

definition netinfo_take :: "netinfo rd" where
  "netinfo_take =
     rbind take_u32 (\<lambda>ts.
     rbind take_one_netinfo_addr (\<lambda>their.
     rbind take_u8 (\<lambda>my_n_addrs.
     rbind (netinfo_addrs_loop (unat my_n_addrs)) (\<lambda>my.
     rret \<lparr>timestamp = ts,
           their_addr = opt_filter (\<lambda>a. \<not> is_unspecified a) their,
           my_addr = my\<rparr>))))"

subsection \<open>Versions\<close>

definition Versions_new :: "u16 list \<Rightarrow> u16 list option" where
  "Versions_new versions = (if length versions < 65535 div 2 then Some versions else None)"

definition versions_encode :: "u16 list \<Rightarrow> wr" where
  "versions_encode versions = wseq (map write_u16 versions)"

definition encode_for_handshake :: "u16 list \<Rightarrow> encode_error + bytes" where
  "encode_for_handshake versions =
     wout (wseq [write_u16 0, write_u8 ChanCmd_VERSIONS,
                 write_u16 (of_nat (length versions * 2)), versions_encode versions])"

definition best_shared_link_protocol :: "u16 list \<Rightarrow> u16 list \<Rightarrow> u16 option" where
  "best_shared_link_protocol versions my_protos =
     (let p = foldl max 0 (filter (\<lambda>p. p \<in> set versions) my_protos) in
      if p = 0 then None else Some p)"

lemma take_u16_eq:
  "take_u16 r =
     (if remaining r < 2 then (Inl (incomplete_error r (2 - remaining r)), r)
      else (Inr (from_be_bytes (take 2 (rest r))), adv 2 r))"
  by (simp add: take_u16_def take_array_def take_into_def extract_r_def rbind_def take_r_eq)

function versions_loop :: "reader \<Rightarrow> (bytes_error + u16 list) \<times> reader" where
  "versions_loop r =
     (if remaining r > 0 then
        (case take_u16 r of
           (Inl e, r') \<Rightarrow> (Inl e, r')
         | (Inr v, r') \<Rightarrow>
             (case versions_loop r' of
                (Inl e, r'') \<Rightarrow> (Inl e, r'')
              | (Inr vs, r'') \<Rightarrow> (Inr (v # vs), r'')))
      else (Inr [], r))"
  by pat_completeness auto
termination
  by (relation "measure remaining") (auto simp: take_u16_eq split: if_splits)

declare versions_loop.simps [simp del]

definition versions_take :: "u16 list rd" where
  "versions_take = versions_loop"

subsection \<open>PaddingNegotiate\<close>

record padding_negotiate =
  pn_command :: u8
  ito_low_ms :: u16
  ito_high_ms :: u16

definition PaddingNegotiate_start_default :: padding_negotiate where
  "PaddingNegotiate_start_default = \<lparr>pn_command = 2, ito_low_ms = 0, ito_high_ms = 0\<rparr>"

definition PaddingNegotiate_start :: "u16 \<Rightarrow> u16 \<Rightarrow> padding_negotiate" where
  "PaddingNegotiate_start lo hi = \<lparr>pn_command = 2, ito_low_ms = lo, ito_high_ms = hi\<rparr>"

definition PaddingNegotiate_stop :: padding_negotiate where
  "PaddingNegotiate_stop = \<lparr>pn_command = 1, ito_low_ms = 0, ito_high_ms = 0\<rparr>"

definition padding_negotiate_encode :: "padding_negotiate \<Rightarrow> wr" where
  "padding_negotiate_encode m =
     wseq [write_u8 0, write_u8 (pn_command m), write_u16 (ito_low_ms m), write_u16 (ito_high_ms m)]"

definition padding_negotiate_take :: "padding_negotiate rd" where
  "padding_negotiate_take =
     rbind take_u8 (\<lambda>v.
       if v \<noteq> 0 then rfail (InvalidMessage ''Unrecognized padding negotiation version'')
       else rbind take_u8 (\<lambda>command.
            rbind take_u16 (\<lambda>lo.
            rbind take_u16 (\<lambda>hi.
            rret \<lparr>pn_command = command, ito_low_ms = lo, ito_high_ms = hi\<rparr>))))"

subsection \<open>Certs\<close>

record tor_cert =
  certtype :: u8
  cert :: bytes

definition enc_one_tor_cert :: "tor_cert \<Rightarrow> wr" where
  "enc_one_tor_cert c = wseq [write_u8 (certtype c), w_len_u16 (length (cert c)), w_all (cert c)]"

definition take_one_tor_cert :: "tor_cert rd" where
  "take_one_tor_cert =
     rbind take_u8 (\<lambda>ct.
     rbind take_u16 (\<lambda>certlen.
     rbind (take_r (unat certlen)) (\<lambda>body.
     rret \<lparr>certtype = ct, cert = body\<rparr>)))"

definition push_cert_body :: "u8 \<Rightarrow> bytes \<Rightarrow> tor_cert list \<Rightarrow> tor_cert list" where
  "push_cert_body ct body certs = certs @ [\<lparr>certtype = ct, cert = body\<rparr>]"

definition cert_body :: "tor_cert list \<Rightarrow> u8 \<Rightarrow> bytes option" where
  "cert_body certs tp = map_option cert (List.find (\<lambda>c. certtype c = tp) certs)"

definition certs_encode :: "tor_cert list \<Rightarrow> wr" where
  "certs_encode certs = wseq (w_len_u8 (length certs) # map enc_one_tor_cert certs)"

definition certs_take :: "tor_cert list rd" where
  "certs_take = rbind take_u8 (\<lambda>n. extract_loop (unat n) take_one_tor_cert)"

subsection \<open>AuthChallenge, Authenticate, Authorize, Unrecognized\<close>

abbreviation CHALLENGE_LEN :: nat where "CHALLENGE_LEN \<equiv> 32"

record auth_challenge =
  challenge :: bytes
  methods :: "u16 list"

definition auth_challenge_encode :: "auth_challenge \<Rightarrow> wr" where
  "auth_challenge_encode m =
     wseq ([w_all (challenge m), w_len_u16 (length (methods m))] @ map write_u16 (methods m))"

definition auth_challenge_take :: "auth_challenge rd" where
  "auth_challenge_take =
     rbind (extract_r (take_array CHALLENGE_LEN)) (\<lambda>ch.
     rbind take_u16 (\<lambda>n_methods.
     rbind (extract_loop (unat n_methods) take_u16) (\<lambda>ms.
     rret \<lparr>challenge = ch, methods = ms\<rparr>)))"

record authenticate =
  authtype :: u16
  auth :: bytes

definition authenticate_encode :: "authenticate \<Rightarrow> wr" where
  "authenticate_encode m =
     wseq [write_u16 (authtype m), w_len_u16 (length (auth m)), w_all (auth m)]"

definition authenticate_take :: "authenticate rd" where
  "authenticate_take =
     rbind take_u16 (\<lambda>at.
     rbind take_u16 (\<lambda>authlen.
     rbind (take_r (unat authlen)) (\<lambda>a.
     rret \<lparr>authtype = at, auth = a\<rparr>)))"

definition authorize_encode :: "bytes \<Rightarrow> wr" where
  "authorize_encode content = w_all content"

definition authorize_take :: "bytes rd" where
  "authorize_take r = take_r (remaining r) r"

record unrecognized =
  u_cmd :: u8
  u_content :: bytes

definition unrecognized_encode :: "unrecognized \<Rightarrow> wr" where
  "unrecognized_encode m = w_all (u_content m)"

definition unrecognized_take :: "unrecognized rd" where
  "unrecognized_take = rbind (\<lambda>r. take_r (remaining r) r) (\<lambda>b. rret \<lparr>u_cmd = 0, u_content = b\<rparr>)"

definition decode_with_cmd :: "chan_cmd \<Rightarrow> unrecognized rd" where
  "decode_with_cmd cmd = rbind unrecognized_take (\<lambda>u. rret (u\<lparr>u_cmd := cmd\<rparr>))"

section \<open>AnyChanMsg\<close>

datatype any_chan_msg =
    Padding
  | Vpadding u16
  | Create bytes
  | CreateFast bytes
  | Create2 create2
  | Created bytes
  | CreatedFast bytes
  | Created2 bytes
  | Relay bytes
  | RelayEarly bytes
  | Destroy u8
  | Netinfo netinfo
  | Versions "u16 list"
  | PaddingNegotiate padding_negotiate
  | Certs "tor_cert list"
  | AuthChallenge auth_challenge
  | Authenticate authenticate
  | Authorize bytes
  | ChanUnrecognized unrecognized

fun any_chan_cmd :: "any_chan_msg \<Rightarrow> chan_cmd" where
  "any_chan_cmd Padding = ChanCmd_PADDING"
| "any_chan_cmd (Vpadding _) = ChanCmd_VPADDING"
| "any_chan_cmd (Create _) = ChanCmd_CREATE"
| "any_chan_cmd (CreateFast _) = ChanCmd_CREATE_FAST"
| "any_chan_cmd (Create2 _) = ChanCmd_CREATE2"
| "any_chan_cmd (Created _) = ChanCmd_CREATED"
| "any_chan_cmd (CreatedFast _) = ChanCmd_CREATED_FAST"
| "any_chan_cmd (Created2 _) = ChanCmd_CREATED2"
| "any_chan_cmd (Relay _) = ChanCmd_RELAY"
| "any_chan_cmd (RelayEarly _) = ChanCmd_RELAY_EARLY"
| "any_chan_cmd (Destroy _) = ChanCmd_DESTROY"
| "any_chan_cmd (Netinfo _) = ChanCmd_NETINFO"
| "any_chan_cmd (Versions _) = ChanCmd_VERSIONS"
| "any_chan_cmd (PaddingNegotiate _) = ChanCmd_PADDING_NEGOTIATE"
| "any_chan_cmd (Certs _) = ChanCmd_CERTS"
| "any_chan_cmd (AuthChallenge _) = ChanCmd_AUTH_CHALLENGE"
| "any_chan_cmd (Authenticate _) = ChanCmd_AUTHENTICATE"
| "any_chan_cmd (Authorize _) = ChanCmd_AUTHORIZE"
| "any_chan_cmd (ChanUnrecognized u) = u_cmd u"

fun any_chan_encode :: "any_chan_msg \<Rightarrow> wr" where
  "any_chan_encode Padding = padding_encode"
| "any_chan_encode (Vpadding m) = vpadding_encode m"
| "any_chan_encode (Create m) = handshake_encode m"
| "any_chan_encode (CreateFast m) = handshake_encode m"
| "any_chan_encode (Create2 m) = create2_encode m"
| "any_chan_encode (Created m) = handshake_encode m"
| "any_chan_encode (CreatedFast m) = handshake_encode m"
| "any_chan_encode (Created2 m) = created2_encode m"
| "any_chan_encode (Relay m) = relay_encode m"
| "any_chan_encode (RelayEarly m) = relay_early_encode m"
| "any_chan_encode (Destroy m) = destroy_encode m"
| "any_chan_encode (Netinfo m) = netinfo_encode m"
| "any_chan_encode (Versions m) = versions_encode m"
| "any_chan_encode (PaddingNegotiate m) = padding_negotiate_encode m"
| "any_chan_encode (Certs m) = certs_encode m"
| "any_chan_encode (AuthChallenge m) = auth_challenge_encode m"
| "any_chan_encode (Authenticate m) = authenticate_encode m"
| "any_chan_encode (Authorize m) = authorize_encode m"
| "any_chan_encode (ChanUnrecognized m) = unrecognized_encode m"

definition any_chan_decode :: "chan_cmd \<Rightarrow> any_chan_msg rd" where
  "any_chan_decode cmd =
     (if cmd = ChanCmd_PADDING then rmap (\<lambda>_. Padding) (extract_r padding_take)
      else if cmd = ChanCmd_VPADDING then rmap Vpadding (extract_r vpadding_take)
      else if cmd = ChanCmd_CREATE then rmap Create (extract_r (handshake_take TAP_C_HANDSHAKE_LEN))
      else if cmd = ChanCmd_CREATE_FAST
        then rmap CreateFast (extract_r (handshake_take FAST_C_HANDSHAKE_LEN))
      else if cmd = ChanCmd_CREATE2 then rmap Create2 (extract_r create2_take)
      else if cmd = ChanCmd_CREATED then rmap Created (extract_r (handshake_take TAP_S_HANDSHAKE_LEN))
      else if cmd = ChanCmd_CREATED_FAST
        then rmap CreatedFast (extract_r (handshake_take FAST_S_HANDSHAKE_LEN))
      else if cmd = ChanCmd_CREATED2 then rmap Created2 (extract_r created2_take)
      else if cmd = ChanCmd_RELAY then rmap Relay (extract_r relay_take)
      else if cmd = ChanCmd_RELAY_EARLY then rmap RelayEarly (extract_r relay_early_take)
      else if cmd = ChanCmd_DESTROY then rmap Destroy (extract_r destroy_take)
      else if cmd = ChanCmd_NETINFO then rmap Netinfo (extract_r netinfo_take)
      else if cmd = ChanCmd_VERSIONS then rmap Versions (extract_r versions_take)
      else if cmd = ChanCmd_PADDING_NEGOTIATE
        then rmap PaddingNegotiate (extract_r padding_negotiate_take)
      else if cmd = ChanCmd_CERTS then rmap Certs (extract_r certs_take)
      else if cmd = ChanCmd_AUTH_CHALLENGE then rmap AuthChallenge (extract_r auth_challenge_take)
      else if cmd = ChanCmd_AUTHENTICATE then rmap Authenticate (extract_r authenticate_take)
      else if cmd = ChanCmd_AUTHORIZE then rmap Authorize (extract_r authorize_take)
      else rmap ChanUnrecognized (decode_with_cmd cmd))"

section \<open>Each body is a codec\<close>

text \<open>A two-byte length and a body of that length.\<close>

lemma readable_create2 [readable_intros]: "readable create2_take"
  unfolding create2_take_def by (intro readable_intros)

interpretation cd_create2: codec create2_take create2_encode "\<lambda>m. length (handshake m) < 2 ^ 16"
proof (rule codec_parsesI, rule readable_create2)
  fix m :: create2
  assume m: "length (handshake m) < 2 ^ 16"
  show "wout (create2_encode m) =
     Inr (to_be_bytes (handshake_type m) @ to_be_bytes (of_nat (length (handshake m)) :: u16) @ handshake m)"
    using m by (simp add: create2_encode_def wire_simps)
  show "parses create2_take
     (to_be_bytes (handshake_type m) @ to_be_bytes (of_nat (length (handshake m)) :: u16) @ handshake m) m"
    unfolding create2_take_def
    by (rule parses_intros)+ (use m in \<open>simp_all add: unat_of_nat\<close>)
qed

lemma readable_created2 [readable_intros]: "readable created2_take"
  unfolding created2_take_def by (intro readable_intros)

interpretation cd_created2: codec created2_take created2_encode "\<lambda>hs. length hs < 2 ^ 16"
proof (rule codec_parsesI, rule readable_created2)
  fix hs :: bytes
  assume m: "length hs < 2 ^ 16"
  show "wout (created2_encode hs) = Inr (to_be_bytes (of_nat (length hs) :: u16) @ hs)"
    using m by (simp add: created2_encode_def wire_simps)
  show "parses created2_take (to_be_bytes (of_nat (length hs) :: u16) @ hs) hs"
    unfolding created2_take_def
    by (rule parses_intros)+ (use m in \<open>simp_all add: unat_of_nat\<close>)
qed

lemma relay_take_eq: "relay_take = take_r CELL_DATA_LEN"
  by (rule ext) (auto simp: relay_take_def rbind_def take_r_eq)

lemma readable_relay [readable_intros]: "readable relay_take"
  unfolding relay_take_eq by (rule readable_take)

interpretation cd_relay: codec relay_take relay_encode "\<lambda>b. length b = CELL_DATA_LEN"
  by (rule codec_parsesI [where b = "\<lambda>b. b"], rule readable_relay)
    (auto simp: relay_encode_def wire_simps relay_take_eq intro: parses_take)

lemma readable_padding_negotiate [readable_intros]: "readable padding_negotiate_take"
  unfolding padding_negotiate_take_def by (intro readable_intros) auto

interpretation cd_padding_negotiate:
  codec padding_negotiate_take padding_negotiate_encode "\<lambda>_. True"
proof (rule codec_parsesI, rule readable_padding_negotiate)
  fix m :: padding_negotiate
  show "wout (padding_negotiate_encode m) =
     Inr ([0] @ [pn_command m] @ to_be_bytes (ito_low_ms m) @ to_be_bytes (ito_high_ms m))"
    by (simp add: padding_negotiate_encode_def wire_simps)
  show "parses padding_negotiate_take
     ([0] @ [pn_command m] @ to_be_bytes (ito_low_ms m) @ to_be_bytes (ito_high_ms m)) m"
    unfolding padding_negotiate_take_def
    by (rule parses_bind [OF parses_u8], rule parses_if_False, simp, (rule parses_intros)+, simp)
qed

lemma readable_tor_cert [readable_intros]: "readable take_one_tor_cert"
  unfolding take_one_tor_cert_def by (intro readable_intros)

interpretation cd_tor_cert:
  codec take_one_tor_cert enc_one_tor_cert "\<lambda>c. length (cert c) < 2 ^ 16"
proof (rule codec_parsesI, rule readable_tor_cert)
  fix c :: tor_cert
  assume c: "length (cert c) < 2 ^ 16"
  show "wout (enc_one_tor_cert c) =
     Inr ([certtype c] @ to_be_bytes (of_nat (length (cert c)) :: u16) @ cert c)"
    using c by (simp add: enc_one_tor_cert_def wire_simps)
  show "parses take_one_tor_cert
     ([certtype c] @ to_be_bytes (of_nat (length (cert c)) :: u16) @ cert c) c"
    unfolding take_one_tor_cert_def
    by (rule parses_intros)+ (use c in \<open>simp_all add: unat_of_nat\<close>)
qed

lemma readable_certs [readable_intros]: "readable certs_take"
  unfolding certs_take_def by (intro readable_intros)

interpretation cd_certs:
  codec certs_take certs_encode "\<lambda>cs. length cs < 2 ^ 8 \<and> list_all (\<lambda>c. length (cert c) < 2 ^ 16) cs"
  by (rule codec.intro [OF readable_certs], unfold_locales, unfold certs_take_def certs_encode_def,
      rule cd_tor_cert.counted_u8_round_trip) simp_all

text \<open>The rest of a body after a fixed prefix.\<close>

lemma codec_prefixI:
  assumes "\<exists>bs. wout (wseq ws) = Inr bs \<and> parses (f x) bs y" and "wout w = Inr as" and "parses m as x"
  shows "\<exists>bs. wout (wseq (w # ws)) = Inr bs \<and> parses (rbind m f) bs y"
  using assms by (auto simp: wire_simps intro: parses_bind)

lemma readable_auth_challenge [readable_intros]: "readable auth_challenge_take"
  unfolding auth_challenge_take_def by (intro readable_intros)

lemma rbind_assoc: "rbind (rbind m f) g = rbind m (\<lambda>x. rbind (f x) g)"
  by (rule ext) (auto simp: rbind_def split: prod.splits sum.splits)

interpretation cd_auth_challenge: codec auth_challenge_take auth_challenge_encode
  "\<lambda>m. length (challenge m) = CHALLENGE_LEN \<and> length (methods m) < 2 ^ 16"
proof (rule codec.intro [OF readable_auth_challenge], unfold_locales)
  fix m :: auth_challenge
  assume m: "length (challenge m) = CHALLENGE_LEN \<and> length (methods m) < 2 ^ 16"
  then have "\<exists>bs. wout (wseq (w_len_u16 (length (methods m)) # map write_u16 (methods m))) = Inr bs \<and>
      parses (rbind take_u16 (\<lambda>n. extract_loop (unat n) take_u16)) bs (methods m)"
    by (intro cd_u16.counted_u16_round_trip) (simp_all add: list_all_iff)
  then obtain bs where bs: "wout (wseq (w_len_u16 (length (methods m)) # map write_u16 (methods m))) = Inr bs"
      "parses (rbind take_u16 (\<lambda>n. extract_loop (unat n) take_u16)) bs (methods m)" by blast
  have "parses (rbind (rbind take_u16 (\<lambda>n. extract_loop (unat n) take_u16))
      (\<lambda>ms. rret \<lparr>challenge = challenge m, methods = ms\<rparr>)) bs m"
    by (rule parses_bind_ret [OF bs(2)]) simp
  then have "parses auth_challenge_take (challenge m @ bs) m"
    unfolding auth_challenge_take_def rbind_assoc
    using m by (intro parses_bind [OF parses_extract [OF parses_array]]) auto
  with bs(1) m show "\<exists>bs. wout (auth_challenge_encode m) = Inr bs \<and> parses auth_challenge_take bs m"
    by (simp add: auth_challenge_encode_def wout_wseq_Cons [of "w_all (challenge m)"] wout_simps)
qed

lemma readable_authenticate [readable_intros]: "readable authenticate_take"
  unfolding authenticate_take_def by (intro readable_intros)

interpretation cd_authenticate:
  codec authenticate_take authenticate_encode "\<lambda>m. length (auth m) < 2 ^ 16"
proof (rule codec_parsesI, rule readable_authenticate)
  fix m :: authenticate
  assume m: "length (auth m) < 2 ^ 16"
  show "wout (authenticate_encode m) =
     Inr (to_be_bytes (authtype m) @ to_be_bytes (of_nat (length (auth m)) :: u16) @ auth m)"
    using m by (simp add: authenticate_encode_def wire_simps)
  show "parses authenticate_take
     (to_be_bytes (authtype m) @ to_be_bytes (of_nat (length (auth m)) :: u16) @ auth m) m"
    unfolding authenticate_take_def
    by (rule parses_intros)+ (use m in \<open>simp_all add: unat_of_nat\<close>)
qed

subsection \<open>Netinfo\<close>

lemma readable_list_case [readable_intros]:
  "readable m \<Longrightarrow> (\<And>x xs. readable (f x xs)) \<Longrightarrow> readable (case l of [] \<Rightarrow> m | x # xs \<Rightarrow> f x xs)"
  by (cases l) auto

lemma readable_netinfo_addr [readable_intros]: "readable take_one_netinfo_addr"
  unfolding take_one_netinfo_addr_def by (intro readable_intros) auto

lemma take_netinfo_addr_parses:
  "\<exists>bs. wout (enc_one_netinfo_addr a) = Inr bs \<and> parses take_one_netinfo_addr bs (Some a)"
proof (cases a)
  case (V4 x)
  obtain b0 b1 b2 b3 where o: "to_be_bytes x = [b0, b1, b2, b3]"
    by (rule that) (simp add: to_be_bytes_def)
  then have f: "from_be_bytes [b0, b1, b2, b3] = x"
    by (simp flip: o)
  have "parses take_one_netinfo_addr ([4] @ [4] @ to_be_bytes x) (Some a)"
    unfolding take_one_netinfo_addr_def
    by (rule parses_bind [OF parses_u8], rule parses_bind [OF parses_u8],
        rule parses_bind [OF parses_take, where bs = "[]", simplified append_Nil2])
      (simp_all add: o f parses_ret V4 del: rret_apply)
  then show ?thesis
    by (auto simp: V4 enc_one_netinfo_addr_def octets_def wire_simps)
next
  case (V6 x)
  have "parses take_one_netinfo_addr ([6] @ [16] @ to_be_bytes x) (Some a)"
    unfolding take_one_netinfo_addr_def
    by (rule parses_bind [OF parses_u8], rule parses_bind [OF parses_u8],
        rule parses_bind [OF parses_take, where bs = "[]", simplified append_Nil2])
      (simp_all add: parses_ret V6 from_to_be_bytes del: rret_apply)
  then show ?thesis
    by (auto simp: V6 enc_one_netinfo_addr_def octets_def wire_simps)
qed

lemma netinfo_addrs_loop_eq:
  "netinfo_addrs_loop n = rmap (List.map_filter id) (extract_loop n take_one_netinfo_addr)"
proof (induction n)
  case (Suc n)
  show ?case
    by (rule ext)
      (auto simp: Suc rmap_def rbind_def map_filter_simps split: prod.splits sum.splits option.splits)
qed (auto simp: rmap_def rbind_def map_filter_simps)

text \<open>Read as optional addresses, the address items are a codec.\<close>

interpretation cd_netinfo_addr:
  codec take_one_netinfo_addr "\<lambda>a. enc_one_netinfo_addr (the a)" "\<lambda>a. a \<noteq> None"
  by (rule codec.intro [OF readable_netinfo_addr], unfold_locales)
    (auto simp: take_netinfo_addr_parses)

lemma readable_netinfo [readable_intros]: "readable netinfo_take"
  unfolding netinfo_take_def netinfo_addrs_loop_eq by (intro readable_intros)

definition netinfo_valid :: "netinfo \<Rightarrow> bool" where
  "netinfo_valid m \<longleftrightarrow> length (my_addr m) < 2 ^ 8 \<and>
     (case their_addr m of Some a \<Rightarrow> \<not> is_unspecified a | None \<Rightarrow> True)"

lemma netinfo_my_addrs:
  assumes "length as < 2 ^ 8"
  shows "\<exists>bs. wout (wseq (w_len_u8 (length as) # map enc_one_netinfo_addr as)) = Inr bs \<and>
    parses (rbind take_u8 (\<lambda>n. netinfo_addrs_loop (unat n))) bs as"
proof -
  obtain bs where bs: "wout (wseq (w_len_u8 (length (map Some as)) # map (\<lambda>a. enc_one_netinfo_addr (the a)) (map Some as))) = Inr bs"
    "parses (rbind take_u8 (\<lambda>n. extract_loop (unat n) take_one_netinfo_addr)) bs (map Some as)"
    using cd_netinfo_addr.counted_u8_round_trip [of "map Some as"] assms by (auto simp: list_all_iff)
  have "rbind take_u8 (\<lambda>n. netinfo_addrs_loop (unat n)) =
      rmap (List.map_filter id) (rbind take_u8 (\<lambda>n. extract_loop (unat n) take_one_netinfo_addr))"
    by (simp add: netinfo_addrs_loop_eq rmap_def rbind_assoc del: rret_apply)
  moreover have "List.map_filter id (map Some as) = as"
    by (induction as) (simp_all add: map_filter_simps)
  ultimately have "parses (rbind take_u8 (\<lambda>n. netinfo_addrs_loop (unat n))) bs as"
    using parses_map [OF bs(2), of as "List.map_filter id"] by simp
  with bs(1) show ?thesis by (auto simp: comp_def)
qed

interpretation cd_netinfo: codec netinfo_take netinfo_encode netinfo_valid
proof (rule codec.intro [OF readable_netinfo], unfold_locales)
  fix m
  assume valid: "netinfo_valid m"
  define a where "a = (case their_addr m of Some a \<Rightarrow> a | None \<Rightarrow> V4 0)"
  have filter: "opt_filter (\<lambda>a. \<not> is_unspecified a) (Some a) = their_addr m"
    using valid by (auto simp: a_def opt_filter_def netinfo_valid_def is_unspecified_def split: option.splits)
  obtain as where as: "wout (enc_one_netinfo_addr a) = Inr as" "parses take_one_netinfo_addr as (Some a)"
    using take_netinfo_addr_parses by blast
  obtain bs where bs: "wout (wseq (w_len_u8 (length (my_addr m)) # map enc_one_netinfo_addr (my_addr m))) = Inr bs"
    "parses (rbind take_u8 (\<lambda>n. netinfo_addrs_loop (unat n))) bs (my_addr m)"
    using netinfo_my_addrs valid by (metis netinfo_valid_def)
  have "parses (rbind (rbind take_u8 (\<lambda>n. netinfo_addrs_loop (unat n)))
      (\<lambda>my. rret \<lparr>timestamp = timestamp m,
           their_addr = opt_filter (\<lambda>a. \<not> is_unspecified a) (Some a), my_addr = my\<rparr>)) bs m"
    by (rule parses_bind_ret [OF bs(2)]) (simp add: filter)
  then have "parses netinfo_take (to_be_bytes (timestamp m) @ as @ bs) m"
    unfolding netinfo_take_def rbind_assoc
    by (intro parses_bind [OF parses_u32] parses_bind [OF as(2)])
  moreover have "wout (netinfo_encode m) = Inr (to_be_bytes (timestamp m) @ as @ bs)"
    using as(1) bs(1) unfolding netinfo_encode_def a_def [symmetric]
    by (simp add: wout_wseq_Cons [of "write_u32 x" for x] wout_wseq_Cons [of "enc_one_netinfo_addr x" for x]
        wout_simps)
  ultimately show "\<exists>bs. wout (netinfo_encode m) = Inr bs \<and> parses netinfo_take bs m" by blast
qed

section \<open>The enum\<close>

lemma yields_extract: "yields m bs x \<Longrightarrow> yields (extract_r m) bs x"
  by (auto simp: yields_def extract_r_def Let_def split: prod.splits sum.splits)

lemma take_u16_to_be_bytes:
  assumes "reader_inv r" and "rest r = to_be_bytes (v :: u16) @ bs"
  shows "take_u16 r = (Inr v, adv 2 r) \<and> reader_inv (adv 2 r) \<and> rest (adv 2 r) = bs \<and> remaining r > 0"
proof -
  have len: "length (to_be_bytes v) = 2" by (simp add: length_to_be_bytes)
  have "remaining r = 2 + length bs"
    using assms(2) len by (metis length_append length_rest)
  moreover have "take_u16 r = (Inr v, adv (length (to_be_bytes v)) r)"
    using parses_u16 [of v] assms by (simp add: parses_def)
  ultimately show ?thesis
    using assms len by (simp add: reader_inv_adv)
qed

lemma versions_loop_yields:
  "reader_inv r \<Longrightarrow> rest r = concat (map to_be_bytes vs) \<Longrightarrow> fst (versions_loop r) = Inr vs"
proof (induction vs arbitrary: r)
  case Nil
  then have "remaining r = 0" by (simp flip: length_rest)
  then show ?case by (simp add: versions_loop.simps [of r])
next
  case (Cons v vs)
  then have step: "take_u16 r = (Inr v, adv 2 r)" "reader_inv (adv 2 r)"
    "rest (adv 2 r) = concat (map to_be_bytes vs)" "remaining r > 0"
    using take_u16_to_be_bytes [of r v "concat (map to_be_bytes vs)"] by simp_all
  have "fst (versions_loop (adv 2 r)) = Inr vs"
    by (rule Cons.IH [OF step(2,3)])
  then show ?case
    using step(1,4) by (cases "versions_loop (adv 2 r)") (simp add: versions_loop.simps [of r])
qed

lemma wout_versions: "wout (versions_encode vs) = Inr (concat (map to_be_bytes vs))"
  unfolding versions_encode_def by (induction vs) (simp_all add: wire_simps)

definition known_chan_cmds :: "chan_cmd set" where
  "known_chan_cmds = {ChanCmd_PADDING, ChanCmd_CREATE, ChanCmd_CREATED, ChanCmd_RELAY, ChanCmd_DESTROY,
     ChanCmd_CREATE_FAST, ChanCmd_CREATED_FAST, ChanCmd_VERSIONS, ChanCmd_NETINFO, ChanCmd_RELAY_EARLY,
     ChanCmd_CREATE2, ChanCmd_CREATED2, ChanCmd_PADDING_NEGOTIATE, ChanCmd_VPADDING, ChanCmd_CERTS,
     ChanCmd_AUTH_CHALLENGE, ChanCmd_AUTHENTICATE, ChanCmd_AUTHORIZE}"

text \<open>The messages that the decoder can return unchanged.\<close>

fun any_chan_valid :: "any_chan_msg \<Rightarrow> bool" where
  "any_chan_valid (Create hs) = (length hs = TAP_C_HANDSHAKE_LEN)"
| "any_chan_valid (CreateFast hs) = (length hs = FAST_C_HANDSHAKE_LEN)"
| "any_chan_valid (Created hs) = (length hs = TAP_S_HANDSHAKE_LEN)"
| "any_chan_valid (CreatedFast hs) = (length hs = FAST_S_HANDSHAKE_LEN)"
| "any_chan_valid (Create2 m) = (length (handshake m) < 2 ^ 16)"
| "any_chan_valid (Created2 hs) = (length hs < 2 ^ 16)"
| "any_chan_valid (Relay b) = (length b = CELL_DATA_LEN)"
| "any_chan_valid (RelayEarly b) = (length b = CELL_DATA_LEN)"
| "any_chan_valid (Netinfo m) = netinfo_valid m"
| "any_chan_valid (Certs cs) = (length cs < 2 ^ 8 \<and> list_all (\<lambda>c. length (cert c) < 2 ^ 16) cs)"
| "any_chan_valid (AuthChallenge m) =
     (length (challenge m) = CHALLENGE_LEN \<and> length (methods m) < 2 ^ 16)"
| "any_chan_valid (Authenticate m) = (length (auth m) < 2 ^ 16)"
| "any_chan_valid (ChanUnrecognized u) =
     (u_cmd u \<notin> known_chan_cmds \<and>
      (\<not> is_var_cell (u_cmd u) \<longrightarrow> length (u_content u) = CELL_DATA_LEN))"
| "any_chan_valid _ = True"

lemma yields_codec:
  assumes "codec d e v" and "v x" and "wout (e x) = Inr bs"
  shows "yields (rmap c (extract_r d)) (bs @ zs) (c x)"
  using assms by (intro yields_map yields_extract yields_parses) (rule codec.enc_parses)

lemma yields_handshake:
  "length hs = n \<Longrightarrow> yields (rmap c (extract_r (handshake_take n))) (hs @ zs) (c hs)"
  unfolding handshake_take_def by (intro yields_map yields_extract yields_parses parses_take) simp

lemma yields_remaining: "yields (\<lambda>r. take_r (remaining r) r) bs bs"
  by (auto simp: yields_def take_r_eq simp flip: length_rest)

lemma padding_yields: "yields padding_take bs ()"
  by (simp add: yields_def padding_take_def)

lemma vpadding_yields: "yields vpadding_take (replicate (unat l) 0) l"
proof -
  have "\<not> 65535 < unat l"
    using unat_u16_le [of l] by linarith
  then show ?thesis
    by (auto simp: yields_def vpadding_take_def simp flip: length_rest)
qed

lemma any_chan_yields:
  assumes "any_chan_valid m" and "wout (any_chan_encode m) = Inr bs"
    and "zs = (if is_var_cell (any_chan_cmd m) then [] else replicate (CELL_DATA_LEN - length bs) 0)"
  shows "yields (any_chan_decode (any_chan_cmd m)) (bs @ zs) m"
proof (cases m)
  case Padding
  then show ?thesis
    using yields_map [OF yields_extract [OF padding_yields], of "\<lambda>_. Padding"]
    by (simp add: any_chan_decode_def)
next
  case (Vpadding l)
  then have bs: "bs = replicate (unat l) 0" "zs = []"
    using assms by (simp_all add: vpadding_encode_def wire_simps is_var_cell_def)
  then show ?thesis
    using Vpadding vpadding_yields by (simp add: any_chan_decode_def yields_map yields_extract)
next
  case (Create hs)
  then show ?thesis using assms yields_handshake [of hs TAP_C_HANDSHAKE_LEN Create zs]
    by (simp add: any_chan_decode_def handshake_encode_def wire_simps)
next
  case (CreateFast hs)
  then show ?thesis using assms yields_handshake [of hs FAST_C_HANDSHAKE_LEN CreateFast zs]
    by (simp add: any_chan_decode_def handshake_encode_def wire_simps)
next
  case (Created hs)
  then show ?thesis using assms yields_handshake [of hs TAP_S_HANDSHAKE_LEN Created zs]
    by (simp add: any_chan_decode_def handshake_encode_def wire_simps)
next
  case (CreatedFast hs)
  then show ?thesis using assms yields_handshake [of hs FAST_S_HANDSHAKE_LEN CreatedFast zs]
    by (simp add: any_chan_decode_def handshake_encode_def wire_simps)
next
  case (Create2 x)
  then show ?thesis using assms yields_codec [OF cd_create2.codec_axioms, of x bs Create2 zs]
    by (simp add: any_chan_decode_def)
next
  case (Created2 x)
  then show ?thesis using assms yields_codec [OF cd_created2.codec_axioms, of x bs Created2 zs]
    by (simp add: any_chan_decode_def)
next
  case (Relay x)
  then show ?thesis using assms yields_codec [OF cd_relay.codec_axioms, of x bs Relay zs]
    by (simp add: any_chan_decode_def)
next
  case (RelayEarly x)
  then show ?thesis using assms yields_codec [OF cd_relay.codec_axioms, of x bs RelayEarly zs]
    by (simp add: any_chan_decode_def relay_early_take_def relay_early_encode_def)
next
  case (Destroy x)
  then show ?thesis using assms yields_codec [OF cd_u8.codec_axioms, of x bs Destroy zs]
    by (simp add: any_chan_decode_def destroy_take_def destroy_encode_def)
next
  case (Netinfo x)
  then show ?thesis using assms yields_codec [OF cd_netinfo.codec_axioms, of x bs Netinfo zs]
    by (simp add: any_chan_decode_def)
next
  case (Versions vs)
  then have "bs = concat (map to_be_bytes vs)" "zs = []"
    using assms by (simp_all add: wout_versions is_var_cell_def)
  then have "yields versions_take (bs @ zs) vs"
    by (simp add: yields_def versions_take_def versions_loop_yields)
  then show ?thesis
    using Versions by (simp add: any_chan_decode_def yields_map yields_extract)
next
  case (PaddingNegotiate x)
  then show ?thesis
    using assms yields_codec [OF cd_padding_negotiate.codec_axioms, of x bs PaddingNegotiate zs]
    by (simp add: any_chan_decode_def)
next
  case (Certs x)
  then show ?thesis using assms yields_codec [OF cd_certs.codec_axioms, of x bs Certs zs]
    by (simp add: any_chan_decode_def)
next
  case (AuthChallenge x)
  then show ?thesis using assms yields_codec [OF cd_auth_challenge.codec_axioms, of x bs AuthChallenge zs]
    by (simp add: any_chan_decode_def)
next
  case (Authenticate x)
  then show ?thesis using assms yields_codec [OF cd_authenticate.codec_axioms, of x bs Authenticate zs]
    by (simp add: any_chan_decode_def)
next
  case (Authorize x)
  then have "bs = x" "zs = []"
    using assms by (simp_all add: authorize_encode_def wire_simps is_var_cell_def)
  then show ?thesis
    using Authorize yields_remaining
    by (simp add: any_chan_decode_def authorize_take_def [abs_def] yields_map yields_extract)
next
  case (ChanUnrecognized u)
  then have bs: "bs = u_content u" "zs = []"
    using assms by (auto simp: unrecognized_encode_def wire_simps)
  have "yields (decode_with_cmd (u_cmd u)) bs u"
    using yields_map [OF yields_map [OF yields_remaining, of "\<lambda>b. \<lparr>u_cmd = 0, u_content = b\<rparr>"],
        of "\<lambda>v. v\<lparr>u_cmd := u_cmd u\<rparr>" bs]
    by (cases u) (simp add: decode_with_cmd_def unrecognized_take_def rmap_def bs)
  then show ?thesis
    using ChanUnrecognized assms(1) bs
    by (simp add: any_chan_decode_def known_chan_cmds_def yields_map)
qed

section \<open>No decoder panics\<close>

lemma safe_netinfo_addr [safe_intros]: "safe_rd take_one_netinfo_addr"
proof -
  have "safe_rd (case abody of b0 # b1 # b2 # b3 # _ \<Rightarrow> rret (Some (V4 (from_be_bytes [b0, b1, b2, b3])))
          | _ \<Rightarrow> rfail (Panicked ''index''))" if "length abody = 4" for abody
    using that
    by (auto simp: numeral_eq_Suc length_Suc_conv safe_ret simp del: rret_apply)
  then show ?thesis
    unfolding take_one_netinfo_addr_def
    by (intro safe_bind safe_u8 safe_bind_take safe_if) (auto simp: safe_ret simp del: rret_apply)
qed

lemma safe_remaining [safe_intros]: "safe_rd (\<lambda>r. take_r (remaining r) r)"
  by (simp add: safe_rd_def take_r_eq reader_inv_adv)

lemma versions_loop_frame:
  "reader_inv r \<Longrightarrow> reader_inv (snd (versions_loop r)) \<and> r_b (snd (versions_loop r)) = r_b r \<and>
     (\<forall>msg. fst (versions_loop r) \<noteq> Inl (Panicked msg))"
proof (induction r rule: versions_loop.induct)
  case (1 r)
  show ?case
  proof (cases "remaining r < 2")
    case True
    then show ?thesis
      using 1(2) by (simp add: versions_loop.simps [of r] take_u16_eq)
  next
    case False
    then have "take_u16 r = (Inr (from_be_bytes (take 2 (rest r))), adv 2 r)" "reader_inv (adv 2 r)"
      using 1(2) by (simp_all add: take_u16_eq reader_inv_adv)
    then show ?thesis
      using 1(1) [OF _ _ refl] False
      by (cases "versions_loop (adv 2 r)"; cases "fst (versions_loop (adv 2 r))")
        (auto simp: versions_loop.simps [of r])
  qed
qed

lemma safe_vpadding [safe_intros]: "safe_rd vpadding_take"
  by (simp add: safe_rd_def vpadding_take_def)

lemma safe_versions [safe_intros]: "safe_rd versions_take"
  by (simp add: safe_rd_def versions_take_def versions_loop_frame)

lemma safe_chan_bodies [safe_intros]:
  "safe_rd padding_take" "safe_rd (handshake_take n)" "safe_rd create2_take" "safe_rd created2_take"
  "safe_rd relay_take" "safe_rd relay_early_take" "safe_rd destroy_take" "safe_rd netinfo_take"
  "safe_rd padding_negotiate_take" "safe_rd certs_take" "safe_rd auth_challenge_take"
  "safe_rd authenticate_take" "safe_rd authorize_take" "safe_rd unrecognized_take"
  "safe_rd (decode_with_cmd cmd)"
  unfolding padding_take_def handshake_take_def create2_take_def created2_take_def relay_take_eq
    relay_early_take_def destroy_take_def netinfo_take_def netinfo_addrs_loop_eq
    padding_negotiate_take_def certs_take_def take_one_tor_cert_def auth_challenge_take_def
    authenticate_take_def authorize_take_def [abs_def] unrecognized_take_def decode_with_cmd_def
  by ((intro safe_intros; simp)+)

lemma safe_any_chan [safe_intros]: "safe_rd (any_chan_decode cmd)"
  unfolding any_chan_decode_def by (intro safe_intros)

end
