(* ===== verification/Chan_Codec.thy ===== *)
theory Chan_Codec
  imports Chan_Msg
begin

text \<open>
  The channel codec (\<open>tor-cell/src/chancell/codec.rs\<close>): \<open>write_cell\<close> and \<open>decode_cell\<close>, generic
  in the message type. What they need of a message type is the locale \<open>chan_msg\<close> (the
  \<open>ChanMsg\<close> trait); it is interpreted on \<open>AnyChanMsg\<close> and on the restricted enum
  \<open>HandshakeMsg\<close> of \<open>tor-proto/src/channel/handshake.rs\<close>. The link version held by the codec
  is not read by any of its methods and is left out.
\<close>

section \<open>The codec\<close>

datatype cell_error =
    BytesErr bytes_error string
  | EncodeErr encode_error
  | Internal string
  | ChanProto string
  | CircProto string
  | BadStreamAddress
  | CantEncode string

record 'm chan_cell =
  circid :: "circ_id option"
  msg :: 'm

text \<open>Running an encoder on a growing buffer: the buffer keeps what was written before an error.\<close>

definition encode_on :: "wr \<Rightarrow> bytes \<Rightarrow> (encode_error + unit) \<times> bytes" where
  "encode_on w dst =
     ((case snd w of Some e \<Rightarrow> Inl e | None \<Rightarrow> Inr ()), fold vec_write_all (fst w) dst)"

definition write_cell ::
  "('m \<Rightarrow> chan_cmd) \<Rightarrow> ('m \<Rightarrow> wr) \<Rightarrow> 'm chan_cell \<Rightarrow> bytes \<Rightarrow> (cell_error + unit) \<times> bytes" where
  "write_cell cmd_of encode_onto item dst0 =
     (let cmd = cmd_of (msg item);
          dst1 = vec_write_all (to_be_bytes (get_or_zero (circid item))) dst0;
          dst2 = vec_write_all [cmd] dst1;
          pos = length dst2 in
      if is_var_cell cmd then
        (case encode_on (encode_onto (msg item)) (vec_write_all (to_be_bytes (0 :: u16)) dst2) of
           (Inl e, dst) \<Rightarrow> (Inl (EncodeErr e), dst)
         | (Inr _, dst) \<Rightarrow>
             (let len = length dst - pos - 2 in
              if len > 65535 then (Inl (Internal ''ran out of space for varcell''), dst)
              else (Inr (), take pos dst @ to_be_bytes (of_nat len :: u16) @ drop (pos + 2) dst)))
      else
        (case encode_on (encode_onto (msg item)) dst2 of
           (Inl e, dst) \<Rightarrow> (Inl (EncodeErr e), dst)
         | (Inr _, dst) \<Rightarrow>
             (let len = length dst - pos in
              if len > CELL_DATA_LEN then (Inl (Internal ''ran out of space for cell''), dst)
              else (Inr (), vec_write_zeros (CELL_DATA_LEN - len) dst))))"

definition decode_cell ::
  "(chan_cmd \<Rightarrow> 'm rd) \<Rightarrow> bytes \<Rightarrow> (cell_error + 'm chan_cell option) \<times> bytes" where
  "decode_cell decode_from_reader src =
     (if length src < 7 then (Inr None, src)
      else
        (let cmd = src ! 4;
             varcell = is_var_cell cmd;
             cell_len = (if varcell then unat (from_be_bytes (take 2 (drop 5 src)) :: u16) + 7 else 514) in
         if length src < cell_len then (Inr None, src)
         else
           (let cell = take cell_len src;
                src' = drop cell_len src in
            case rbind take_u32 (\<lambda>id.
                 rbind (advance (if varcell then 3 else 1)) (\<lambda>_.
                 rbind (decode_from_reader cmd) (\<lambda>m.
                 rret (CircId_new id, m)))) (from_slice cell) of
              (Inl e, _) \<Rightarrow> (Inl (BytesErr e ''channel cell''), src')
            | (Inr (cid, m), _) \<Rightarrow>
                (if \<not> accepts_circid_val cmd cid
                 then (Inl (ChanProto ''Invalid circuit ID for cell command''), src')
                 else (Inr (Some \<lparr>circid = cid, msg = m\<rparr>), src')))))"

section \<open>Frames\<close>

text \<open>The wire image of a cell whose body encodes as \<open>bs\<close>.\<close>

definition cell_frame :: "u32 \<Rightarrow> chan_cmd \<Rightarrow> bytes \<Rightarrow> bytes" where
  "cell_frame cid cmd bs =
     to_be_bytes cid @ [cmd] @
     (if is_var_cell cmd then to_be_bytes (of_nat (length bs) :: u16) @ bs
      else bs @ replicate (CELL_DATA_LEN - length bs) 0)"

definition body_limit :: "chan_cmd \<Rightarrow> nat" where
  "body_limit cmd = (if is_var_cell cmd then 65535 else CELL_DATA_LEN)"

lemma fold_vec_write_all [simp]: "fold vec_write_all cs dst = dst @ concat cs"
  using vec.run_blocks [of dst dst cs] by simp

lemma encode_on_wout:
  "wout w = Inr bs \<Longrightarrow> encode_on w dst = (Inr (), dst @ bs)"
  "wout w = Inl e \<Longrightarrow> encode_on w dst = (Inl e, dst @ concat (fst w))"
  by (auto simp: encode_on_def wout_def split: option.splits)

lemma write_zeros_append:
  "length dst + n \<le> usize_max \<Longrightarrow> vec_write_zeros n dst = dst @ replicate n 0"
  by (simp add: vec_write_zeros_def saturating_add_n_def Let_def min_def)

lemma write_cell_ok:
  assumes "wout (enc (msg c)) = Inr bs" and "length bs \<le> body_limit (cmd_of (msg c))"
    and "length dst + 514 \<le> usize_max"
  shows "write_cell cmd_of enc c dst =
     (Inr (), dst @ cell_frame (get_or_zero (circid c)) (cmd_of (msg c)) bs)"
  using assms
  by (simp add: write_cell_def vec_write_all_def encode_on_wout(1) [OF assms(1)] cell_frame_def
      body_limit_def write_zeros_append length_to_be_bytes Let_def split: if_splits)

lemma write_cell_err:
  "wout (enc (msg c)) = Inl e \<Longrightarrow> fst (write_cell cmd_of enc c dst) = Inl (EncodeErr e)"
  by (simp add: write_cell_def encode_on_wout(2) Let_def)

lemma write_cell_too_long:
  assumes "wout (enc (msg c)) = Inr bs" and "length bs > body_limit (cmd_of (msg c))"
  shows "\<exists>m. fst (write_cell cmd_of enc c dst) = Inl (Internal m)"
  using assms
  by (simp add: write_cell_def vec_write_all_def encode_on_wout(1) [OF assms(1)]
      body_limit_def length_to_be_bytes Let_def split: if_splits)

lemma write_cell_Inr_iff:
  assumes "length dst + 514 \<le> usize_max"
  shows "fst (write_cell cmd_of enc c dst) = Inr () \<longleftrightarrow>
    (\<exists>bs. wout (enc (msg c)) = Inr bs \<and> length bs \<le> body_limit (cmd_of (msg c)))"
proof (cases "wout (enc (msg c))")
  case (Inl e)
  then show ?thesis using write_cell_err [of enc c e cmd_of dst] by simp
next
  case (Inr bs)
  then show ?thesis
    using write_cell_ok [of enc c bs cmd_of dst] write_cell_too_long [of enc c bs cmd_of dst] assms
    by (cases "length bs \<le> body_limit (cmd_of (msg c))") fastforce+
qed

lemma length_cell_frame:
  "length bs \<le> body_limit cmd \<Longrightarrow>
     length (cell_frame cid cmd bs) = (if is_var_cell cmd then 7 + length bs else 514)"
  by (simp add: cell_frame_def body_limit_def length_to_be_bytes split: if_splits)

text \<open>The steps of \<open>decode_cell\<close>, named.\<close>

definition cell_len :: "bytes \<Rightarrow> nat" where
  "cell_len src =
     (if is_var_cell (src ! 4) then unat (from_be_bytes (take 2 (drop 5 src)) :: u16) + 7 else 514)"

definition read_cell :: "(chan_cmd \<Rightarrow> 'm rd) \<Rightarrow> chan_cmd \<Rightarrow> (circ_id option \<times> 'm) rd" where
  "read_cell dec cmd =
     rbind take_u32 (\<lambda>id.
     rbind (advance (if is_var_cell cmd then 3 else 1)) (\<lambda>_.
     rbind (dec cmd) (\<lambda>m.
     rret (CircId_new id, m))))"

definition finish_cell ::
  "chan_cmd \<Rightarrow> bytes_error + (circ_id option \<times> 'm) \<Rightarrow> cell_error + 'm chan_cell option" where
  "finish_cell cmd res =
     (case res of
        Inl e \<Rightarrow> Inl (BytesErr e ''channel cell'')
      | Inr (cid, m) \<Rightarrow>
          (if \<not> accepts_circid_val cmd cid
           then Inl (ChanProto ''Invalid circuit ID for cell command'')
           else Inr (Some \<lparr>circid = cid, msg = m\<rparr>)))"

lemma decode_cell_wait:
  "length src < 7 \<or> length src < cell_len src \<Longrightarrow> decode_cell dec src = (Inr None, src)"
  unfolding decode_cell_def Let_def cell_len_def by auto

lemma decode_cell_take:
  assumes "7 \<le> length src" and "cell_len src \<le> length src"
  shows "decode_cell dec src =
    (finish_cell (src ! 4) (fst (read_cell dec (src ! 4) (from_slice (take (cell_len src) src)))),
     drop (cell_len src) src)"
proof -
  have "\<not> length src < 7" "\<not> length src < cell_len src" using assms by simp_all
  then show ?thesis
    unfolding decode_cell_def Let_def cell_len_def [symmetric] read_cell_def [symmetric]
    by (simp add: finish_cell_def split: prod.splits sum.splits)
qed

lemma finish_cell_not_None [simp]: "finish_cell cmd res \<noteq> Inr None"
  by (auto simp: finish_cell_def split: sum.splits)

lemma decode_cell_None_iff:
  "fst (decode_cell dec src) = Inr None \<longleftrightarrow> length src < 7 \<or> length src < cell_len src"
  by (metis decode_cell_take decode_cell_wait finish_cell_not_None fst_conv not_le)

lemma frame_parts:
  fixes cid :: u32
  assumes "length bs \<le> body_limit cmd" and "7 \<le> k"
  shows "(take k (cell_frame cid cmd bs) @ tail) ! 4 = cmd"
    and "cell_len (take k (cell_frame cid cmd bs) @ tail) = length (cell_frame cid cmd bs)"
proof -
  have len: "length (to_be_bytes cid) = 4"
    "length (to_be_bytes (of_nat (length bs) :: u16)) = 2"
    by (simp_all add: length_to_be_bytes)
  show cmd: "(take k (cell_frame cid cmd bs) @ tail) ! 4 = cmd"
    using assms(2) by (simp add: cell_frame_def nth_append len)
  show "cell_len (take k (cell_frame cid cmd bs) @ tail) = length (cell_frame cid cmd bs)"
  proof (cases "is_var_cell cmd")
    case True
    then have bound: "length bs < 65536" using assms(1) by (simp add: body_limit_def)
    have "drop 5 (cell_frame cid cmd bs) = to_be_bytes (of_nat (length bs) :: u16) @ bs"
      using True by (simp add: cell_frame_def len)
    then have "drop 5 (take k (cell_frame cid cmd bs)) =
        take (k - 5) (to_be_bytes (of_nat (length bs) :: u16) @ bs)"
      by (simp add: drop_take)
    moreover have "5 \<le> length (take k (cell_frame cid cmd bs))"
      using True assms by (simp add: length_cell_frame)
    ultimately have "take 2 (drop 5 (take k (cell_frame cid cmd bs) @ tail)) =
        to_be_bytes (of_nat (length bs) :: u16)"
      using assms(2) by (simp add: len)
    then show ?thesis
      using True bound assms(1) by (simp add: cell_len_def cmd length_cell_frame unat_of_nat)
  next
    case False
    then show ?thesis using assms(1) by (simp add: cell_len_def cmd length_cell_frame)
  qed
qed

lemma length_frame_ge: "length bs \<le> body_limit cmd \<Longrightarrow> 7 \<le> length (cell_frame cid cmd bs)"
  by (simp add: length_cell_frame)

lemma decode_cell_frame:
  assumes len: "length bs \<le> body_limit cmd"
    and dec: "yields (dec cmd) (if is_var_cell cmd then bs else bs @ replicate (CELL_DATA_LEN - length bs) 0) m"
    and "accepts_circid_val cmd (CircId_new cid)"
  shows "decode_cell dec (cell_frame cid cmd bs @ tail) =
     (Inr (Some \<lparr>circid = CircId_new cid, msg = m\<rparr>), tail)"
proof -
  let ?w = "cell_frame cid cmd bs"
  note parts = frame_parts [OF len length_frame_ge [OF len, of cid], where cid = cid and tail = tail, simplified]
  have "yields (read_cell dec cmd) ?w (CircId_new cid, m)"
  proof (cases "is_var_cell cmd")
    case True
    then have "yields (read_cell dec cmd)
        (to_be_bytes cid @ ([cmd] @ to_be_bytes (of_nat (length bs) :: u16)) @ bs) (CircId_new cid, m)"
      using yields_map [OF dec, of "Pair (CircId_new cid)"] unfolding read_cell_def
      by (intro yields_bind [OF parses_u32] yields_bind [OF parses_advance])
        (simp_all add: rmap_def length_to_be_bytes del: rret_apply)
    with True show ?thesis by (simp add: cell_frame_def)
  next
    case False
    then have "yields (read_cell dec cmd)
        (to_be_bytes cid @ [cmd] @ (bs @ replicate (CELL_DATA_LEN - length bs) 0)) (CircId_new cid, m)"
      using yields_map [OF dec, of "Pair (CircId_new cid)"] unfolding read_cell_def
      by (intro yields_bind [OF parses_u32] yields_bind [OF parses_advance])
        (simp_all add: rmap_def length_to_be_bytes del: rret_apply)
    with False show ?thesis by (simp add: cell_frame_def)
  qed
  then have "fst (read_cell dec cmd (from_slice ?w)) = Inr (CircId_new cid, m)"
    by (simp add: yields_def)
  then show ?thesis
    using assms(3) length_frame_ge [OF len, of cid]
    by (subst decode_cell_take) (simp_all add: parts finish_cell_def)
qed

lemma decode_cell_prefix:
  assumes "length bs \<le> body_limit cmd" and "k < length (cell_frame cid cmd bs)"
  shows "decode_cell dec (take k (cell_frame cid cmd bs)) = (Inr None, take k (cell_frame cid cmd bs))"
proof (rule decode_cell_wait, cases "k < 7")
  case False
  then show "length (take k (cell_frame cid cmd bs)) < 7 \<or>
      length (take k (cell_frame cid cmd bs)) < cell_len (take k (cell_frame cid cmd bs))"
    using assms frame_parts(2) [OF assms(1), of k cid "[]"] by simp
qed (simp add: min_less_iff_disj)

lemma cell_len_append: "7 \<le> length src \<Longrightarrow> cell_len (src @ zs) = cell_len src"
  by (simp add: cell_len_def nth_append)

lemma decode_cell_extend:
  assumes "fst (decode_cell dec src) \<noteq> Inr None"
  shows "decode_cell dec (src @ zs) = (fst (decode_cell dec src), snd (decode_cell dec src) @ zs)"
proof -
  have len: "7 \<le> length src" "cell_len src \<le> length src"
    using assms unfolding decode_cell_None_iff by simp_all
  then show ?thesis
    by (simp add: decode_cell_take cell_len_append nth_append)
qed

section \<open>Sequences of cells\<close>

text \<open>Cells written one after the other, and cells taken one after the other off a buffer.\<close>

fun write_cells ::
  "('m \<Rightarrow> chan_cmd) \<Rightarrow> ('m \<Rightarrow> wr) \<Rightarrow> 'm chan_cell list \<Rightarrow> bytes \<Rightarrow> (cell_error + unit) \<times> bytes" where
  "write_cells cmd_of enc [] dst = (Inr (), dst)"
| "write_cells cmd_of enc (c # cs) dst =
     (case write_cell cmd_of enc c dst of
        (Inl e, dst') \<Rightarrow> (Inl e, dst')
      | (Inr _, dst') \<Rightarrow> write_cells cmd_of enc cs dst')"

fun decode_cells ::
  "(chan_cmd \<Rightarrow> 'm rd) \<Rightarrow> nat \<Rightarrow> bytes \<Rightarrow> (cell_error + 'm chan_cell list) \<times> bytes" where
  "decode_cells dec 0 src = (Inr [], src)"
| "decode_cells dec (Suc n) src =
     (case decode_cell dec src of
        (Inl e, src') \<Rightarrow> (Inl e, src')
      | (Inr None, src') \<Rightarrow> (Inr [], src')
      | (Inr (Some c), src') \<Rightarrow>
          (case decode_cells dec n src' of
             (Inl e, src'') \<Rightarrow> (Inl e, src'')
           | (Inr cs, src'') \<Rightarrow> (Inr (c # cs), src'')))"

section \<open>Message types\<close>

text \<open>
  The \<open>ChanMsg\<close> trait: a message knows its command, encodes itself, and is decoded from the
  body of a cell with that command. \<open>valid\<close> are the messages that survive the trip; a cell is
  valid if its message is and its circuit identifier is allowed for the command.
\<close>

definition chan_body :: "chan_cmd \<Rightarrow> bytes \<Rightarrow> bytes" where
  "chan_body cmd bs = (if is_var_cell cmd then bs else bs @ replicate (CELL_DATA_LEN - length bs) 0)"

locale chan_msg =
  fixes cmd_of :: "'m \<Rightarrow> chan_cmd"
    and encode_onto :: "'m \<Rightarrow> wr"
    and decode_from_reader :: "chan_cmd \<Rightarrow> 'm rd"
    and valid :: "'m \<Rightarrow> bool"
  assumes round_trip: "valid m \<Longrightarrow> wout (encode_onto m) = Inr bs \<Longrightarrow>
      yields (decode_from_reader (cmd_of m)) (chan_body (cmd_of m) bs) m"
    and no_panic: "safe_rd (decode_from_reader cmd)"
begin

definition cell_valid :: "'m chan_cell \<Rightarrow> bool" where
  "cell_valid c \<longleftrightarrow> valid (msg c) \<and> circid c \<noteq> Some 0 \<and>
     accepts_circid_val (cmd_of (msg c)) (circid c)"

lemma write_decode:
  assumes "cell_valid c" and "fst (write_cell cmd_of encode_onto c dst) = Inr ()"
    and "length dst + 514 \<le> usize_max"
  obtains w where "write_cell cmd_of encode_onto c dst = (Inr (), dst @ w)"
    "\<And>tail. decode_cell decode_from_reader (w @ tail) = (Inr (Some c), tail)"
    "\<And>k. k < length w \<Longrightarrow> decode_cell decode_from_reader (take k w) = (Inr None, take k w)"
proof -
  obtain bs where bs: "wout (encode_onto (msg c)) = Inr bs" "length bs \<le> body_limit (cmd_of (msg c))"
    using write_cell_Inr_iff [OF assms(3), of cmd_of encode_onto c] assms(2) by auto
  have cid: "CircId_new (get_or_zero (circid c)) = circid c"
    using assms(1) by (auto simp: cell_valid_def CircId_new_def get_or_zero_def split: option.splits)
  have "yields (decode_from_reader (cmd_of (msg c))) (chan_body (cmd_of (msg c)) bs) (msg c)"
    using assms(1) bs(1) by (intro round_trip) (simp_all add: cell_valid_def)
  then have "decode_cell decode_from_reader
      (cell_frame (get_or_zero (circid c)) (cmd_of (msg c)) bs @ tail) = (Inr (Some c), tail)" for tail
    using decode_cell_frame [OF bs(2), of decode_from_reader "msg c" "get_or_zero (circid c)" tail]
      assms(1) by (simp add: chan_body_def cid cell_valid_def)
  then show thesis
    using that [OF write_cell_ok [of encode_onto c bs cmd_of dst, OF bs assms(3)]] decode_cell_prefix [OF bs(2)] by blast
qed

lemma write_cells_decode:
  assumes "list_all cell_valid cs" and "write_cells cmd_of encode_onto cs dst = (Inr (), out)"
    and "length dst + 65542 * length cs + 514 \<le> usize_max"
  shows "\<exists>w. out = dst @ w \<and>
    (\<forall>tail. decode_cells decode_from_reader (length cs) (w @ tail) = (Inr cs, tail))"
  using assms
proof (induction cs arbitrary: dst)
  case Nil
  then show ?case by simp
next
  case (Cons c cs)
  have ok: "fst (write_cell cmd_of encode_onto c dst) = Inr ()"
    using Cons.prems(2) by (auto split: prod.splits sum.splits)
  have c: "cell_valid c" "length dst + 514 \<le> usize_max"
    using Cons.prems(1,3) by simp_all
  obtain bs where bs: "wout (encode_onto (msg c)) = Inr bs" "length bs \<le> body_limit (cmd_of (msg c))"
    using write_cell_Inr_iff [OF c(2), of cmd_of encode_onto c] ok by auto
  obtain w where w: "write_cell cmd_of encode_onto c dst = (Inr (), dst @ w)"
    "\<And>tail. decode_cell decode_from_reader (w @ tail) = (Inr (Some c), tail)"
    using write_decode [OF c(1) ok c(2)] by metis
  have "length w \<le> 65542"
    using w(1) write_cell_ok [of encode_onto c bs cmd_of dst, OF bs c(2)]
      length_cell_frame [OF bs(2)] bs(2) by (auto simp: body_limit_def split: if_splits)
  then obtain v where v: "out = (dst @ w) @ v"
    "\<forall>tail. decode_cells decode_from_reader (length cs) (v @ tail) = (Inr cs, tail)"
    using Cons.IH [of "dst @ w"] Cons.prems w(1) by auto
  then show ?case
    using w(2) by (intro exI [of _ "w @ v"]) simp
qed

lemma decode_no_panic: "fst (decode_cell decode_from_reader src) \<noteq> Inl (BytesErr (Panicked p) what)"
proof (cases "length src < 7 \<or> length src < cell_len src")
  case True
  then show ?thesis by (simp add: decode_cell_wait)
next
  case False
  have "safe_rd (read_cell decode_from_reader (src ! 4))"
    unfolding read_cell_def by (intro safe_intros no_panic)
  then have "fst (read_cell decode_from_reader (src ! 4) (from_slice (take (cell_len src) src)))
      \<noteq> Inl (Panicked p)"
    by (simp add: safe_rd_def)
  with False show ?thesis
    by (auto simp: decode_cell_take finish_cell_def split: sum.splits if_splits)
qed

end

interpretation any_chan: chan_msg any_chan_cmd any_chan_encode any_chan_decode any_chan_valid
proof
  fix m bs
  assume "any_chan_valid m" "wout (any_chan_encode m) = Inr bs"
  then show "yields (any_chan_decode (any_chan_cmd m)) (chan_body (any_chan_cmd m) bs) m"
    using any_chan_yields [OF _ _ refl] by (cases "is_var_cell (any_chan_cmd m)")
      (fastforce simp: chan_body_def)+
qed (rule safe_any_chan)

subsection \<open>The handshake subset\<close>

datatype handshake_msg =
    HsPadding
  | HsVpadding u16
  | HsAuthChallenge auth_challenge
  | HsCerts "tor_cert list"
  | HsNetinfo netinfo

fun handshake_into_any :: "handshake_msg \<Rightarrow> any_chan_msg" where
  "handshake_into_any HsPadding = Padding"
| "handshake_into_any (HsVpadding m) = Vpadding m"
| "handshake_into_any (HsAuthChallenge m) = AuthChallenge m"
| "handshake_into_any (HsCerts m) = Certs m"
| "handshake_into_any (HsNetinfo m) = Netinfo m"

fun handshake_cmd :: "handshake_msg \<Rightarrow> chan_cmd" where
  "handshake_cmd HsPadding = ChanCmd_PADDING"
| "handshake_cmd (HsVpadding _) = ChanCmd_VPADDING"
| "handshake_cmd (HsAuthChallenge _) = ChanCmd_AUTH_CHALLENGE"
| "handshake_cmd (HsCerts _) = ChanCmd_CERTS"
| "handshake_cmd (HsNetinfo _) = ChanCmd_NETINFO"

fun handshake_msg_encode :: "handshake_msg \<Rightarrow> wr" where
  "handshake_msg_encode HsPadding = padding_encode"
| "handshake_msg_encode (HsVpadding m) = vpadding_encode m"
| "handshake_msg_encode (HsAuthChallenge m) = auth_challenge_encode m"
| "handshake_msg_encode (HsCerts m) = certs_encode m"
| "handshake_msg_encode (HsNetinfo m) = netinfo_encode m"

definition handshake_decode :: "chan_cmd \<Rightarrow> handshake_msg rd" where
  "handshake_decode cmd =
     (if cmd = ChanCmd_PADDING then rmap (\<lambda>_. HsPadding) (extract_r padding_take)
      else if cmd = ChanCmd_VPADDING then rmap HsVpadding (extract_r vpadding_take)
      else if cmd = ChanCmd_AUTH_CHALLENGE then rmap HsAuthChallenge (extract_r auth_challenge_take)
      else if cmd = ChanCmd_CERTS then rmap HsCerts (extract_r certs_take)
      else if cmd = ChanCmd_NETINFO then rmap HsNetinfo (extract_r netinfo_take)
      else rfail (InvalidMessage ''Unexpected command in HandshakeMsg''))"

interpretation handshake: chan_msg handshake_cmd handshake_msg_encode handshake_decode
  "\<lambda>m. any_chan_valid (handshake_into_any m)"
proof
  fix m bs
  assume m: "any_chan_valid (handshake_into_any m)" "wout (handshake_msg_encode m) = Inr bs"
  show "yields (handshake_decode (handshake_cmd m)) (chan_body (handshake_cmd m) bs) m"
  proof (cases m)
    case HsPadding
    then show ?thesis
      using yields_map [OF yields_extract [OF padding_yields], of "\<lambda>_. HsPadding"]
      by (simp add: handshake_decode_def)
  next
    case (HsVpadding l)
    then show ?thesis
      using m(2) yields_map [OF yields_extract [OF vpadding_yields], of HsVpadding l]
      by (simp add: handshake_decode_def chan_body_def is_var_cell_def vpadding_encode_def wout_simps)
  next
    case (HsAuthChallenge x)
    then show ?thesis
      using m yields_codec [OF cd_auth_challenge.codec_axioms, of x bs HsAuthChallenge "[]"]
      by (simp add: handshake_decode_def chan_body_def is_var_cell_def)
  next
    case (HsCerts x)
    then show ?thesis
      using m yields_codec [OF cd_certs.codec_axioms, of x bs HsCerts "[]"]
      by (simp add: handshake_decode_def chan_body_def is_var_cell_def)
  next
    case (HsNetinfo x)
    then show ?thesis
      using m yields_codec [OF cd_netinfo.codec_axioms, of x bs HsNetinfo
          "replicate (CELL_DATA_LEN - length bs) 0"]
      by (simp add: handshake_decode_def chan_body_def is_var_cell_def)
  qed
next
  fix cmd
  show "safe_rd (handshake_decode cmd)"
    unfolding handshake_decode_def by (intro safe_intros) auto
qed

section \<open>Properties of the channel codec\<close>





text \<open>
  C25: \<open>write_cell\<close> succeeds exactly when the message encodes and fits: the body limit is 509
  bytes for a fixed-length command, 65535 for a variable-length one. Then it appends 514 bytes,
  respectively 7 and the body; otherwise it returns the encoding error, or the internal error
  for an oversized body.
\<close>

theorem write_cell_outcome:
  assumes "length dst + 514 \<le> usize_max"
  shows "case wout (any_chan_encode (msg c)) of
      Inl e \<Rightarrow> fst (write_cell any_chan_cmd any_chan_encode c dst) = Inl (EncodeErr e)
    | Inr bs \<Rightarrow>
        if length bs \<le> (if is_var_cell (any_chan_cmd (msg c)) then 65535 else 509)
        then fst (write_cell any_chan_cmd any_chan_encode c dst) = Inr () \<and>
          length (snd (write_cell any_chan_cmd any_chan_encode c dst)) =
            length dst + (if is_var_cell (any_chan_cmd (msg c)) then 7 + length bs else 514)
        else \<exists>m. fst (write_cell any_chan_cmd any_chan_encode c dst) = Inl (Internal m)"
proof (cases "wout (any_chan_encode (msg c))")
  case (Inl e)
  then show ?thesis by (simp add: write_cell_err)
next
  case (Inr bs)
  show ?thesis
  proof (cases "length bs \<le> body_limit (any_chan_cmd (msg c))")
    case True
    with Inr write_cell_ok [of any_chan_encode c bs any_chan_cmd dst, OF Inr True assms]
      length_cell_frame [OF True]
    show ?thesis by (simp add: body_limit_def)
  next
    case False
    with Inr write_cell_too_long [of any_chan_encode c bs any_chan_cmd dst] show ?thesis
      by (simp add: body_limit_def)
  qed
qed

theorem write_cell_outcome_witness:
  "fst (write_cell any_chan_cmd any_chan_encode \<lparr>circid = Some 1, msg = Destroy 3\<rparr> []) = Inr () \<and>
   length (snd (write_cell any_chan_cmd any_chan_encode \<lparr>circid = Some 1, msg = Destroy 3\<rparr> [])) = 514"
  using write_cell_outcome [of "[]" "\<lparr>circid = Some 1, msg = Destroy 3\<rparr>"]
  by (simp add: destroy_encode_def wire_simps is_var_cell_def)

text \<open>
  C5: \<open>decode_cell\<close> on arbitrary bytes from the network. It never panics. It answers "more
  input" exactly when the header or the announced length is not there yet, and then consumes
  nothing; otherwise it consumes exactly one cell, also when it fails. A cell it returns has an
  allowed circuit identifier, never zero. Its answer does not depend on bytes behind the cell,
  so it does not matter how the network cuts the stream.
\<close>

theorem decode_cell_robust:
  "fst (decode_cell any_chan_decode src) \<noteq> Inl (BytesErr (Panicked p) what) \<and>
   (fst (decode_cell any_chan_decode src) = Inr None \<longleftrightarrow> length src < 7 \<or> length src < cell_len src) \<and>
   snd (decode_cell any_chan_decode src) =
     (if fst (decode_cell any_chan_decode src) = Inr None then src else drop (cell_len src) src) \<and>
   (\<forall>c. fst (decode_cell any_chan_decode src) = Inr (Some c) \<longrightarrow>
      accepts_circid_val (src ! 4) (circid c) \<and> circid c \<noteq> Some 0) \<and>
   (fst (decode_cell any_chan_decode src) \<noteq> Inr None \<longrightarrow>
      decode_cell any_chan_decode (src @ zs) =
        (fst (decode_cell any_chan_decode src), snd (decode_cell any_chan_decode src) @ zs))"
proof (cases "length src < 7 \<or> length src < cell_len src")
  case True
  then show ?thesis by (simp add: decode_cell_wait)
next
  case False
  then have len: "7 \<le> length src" "cell_len src \<le> length src" by simp_all
  have "accepts_circid_val (src ! 4) (circid c) \<and> circid c \<noteq> Some 0"
    if "fst (decode_cell any_chan_decode src) = Inr (Some c)" for c
    using that
    by (auto simp: decode_cell_take [OF len] finish_cell_def read_cell_def rbind_def CircId_new_def
        split: sum.splits prod.splits if_splits)
  moreover have "fst (decode_cell any_chan_decode src) \<noteq> Inr None"
    using False by (simp add: decode_cell_None_iff)
  ultimately show ?thesis
    using False any_chan.decode_no_panic [of src p what] decode_cell_extend [of any_chan_decode src zs]
    by (auto simp: decode_cell_take [OF len])
qed

theorem decode_cell_robust_witness:
  "fst (decode_cell any_chan_decode [0, 0, 0]) \<noteq> Inl (BytesErr (Panicked ''index'') ''channel cell'') \<and>
   decode_cell any_chan_decode [0, 0, 0] = (Inr None, [0, 0, 0])"
  using decode_cell_robust [of "[0, 0, 0]" "''index''" "''channel cell''" "[]"]
  by (simp add: prod_eq_iff)

end
