(* ===== verification/Relay_Msg.thy ===== *)
theory Relay_Msg
  imports Chan_Codec
begin

text \<open>
  Relay messages (\<open>tor-cell/src/relaycell/msg.rs\<close>, \<open>relaycell/flow_ctrl.rs\<close>, the commands in
  \<open>relaycell.rs\<close>, and \<open>EncodedLinkSpec\<close> of \<open>tor-linkspec/src/ls.rs\<close>): the message bodies and
  the enum \<open>AnyRelayMsg\<close> as it is compiled with the feature \<open>conflux\<close> (whose messages are in
  \<open>relaycell/conflux.rs\<close>) and without the other optional features of the crate. A relay message
  is decoded from a reader that holds exactly its body, so several decoders look at how much is
  left.
\<close>

section \<open>Commands and stream identifiers\<close>

type_synonym relay_cmd = u8

abbreviation (input) RelayCmd_BEGIN :: relay_cmd where "RelayCmd_BEGIN \<equiv> 1"
abbreviation (input) RelayCmd_DATA :: relay_cmd where "RelayCmd_DATA \<equiv> 2"
abbreviation (input) RelayCmd_END :: relay_cmd where "RelayCmd_END \<equiv> 3"
abbreviation (input) RelayCmd_CONNECTED :: relay_cmd where "RelayCmd_CONNECTED \<equiv> 4"
abbreviation (input) RelayCmd_SENDME :: relay_cmd where "RelayCmd_SENDME \<equiv> 5"
abbreviation (input) RelayCmd_EXTEND :: relay_cmd where "RelayCmd_EXTEND \<equiv> 6"
abbreviation (input) RelayCmd_EXTENDED :: relay_cmd where "RelayCmd_EXTENDED \<equiv> 7"
abbreviation (input) RelayCmd_TRUNCATE :: relay_cmd where "RelayCmd_TRUNCATE \<equiv> 8"
abbreviation (input) RelayCmd_TRUNCATED :: relay_cmd where "RelayCmd_TRUNCATED \<equiv> 9"
abbreviation (input) RelayCmd_DROP :: relay_cmd where "RelayCmd_DROP \<equiv> 10"
abbreviation (input) RelayCmd_RESOLVE :: relay_cmd where "RelayCmd_RESOLVE \<equiv> 11"
abbreviation (input) RelayCmd_RESOLVED :: relay_cmd where "RelayCmd_RESOLVED \<equiv> 12"
abbreviation (input) RelayCmd_BEGIN_DIR :: relay_cmd where "RelayCmd_BEGIN_DIR \<equiv> 13"
abbreviation (input) RelayCmd_EXTEND2 :: relay_cmd where "RelayCmd_EXTEND2 \<equiv> 14"
abbreviation (input) RelayCmd_EXTENDED2 :: relay_cmd where "RelayCmd_EXTENDED2 \<equiv> 15"
abbreviation (input) RelayCmd_CONNECT_UDP :: relay_cmd where "RelayCmd_CONNECT_UDP \<equiv> 16"
abbreviation (input) RelayCmd_CONNECTED_UDP :: relay_cmd where "RelayCmd_CONNECTED_UDP \<equiv> 17"
abbreviation (input) RelayCmd_DATAGRAM :: relay_cmd where "RelayCmd_DATAGRAM \<equiv> 18"
abbreviation (input) RelayCmd_CONFLUX_LINK :: relay_cmd where "RelayCmd_CONFLUX_LINK \<equiv> 19"
abbreviation (input) RelayCmd_CONFLUX_LINKED :: relay_cmd where "RelayCmd_CONFLUX_LINKED \<equiv> 20"
abbreviation (input) RelayCmd_CONFLUX_LINKED_ACK :: relay_cmd where "RelayCmd_CONFLUX_LINKED_ACK \<equiv> 21"
abbreviation (input) RelayCmd_CONFLUX_SWITCH :: relay_cmd where "RelayCmd_CONFLUX_SWITCH \<equiv> 22"
abbreviation (input) RelayCmd_ESTABLISH_INTRO :: relay_cmd where "RelayCmd_ESTABLISH_INTRO \<equiv> 32"
abbreviation (input) RelayCmd_ESTABLISH_RENDEZVOUS :: relay_cmd where
  "RelayCmd_ESTABLISH_RENDEZVOUS \<equiv> 33"
abbreviation (input) RelayCmd_INTRODUCE1 :: relay_cmd where "RelayCmd_INTRODUCE1 \<equiv> 34"
abbreviation (input) RelayCmd_INTRODUCE2 :: relay_cmd where "RelayCmd_INTRODUCE2 \<equiv> 35"
abbreviation (input) RelayCmd_RENDEZVOUS1 :: relay_cmd where "RelayCmd_RENDEZVOUS1 \<equiv> 36"
abbreviation (input) RelayCmd_RENDEZVOUS2 :: relay_cmd where "RelayCmd_RENDEZVOUS2 \<equiv> 37"
abbreviation (input) RelayCmd_INTRO_ESTABLISHED :: relay_cmd where "RelayCmd_INTRO_ESTABLISHED \<equiv> 38"
abbreviation (input) RelayCmd_RENDEZVOUS_ESTABLISHED :: relay_cmd where
  "RelayCmd_RENDEZVOUS_ESTABLISHED \<equiv> 39"
abbreviation (input) RelayCmd_INTRODUCE_ACK :: relay_cmd where "RelayCmd_INTRODUCE_ACK \<equiv> 40"
abbreviation (input) RelayCmd_XOFF :: relay_cmd where "RelayCmd_XOFF \<equiv> 43"
abbreviation (input) RelayCmd_XON :: relay_cmd where "RelayCmd_XON \<equiv> 44"

datatype relay_cell_format = FmtV0 | FmtV1

datatype stream_id_req = SWantNone | SWantSome | SAny | SUnrecognized

definition expects_streamid :: "relay_cmd \<Rightarrow> relay_cell_format option \<Rightarrow> stream_id_req" where
  "expects_streamid cmd format =
     (if cmd \<in> {RelayCmd_BEGIN, RelayCmd_DATA, RelayCmd_END, RelayCmd_CONNECTED, RelayCmd_RESOLVE,
                RelayCmd_RESOLVED, RelayCmd_BEGIN_DIR, RelayCmd_XOFF, RelayCmd_XON}
      then SWantSome
      else if cmd \<in> {RelayCmd_CONNECT_UDP, RelayCmd_CONNECTED_UDP, RelayCmd_DATAGRAM} then SWantSome
      else if cmd \<in> {RelayCmd_EXTEND, RelayCmd_EXTENDED, RelayCmd_TRUNCATE, RelayCmd_TRUNCATED,
                     RelayCmd_DROP, RelayCmd_EXTEND2, RelayCmd_EXTENDED2, RelayCmd_CONFLUX_LINK,
                     RelayCmd_CONFLUX_LINKED, RelayCmd_CONFLUX_LINKED_ACK, RelayCmd_CONFLUX_SWITCH,
                     RelayCmd_ESTABLISH_INTRO, RelayCmd_ESTABLISH_RENDEZVOUS, RelayCmd_INTRODUCE1,
                     RelayCmd_INTRODUCE2, RelayCmd_RENDEZVOUS1, RelayCmd_RENDEZVOUS2,
                     RelayCmd_INTRO_ESTABLISHED, RelayCmd_RENDEZVOUS_ESTABLISHED,
                     RelayCmd_INTRODUCE_ACK}
      then SWantNone
      else if cmd = RelayCmd_SENDME then
        (case format of Some FmtV1 \<Rightarrow> SWantNone | Some FmtV0 \<Rightarrow> SAny | None \<Rightarrow> SAny)
      else SUnrecognized)"

type_synonym stream_id = u16

definition StreamId_new :: "u16 \<Rightarrow> stream_id option" where
  "StreamId_new v = (if v = 0 then None else Some v)"

definition StreamId_get_or_zero :: "stream_id option \<Rightarrow> u16" where
  "StreamId_get_or_zero s = (case s of Some v \<Rightarrow> v | None \<Rightarrow> 0)"

definition accepts_streamid_val :: "relay_cmd \<Rightarrow> stream_id option \<Rightarrow> bool" where
  "accepts_streamid_val cmd sid =
     (case expects_streamid cmd None of
        SWantNone \<Rightarrow> sid = None
      | SWantSome \<Rightarrow> sid \<noteq> None
      | SAny \<Rightarrow> True
      | SUnrecognized \<Rightarrow> True)"

section \<open>Message bodies\<close>

subsection \<open>Begin\<close>

text \<open>\<open>BeginFlags\<close> has three bits; a conversion from an integer drops the others.\<close>

definition BeginFlags_from :: "u32 \<Rightarrow> u32" where
  "BeginFlags_from v = v AND 7"

datatype ip_version_preference = Ipv4Only | Ipv4Preferred | Ipv6Preferred | Ipv6Only

definition flags_of_preference :: "ip_version_preference \<Rightarrow> u32" where
  "flags_of_preference v =
     (case v of Ipv4Only \<Rightarrow> BeginFlags_from 0 | Ipv4Preferred \<Rightarrow> 1 | Ipv6Preferred \<Rightarrow> 1 OR 4 | Ipv6Only \<Rightarrow> 2)"

record begin_msg =
  b_addr :: bytes
  b_port :: u16
  b_flags :: u32

definition to_ascii_lowercase :: "u8 \<Rightarrow> u8" where
  "to_ascii_lowercase b = (if 65 \<le> b \<and> b \<le> 90 then b + 32 else b)"

definition Begin_new :: "bytes \<Rightarrow> u16 \<Rightarrow> u32 \<Rightarrow> cell_error + begin_msg" where
  "Begin_new addr port flags =
     (if \<not> is_ascii addr then Inl BadStreamAddress
      else Inr \<lparr>b_addr = map to_ascii_lowercase addr, b_port = port, b_flags = flags\<rparr>)"

definition begin_decode :: "begin_msg rd" where
  "begin_decode =
     rbind (rbind (peek 1) (\<lambda>b.
       if b = [91] then
         rbind (advance 1) (\<lambda>_.
         rbind (take_until 93) (\<lambda>a.
         rbind take_u8 (\<lambda>colon.
           if colon \<noteq> 58 then rfail (InvalidMessage ''missing port in begin cell'') else rret a)))
       else take_until 58)) (\<lambda>addr.
     rbind (take_until 0) (\<lambda>port.
     rbind (\<lambda>r. if remaining r \<ge> 4 then take_u32 r else (Inr 0, r)) (\<lambda>flags.
       if \<not> is_ascii addr then rfail (InvalidMessage ''target address in begin cell not ascii'')
       else if \<not> utf8_ok port then rfail (InvalidMessage ''port in begin cell not utf8'')
       else
         (case parse_uint 65535 (bytes_string port) of
            None \<Rightarrow> rfail (InvalidMessage ''port in begin cell not a valid port'')
          | Some p \<Rightarrow> rret \<lparr>b_addr = addr, b_port = of_nat p, b_flags = BeginFlags_from flags\<rparr>))))"

definition begin_encode :: "begin_msg \<Rightarrow> wr" where
  "begin_encode m =
     wseq ((if 58 \<in> set (b_addr m) then [write_u8 91, w_all (b_addr m), write_u8 93]
            else [w_all (b_addr m)]) @
           [write_u8 58, w_all (ascii_bytes (dec_string (unat (b_port m)))), write_u8 0] @
           (if b_flags m \<noteq> 0 then [write_u32 (b_flags m)] else []))"

subsection \<open>Data\<close>

definition max_body_len :: "relay_cell_format \<Rightarrow> nat" where
  "max_body_len format = (case format of FmtV0 \<Rightarrow> CELL_DATA_LEN - 11 | FmtV1 \<Rightarrow> CELL_DATA_LEN - 21)"

definition Data_new :: "bytes \<Rightarrow> cell_error + bytes" where
  "Data_new inp =
     (if length inp > CELL_DATA_LEN - 11 then Inl (CantEncode ''Data message too long'')
      else if inp = [] then Inl (CantEncode ''Empty data message'')
      else Inr inp)"

definition try_split_from :: "relay_cell_format \<Rightarrow> bytes \<Rightarrow> (bytes \<times> bytes) option" where
  "try_split_from version inp =
     (if inp = [] then None
      else
        (let upper_bound = max_body_len version;
             len = min (length inp) upper_bound in
         Some (take len inp, drop len inp)))"

definition data_decode :: "bytes rd" where
  "data_decode r =
     (if remaining r = 0 then (Inl (InvalidMessage ''Empty DATA message''), r)
      else take_r (remaining r) r)"

definition data_encode :: "bytes \<Rightarrow> wr" where
  "data_encode body = w_all body"

subsection \<open>End, Connected\<close>

record end_msg =
  e_reason :: u8
  e_addr :: "(ip_addr \<times> u32) option"

abbreviation (input) EndReason_MISC :: u8 where "EndReason_MISC \<equiv> 1"
abbreviation (input) EndReason_EXITPOLICY :: u8 where "EndReason_EXITPOLICY \<equiv> 4"
abbreviation (input) EndReason_DONE :: u8 where "EndReason_DONE \<equiv> 6"

definition End_new_misc :: end_msg where
  "End_new_misc = \<lparr>e_reason = EndReason_MISC, e_addr = None\<rparr>"

definition End_new_with_reason :: "u8 \<Rightarrow> end_msg" where
  "End_new_with_reason reason = \<lparr>e_reason = reason, e_addr = None\<rparr>"

definition End_new_exitpolicy :: "ip_addr \<Rightarrow> u32 \<Rightarrow> end_msg" where
  "End_new_exitpolicy addr ttl = \<lparr>e_reason = EndReason_EXITPOLICY, e_addr = Some (addr, ttl)\<rparr>"

definition ipv4_take :: "ip_addr rd" where
  "ipv4_take = rmap V4 take_u32"

definition ipv6_take :: "ip_addr rd" where
  "ipv6_take = rmap V6 take_u128"

definition end_ttl :: "u32 rd" where
  "end_ttl r = (if remaining r = 4 then take_u32 r else (Inr (- 1), r))"

definition end_decode :: "end_msg rd" where
  "end_decode r =
     (if remaining r = 0 then (Inr \<lparr>e_reason = EndReason_MISC, e_addr = None\<rparr>, r)
      else
        rbind take_u8 (\<lambda>reason r1.
          if reason = EndReason_EXITPOLICY then
            (if remaining r1 = 4 \<or> remaining r1 = 8 then
               rbind (extract_r ipv4_take) (\<lambda>addr.
               rbind end_ttl (\<lambda>ttl.
               rret \<lparr>e_reason = reason, e_addr = Some (addr, ttl)\<rparr>)) r1
             else if remaining r1 = 16 \<or> remaining r1 = 20 then
               rbind (extract_r ipv6_take) (\<lambda>addr.
               rbind end_ttl (\<lambda>ttl.
               rret \<lparr>e_reason = reason, e_addr = Some (addr, ttl)\<rparr>)) r1
             else (Inr \<lparr>e_reason = reason, e_addr = None\<rparr>, r1))
          else (Inr \<lparr>e_reason = reason, e_addr = None\<rparr>, r1)) r)"

definition end_encode :: "end_msg \<Rightarrow> wr" where
  "end_encode m =
     wseq (write_u8 (e_reason m) #
       (case e_addr m of
          Some (addr, ttl) \<Rightarrow>
            (if e_reason m = EndReason_EXITPOLICY then [w_all (octets addr), write_u32 ttl] else [])
        | None \<Rightarrow> []))"

type_synonym connected_msg = "(ip_addr \<times> u32) option"

definition connected_decode :: "connected_msg rd" where
  "connected_decode r =
     (if remaining r = 0 then (Inr None, r)
      else
        rbind take_u32 (\<lambda>ipv4.
        rbind (if ipv4 = 0 then
                 rbind take_u8 (\<lambda>t.
                   if t \<noteq> 6 then rfail (InvalidMessage ''Invalid address type in CONNECTED cell'')
                   else extract_r ipv6_take)
               else rret (V4 ipv4)) (\<lambda>addr.
        rbind take_u32 (\<lambda>ttl.
        rret (Some (addr, ttl))))) r)"

definition connected_encode :: "connected_msg \<Rightarrow> wr" where
  "connected_encode m =
     wseq (case m of
        Some (addr, ttl) \<Rightarrow>
          (case addr of
             V4 v4 \<Rightarrow> [w_all (octets (V4 v4))]
           | V6 v6 \<Rightarrow> [write_u32 0, write_u8 6, w_all (octets (V6 v6))]) @
          [write_u32 ttl]
      | None \<Rightarrow> [])"

subsection \<open>Sendme\<close>

text \<open>\<open>SendmeTag\<close>: 16 or 20 bytes, kept in 20 bytes with the length beside them.\<close>

record sendme_tag =
  st_len :: nat
  st_tag :: bytes

definition sendme_tag_from20 :: "bytes \<Rightarrow> sendme_tag" where
  "sendme_tag_from20 v = \<lparr>st_len = 20, st_tag = v\<rparr>"

definition sendme_tag_from16 :: "bytes \<Rightarrow> sendme_tag" where
  "sendme_tag_from16 v = \<lparr>st_len = 16, st_tag = v @ replicate 4 0\<rparr>"

definition sendme_tag_as_ref :: "sendme_tag \<Rightarrow> bytes" where
  "sendme_tag_as_ref t = take (st_len t) (st_tag t)"

definition sendme_tag_try_from :: "bytes \<Rightarrow> sendme_tag option" where
  "sendme_tag_try_from v =
     (if length v = 16 then Some (sendme_tag_from16 v)
      else if length v = 20 then Some (sendme_tag_from20 v)
      else None)"

type_synonym sendme_msg = "sendme_tag option"

definition sendme_decode :: "sendme_msg rd" where
  "sendme_decode r =
     (if remaining r = 0 then (Inr None, r)
      else
        rbind take_u8 (\<lambda>ver.
          if ver = 0 then rret None
          else if ver = 1 then
            rbind take_u16 (\<lambda>dlen.
            rbind (take_r (unat dlen)) (\<lambda>b.
              case sendme_tag_try_from b of
                None \<Rightarrow> rfail BadLengthValue
              | Some t \<Rightarrow> rret (Some t)))
          else rfail (InvalidMessage ''Unrecognized SENDME version.'')) r)"

definition sendme_encode :: "sendme_msg \<Rightarrow> wr" where
  "sendme_encode m =
     wseq (case m of
        None \<Rightarrow> []
      | Some x \<Rightarrow>
          [write_u8 1, w_len_u16 (length (sendme_tag_as_ref x)), w_all (sendme_tag_as_ref x)])"

subsection \<open>Extend, Extended, Extend2, Extended2\<close>

record extend_msg =
  x_addr :: u32
  x_port :: u16
  x_handshake :: bytes
  x_rsaid :: bytes

abbreviation RSA_ID_LEN :: nat where "RSA_ID_LEN \<equiv> 20"

definition rsa_identity_take :: "bytes rd" where
  "rsa_identity_take =
     rbind (take_r RSA_ID_LEN) (\<lambda>m.
       if length m = RSA_ID_LEN then rret m else rfail (Bug ''wrong number of bytes from take''))"

definition extend_decode :: "extend_msg rd" where
  "extend_decode =
     rbind (extract_r take_u32) (\<lambda>addr.
     rbind take_u16 (\<lambda>port.
     rbind (take_r TAP_C_HANDSHAKE_LEN) (\<lambda>hs.
     rbind (extract_r rsa_identity_take) (\<lambda>rsaid.
     rret \<lparr>x_addr = addr, x_port = port, x_handshake = hs, x_rsaid = rsaid\<rparr>))))"

definition extend_encode :: "extend_msg \<Rightarrow> wr" where
  "extend_encode m =
     wseq [w_all (octets (V4 (x_addr m))), write_u16 (x_port m), w_all (x_handshake m), w_all (x_rsaid m)]"

definition extended_decode :: "bytes rd" where
  "extended_decode = take_r TAP_S_HANDSHAKE_LEN"

definition extended_encode :: "bytes \<Rightarrow> wr" where
  "extended_encode hs = w_all hs"

record encoded_link_spec =
  lstype :: u8
  ls_body :: bytes

definition encoded_link_spec_take :: "encoded_link_spec rd" where
  "encoded_link_spec_take =
     rbind take_u8 (\<lambda>t.
       read_nested_u8len (rbind take_rest (\<lambda>b. rret \<lparr>lstype = t, ls_body = b\<rparr>)))"

definition encoded_link_spec_write :: "encoded_link_spec \<Rightarrow> wr" where
  "encoded_link_spec_write ls = wseq [write_u8 (lstype ls), write_nested_u8len (w_all (ls_body ls))]"

record extend2_msg =
  x2_linkspec :: "encoded_link_spec list"
  x2_handshake_type :: u16
  x2_handshake :: bytes

definition extend2_decode :: "extend2_msg rd" where
  "extend2_decode =
     rbind take_u8 (\<lambda>n.
     rbind (extract_n (unat n) encoded_link_spec_take) (\<lambda>linkspec.
     rbind take_u16 (\<lambda>ht.
     rbind take_u16 (\<lambda>hlen.
     rbind (take_r (unat hlen)) (\<lambda>hs.
     rret \<lparr>x2_linkspec = linkspec, x2_handshake_type = ht, x2_handshake = hs\<rparr>)))))"

definition extend2_encode :: "extend2_msg \<Rightarrow> wr" where
  "extend2_encode m =
     wseq [w_len_u8 (length (x2_linkspec m)),
           wseq (map encoded_link_spec_write (x2_linkspec m)),
           write_u16 (x2_handshake_type m),
           w_len_u16 (length (x2_handshake m)),
           w_all (x2_handshake m)]"

definition extended2_decode :: "bytes rd" where
  "extended2_decode = rbind take_u16 (\<lambda>hlen. take_r (unat hlen))"

definition extended2_encode :: "bytes \<Rightarrow> wr" where
  "extended2_encode hs = wseq [w_len_u16 (length hs), w_all hs]"

subsection \<open>Truncated, Resolve, Resolved\<close>

definition truncated_decode :: "u8 rd" where
  "truncated_decode = take_u8"

definition truncated_encode :: "u8 \<Rightarrow> wr" where
  "truncated_encode reason = write_u8 reason"

text \<open>One lower-case hexadecimal digit, as \<open>{:x}\<close> prints a nybble.\<close>

definition hex_digit :: "u8 \<Rightarrow> char" where
  "hex_digit n = (if n < 10 then char_of (48 + unat n) else char_of (87 + unat n))"

definition Resolve_new_reverse :: "ip_addr \<Rightarrow> bytes" where
  "Resolve_new_reverse addr =
     ascii_bytes (case addr of
        V4 v4 \<Rightarrow> concat (map (\<lambda>oc. dec_string (unat oc) @ ''.'') (rev (octets (V4 v4)))) @ ''in-addr.arpa''
      | V6 v6 \<Rightarrow>
          concat (map (\<lambda>oc. let high_nybble = drop_bit 4 oc; low_nybble = oc AND 15 in
                    [hex_digit low_nybble] @ ''.'' @ [hex_digit high_nybble] @ ''.'')
                  (rev (octets (V6 v6)))) @ ''ip6.arpa'')"

definition resolve_decode :: "bytes rd" where
  "resolve_decode = take_until 0"

definition resolve_encode :: "bytes \<Rightarrow> wr" where
  "resolve_encode query = wseq [w_all query, write_u8 0]"

datatype resolved_val =
    Ip ip_addr
  | Hostname bytes
  | TransientError
  | NontransientError
  | RvUnrecognized u8 bytes

abbreviation (input) RES_HOSTNAME :: u8 where "RES_HOSTNAME \<equiv> 0"
abbreviation (input) RES_IPV4 :: u8 where "RES_IPV4 \<equiv> 4"
abbreviation (input) RES_IPV6 :: u8 where "RES_IPV6 \<equiv> 6"
abbreviation (input) RES_ERR_TRANSIENT :: u8 where "RES_ERR_TRANSIENT \<equiv> 240"
abbreviation (input) RES_ERR_NONTRANSIENT :: u8 where "RES_ERR_NONTRANSIENT \<equiv> 241"

definition res_len :: "u8 \<Rightarrow> nat option" where
  "res_len tp = (if tp = RES_IPV4 then Some 4 else if tp = RES_IPV6 then Some 16 else None)"

definition resolved_val_take :: "resolved_val rd" where
  "resolved_val_take =
     rbind take_u8 (\<lambda>tp.
     rbind (rmap unat take_u8) (\<lambda>len.
       if (case res_len tp of Some expected_len \<Rightarrow> len \<noteq> expected_len | None \<Rightarrow> False)
       then rfail (InvalidMessage ''Wrong length for RESOLVED answer'')
       else if tp = RES_HOSTNAME then rmap Hostname (take_r len)
       else if tp = RES_IPV4 then rmap Ip (extract_r ipv4_take)
       else if tp = RES_IPV6 then rmap Ip (extract_r ipv6_take)
       else if tp = RES_ERR_TRANSIENT then rmap (\<lambda>_. TransientError) (advance len)
       else if tp = RES_ERR_NONTRANSIENT then rmap (\<lambda>_. NontransientError) (advance len)
       else rmap (RvUnrecognized tp) (take_r len)))"

fun resolved_val_write :: "resolved_val \<Rightarrow> wr" where
  "resolved_val_write (Hostname h) = wseq [write_u8 RES_HOSTNAME, w_len_u8 (length h), w_all h]"
| "resolved_val_write (Ip (V4 a)) = wseq [write_u8 RES_IPV4, write_u8 4, w_all (octets (V4 a))]"
| "resolved_val_write (Ip (V6 a)) = wseq [write_u8 RES_IPV6, write_u8 16, w_all (octets (V6 a))]"
| "resolved_val_write TransientError = wseq [write_u8 RES_ERR_TRANSIENT, write_u8 0]"
| "resolved_val_write NontransientError = wseq [write_u8 RES_ERR_NONTRANSIENT, write_u8 0]"
| "resolved_val_write (RvUnrecognized tp v) = wseq [write_u8 tp, w_len_u8 (length v), w_all v]"

type_synonym resolved_msg = "(resolved_val \<times> u32) list"

definition Resolved_new_err :: "bool \<Rightarrow> u32 \<Rightarrow> resolved_msg" where
  "Resolved_new_err transient ttl = [] @ [(if transient then TransientError else NontransientError, ttl)]"

definition Resolved_add_answer :: "resolved_val \<Rightarrow> u32 \<Rightarrow> resolved_msg \<Rightarrow> resolved_msg" where
  "Resolved_add_answer answer ttl m = m @ [(answer, ttl)]"

definition resolved_answer_take :: "(resolved_val \<times> u32) rd" where
  "resolved_answer_take =
     rbind (extract_r resolved_val_take) (\<lambda>rv. rbind take_u32 (\<lambda>ttl. rret (rv, ttl)))"

lemma readable_option_case [readable_intros]:
  "readable m \<Longrightarrow> (\<And>x. readable (f x)) \<Longrightarrow> readable (case p of None \<Rightarrow> m | Some x \<Rightarrow> f x)"
  by (cases p) auto

lemma readable_ip [readable_intros]: "readable ipv4_take" "readable ipv6_take"
  unfolding ipv4_take_def ipv6_take_def by (intro readable_intros)+

lemma readable_resolved_val [readable_intros]: "readable resolved_val_take"
  unfolding resolved_val_take_def by (intro readable_intros) auto

lemma readable_resolved_answer [readable_intros]: "readable resolved_answer_take"
  unfolding resolved_answer_take_def by (intro readable_intros)

lemma take_u32_eq:
  "take_u32 r =
     (if remaining r < 4 then (Inl (incomplete_error r (4 - remaining r)), r)
      else (Inr (from_be_bytes (take 4 (rest r))), adv 4 r))"
  by (simp add: take_u32_def take_array_def take_into_def extract_r_def rbind_def take_r_eq)

lemma resolved_answer_progress:
  assumes "resolved_answer_take r = (Inr x, r')" and "0 < remaining r"
  shows "remaining r' < remaining r"
proof -
  obtain rv r1 ttl where 1: "resolved_val_take r = (Inr rv, r1)" "take_u32 r1 = (Inr ttl, r')"
    using assms(1) readable.extract_Inr [OF readable_resolved_val]
    by (auto simp: resolved_answer_take_def rbind_Inr_iff)
  have "reader_inv r" using assms(2) by (simp add: reader_inv_def remaining_def)
  then obtain n where "r1 = adv n r"
    using readable.ok_stable [OF readable_resolved_val _ 1(1)] by blast
  with 1(2) assms(2) show ?thesis
    by (auto simp: take_u32_eq split: if_splits)
qed

function resolved_loop :: "reader \<Rightarrow> (bytes_error + resolved_msg) \<times> reader" where
  "resolved_loop r =
     (if remaining r > 0 then
        (case resolved_answer_take r of
           (Inl e, r') \<Rightarrow> (Inl e, r')
         | (Inr a, r') \<Rightarrow>
             (case resolved_loop r' of
                (Inl e, r'') \<Rightarrow> (Inl e, r'')
              | (Inr as, r'') \<Rightarrow> (Inr (a # as), r'')))
      else (Inr [], r))"
  by pat_completeness auto
termination
  by (relation "measure remaining") (auto intro: resolved_answer_progress [OF sym])

declare resolved_loop.simps [simp del]

definition resolved_decode :: "resolved_msg rd" where
  "resolved_decode = resolved_loop"

definition resolved_encode :: "resolved_msg \<Rightarrow> wr" where
  "resolved_encode m = wseq (map (\<lambda>(rv, ttl). wseq [resolved_val_write rv, write_u32 ttl]) m)"

subsection \<open>Unrecognized and the empty bodies\<close>

definition relay_unrecognized_decode :: "unrecognized rd" where
  "relay_unrecognized_decode =
     rbind (\<lambda>r. take_r (remaining r) r) (\<lambda>b. rret \<lparr>u_cmd = 0, u_content = b\<rparr>)"

definition relay_decode_with_cmd :: "relay_cmd \<Rightarrow> unrecognized rd" where
  "relay_decode_with_cmd cmd = rbind relay_unrecognized_decode (\<lambda>u. rret (u\<lparr>u_cmd := cmd\<rparr>))"

definition relay_unrecognized_encode :: "unrecognized \<Rightarrow> wr" where
  "relay_unrecognized_encode u = w_all (u_content u)"

definition empty_body_decode :: "unit rd" where
  "empty_body_decode = rret ()"

definition empty_body_encode :: wr where
  "empty_body_encode = wseq []"

subsection \<open>Xon, Xoff\<close>

definition FlowCtrlVersion_new :: "u8 \<Rightarrow> u8 option" where
  "FlowCtrlVersion_new version = (if version \<noteq> 0 then None else Some version)"

datatype xon_kbps_ewma = Limited u32 | Unlimited

definition XonKbpsEwma_decode :: "u32 \<Rightarrow> xon_kbps_ewma" where
  "XonKbpsEwma_decode k = (if k \<noteq> 0 then Limited k else Unlimited)"

definition XonKbpsEwma_encode :: "xon_kbps_ewma \<Rightarrow> u32" where
  "XonKbpsEwma_encode k = (case k of Limited x \<Rightarrow> x | Unlimited \<Rightarrow> 0)"

record xon_msg =
  xon_version :: u8
  xon_rate :: xon_kbps_ewma

definition xon_decode :: "xon_msg rd" where
  "xon_decode =
     rbind take_u8 (\<lambda>v.
       case FlowCtrlVersion_new v of
         None \<Rightarrow> rfail (InvalidMessage ''Unrecognized XON version.'')
       | Some version \<Rightarrow>
           rbind take_u32 (\<lambda>k. rret \<lparr>xon_version = version, xon_rate = XonKbpsEwma_decode k\<rparr>))"

definition xon_encode :: "xon_msg \<Rightarrow> wr" where
  "xon_encode m = wseq [write_u8 (xon_version m), write_u32 (XonKbpsEwma_encode (xon_rate m))]"

definition xoff_decode :: "u8 rd" where
  "xoff_decode =
     rbind take_u8 (\<lambda>v.
       case FlowCtrlVersion_new v of
         None \<Rightarrow> rfail (InvalidMessage ''Unrecognized XOFF version.'')
       | Some version \<Rightarrow> rret version)"

definition xoff_encode :: "u8 \<Rightarrow> wr" where
  "xoff_encode version = write_u8 version"

subsection \<open>Conflux\<close>

abbreviation CONFLUX_LINK_VERSION :: u8 where "CONFLUX_LINK_VERSION \<equiv> 1"
abbreviation V1_LINK_NONCE_LEN :: nat where "V1_LINK_NONCE_LEN \<equiv> 32"

type_synonym v1_nonce = bytes
type_synonym v1_desired_ux = u8

record v1_link_payload =
  lk_nonce :: v1_nonce
  lk_last_seqno_sent :: u64
  lk_last_seqno_recv :: u64
  lk_desired_ux :: v1_desired_ux

record conflux_link =
  lk_version :: u8
  lk_payload :: v1_link_payload

definition V1LinkPayload_new :: "v1_nonce \<Rightarrow> v1_desired_ux \<Rightarrow> v1_link_payload" where
  "V1LinkPayload_new n ux = \<lparr>lk_nonce = n, lk_last_seqno_sent = 0, lk_last_seqno_recv = 0, lk_desired_ux = ux\<rparr>"

definition ConfluxLink_new :: "v1_link_payload \<Rightarrow> conflux_link" where
  "ConfluxLink_new p = \<lparr>lk_version = CONFLUX_LINK_VERSION, lk_payload = p\<rparr>"

definition v1_link_payload_decode :: "v1_link_payload rd" where
  "v1_link_payload_decode =
     rbind (take_r V1_LINK_NONCE_LEN) (\<lambda>n.
     rbind take_u64 (\<lambda>sent.
     rbind take_u64 (\<lambda>recv.
     rbind take_u8 (\<lambda>ux.
     rret \<lparr>lk_nonce = n, lk_last_seqno_sent = sent, lk_last_seqno_recv = recv, lk_desired_ux = ux\<rparr>))))"

definition v1_link_payload_encode :: "v1_link_payload \<Rightarrow> wr" where
  "v1_link_payload_encode p = wseq [w_all (lk_nonce p), write_u64 (lk_last_seqno_sent p),
     write_u64 (lk_last_seqno_recv p), write_u8 (lk_desired_ux p)]"

definition conflux_link_decode :: "conflux_link rd" where
  "conflux_link_decode =
     rbind take_u8 (\<lambda>version.
       if version \<noteq> CONFLUX_LINK_VERSION
       then rfail (InvalidMessage ''Unrecognized CONFLUX_LINK/CONFLUX_LINKED version.'')
       else rbind v1_link_payload_decode (\<lambda>p. rret \<lparr>lk_version = version, lk_payload = p\<rparr>))"

definition conflux_link_encode :: "conflux_link \<Rightarrow> wr" where
  "conflux_link_encode m = wseq [write_u8 (lk_version m), v1_link_payload_encode (lk_payload m)]"

definition conflux_switch_decode :: "u32 rd" where
  "conflux_switch_decode = take_u32"

definition conflux_switch_encode :: "u32 \<Rightarrow> wr" where
  "conflux_switch_encode seqno = write_u32 seqno"

section \<open>AnyRelayMsg\<close>

datatype any_relay_msg =
    Begin begin_msg
  | Data bytes
  | End end_msg
  | Connected connected_msg
  | Sendme sendme_msg
  | Extend extend_msg
  | Extended bytes
  | Extend2 extend2_msg
  | Extended2 bytes
  | RTruncate
  | RTruncated u8
  | Drop
  | Resolve bytes
  | Resolved resolved_msg
  | BeginDir
  | ConfluxLink conflux_link
  | ConfluxLinked conflux_link
  | ConfluxLinkedAck
  | ConfluxSwitch u32
  | Xon xon_msg
  | Xoff u8
  | RelayUnrecognized unrecognized

fun any_relay_cmd :: "any_relay_msg \<Rightarrow> relay_cmd" where
  "any_relay_cmd (Begin _) = RelayCmd_BEGIN"
| "any_relay_cmd (Data _) = RelayCmd_DATA"
| "any_relay_cmd (End _) = RelayCmd_END"
| "any_relay_cmd (Connected _) = RelayCmd_CONNECTED"
| "any_relay_cmd (Sendme _) = RelayCmd_SENDME"
| "any_relay_cmd (Extend _) = RelayCmd_EXTEND"
| "any_relay_cmd (Extended _) = RelayCmd_EXTENDED"
| "any_relay_cmd (Extend2 _) = RelayCmd_EXTEND2"
| "any_relay_cmd (Extended2 _) = RelayCmd_EXTENDED2"
| "any_relay_cmd RTruncate = RelayCmd_TRUNCATE"
| "any_relay_cmd (RTruncated _) = RelayCmd_TRUNCATED"
| "any_relay_cmd Drop = RelayCmd_DROP"
| "any_relay_cmd (Resolve _) = RelayCmd_RESOLVE"
| "any_relay_cmd (Resolved _) = RelayCmd_RESOLVED"
| "any_relay_cmd BeginDir = RelayCmd_BEGIN_DIR"
| "any_relay_cmd (ConfluxLink _) = RelayCmd_CONFLUX_LINK"
| "any_relay_cmd (ConfluxLinked _) = RelayCmd_CONFLUX_LINKED"
| "any_relay_cmd ConfluxLinkedAck = RelayCmd_CONFLUX_LINKED_ACK"
| "any_relay_cmd (ConfluxSwitch _) = RelayCmd_CONFLUX_SWITCH"
| "any_relay_cmd (Xon _) = RelayCmd_XON"
| "any_relay_cmd (Xoff _) = RelayCmd_XOFF"
| "any_relay_cmd (RelayUnrecognized u) = u_cmd u"

fun any_relay_encode :: "any_relay_msg \<Rightarrow> wr" where
  "any_relay_encode (Begin m) = begin_encode m"
| "any_relay_encode (Data m) = data_encode m"
| "any_relay_encode (End m) = end_encode m"
| "any_relay_encode (Connected m) = connected_encode m"
| "any_relay_encode (Sendme m) = sendme_encode m"
| "any_relay_encode (Extend m) = extend_encode m"
| "any_relay_encode (Extended m) = extended_encode m"
| "any_relay_encode (Extend2 m) = extend2_encode m"
| "any_relay_encode (Extended2 m) = extended2_encode m"
| "any_relay_encode RTruncate = empty_body_encode"
| "any_relay_encode (RTruncated m) = truncated_encode m"
| "any_relay_encode Drop = empty_body_encode"
| "any_relay_encode (Resolve m) = resolve_encode m"
| "any_relay_encode (Resolved m) = resolved_encode m"
| "any_relay_encode BeginDir = empty_body_encode"
| "any_relay_encode (ConfluxLink m) = conflux_link_encode m"
| "any_relay_encode (ConfluxLinked m) = conflux_link_encode m"
| "any_relay_encode ConfluxLinkedAck = empty_body_encode"
| "any_relay_encode (ConfluxSwitch m) = conflux_switch_encode m"
| "any_relay_encode (Xon m) = xon_encode m"
| "any_relay_encode (Xoff m) = xoff_encode m"
| "any_relay_encode (RelayUnrecognized m) = relay_unrecognized_encode m"

definition any_relay_decode :: "relay_cmd \<Rightarrow> any_relay_msg rd" where
  "any_relay_decode cmd =
     (if cmd = RelayCmd_BEGIN then rmap Begin begin_decode
      else if cmd = RelayCmd_DATA then rmap Data data_decode
      else if cmd = RelayCmd_END then rmap End end_decode
      else if cmd = RelayCmd_CONNECTED then rmap Connected connected_decode
      else if cmd = RelayCmd_SENDME then rmap Sendme sendme_decode
      else if cmd = RelayCmd_EXTEND then rmap Extend extend_decode
      else if cmd = RelayCmd_EXTENDED then rmap Extended extended_decode
      else if cmd = RelayCmd_EXTEND2 then rmap Extend2 extend2_decode
      else if cmd = RelayCmd_EXTENDED2 then rmap Extended2 extended2_decode
      else if cmd = RelayCmd_TRUNCATE then rmap (\<lambda>_. RTruncate) empty_body_decode
      else if cmd = RelayCmd_TRUNCATED then rmap RTruncated truncated_decode
      else if cmd = RelayCmd_DROP then rmap (\<lambda>_. Drop) empty_body_decode
      else if cmd = RelayCmd_RESOLVE then rmap Resolve resolve_decode
      else if cmd = RelayCmd_RESOLVED then rmap Resolved resolved_decode
      else if cmd = RelayCmd_BEGIN_DIR then rmap (\<lambda>_. BeginDir) empty_body_decode
      else if cmd = RelayCmd_CONFLUX_LINK then rmap ConfluxLink conflux_link_decode
      else if cmd = RelayCmd_CONFLUX_LINKED then rmap ConfluxLinked conflux_link_decode
      else if cmd = RelayCmd_CONFLUX_LINKED_ACK then rmap (\<lambda>_. ConfluxLinkedAck) empty_body_decode
      else if cmd = RelayCmd_CONFLUX_SWITCH then rmap ConfluxSwitch conflux_switch_decode
      else if cmd = RelayCmd_XON then rmap Xon xon_decode
      else if cmd = RelayCmd_XOFF then rmap Xoff xoff_decode
      else rmap RelayUnrecognized (relay_decode_with_cmd cmd))"

section \<open>Round trips of the bodies\<close>

lemma yields_codec_all:
  assumes "codec d e v" and "v x" and "wout (e x) = Inr bs"
  shows "yields (rmap c d) bs (c x)"
  using assms by (intro yields_map yields_parses_all) (rule codec.enc_parses)

lemma yields_empty:
  "(\<And>r. remaining r = 0 \<Longrightarrow> fst (m r) = Inr x) \<Longrightarrow> yields m [] x"
  by (auto simp: yields_def simp flip: length_rest)

text \<open>A decoder that first asks whether anything is left.\<close>

lemma yields_nonempty:
  assumes "yields m bs x" and "bs \<noteq> []"
  shows "yields (\<lambda>r. if remaining r = 0 then f r else m r) bs x"
  using assms by (auto simp: yields_def simp flip: length_rest)

subsection \<open>Begin\<close>

definition begin_valid :: "begin_msg \<Rightarrow> bool" where
  "begin_valid m \<longleftrightarrow> is_ascii (b_addr m) \<and> BeginFlags_from (b_flags m) = b_flags m \<and>
     (if 58 \<in> set (b_addr m) then 93 \<notin> set (b_addr m)
      else b_addr m = [] \<or> hd (b_addr m) \<noteq> 91)"

lemma dec_string_ascii:
  "0 \<notin> set (ascii_bytes (dec_string n))" "list_all (\<lambda>b. b < 128) (ascii_bytes (dec_string n))"
proof -
  have "list_all is_ascii_digit (dec_string n)" by (rule dec_string_digits)
  then have "\<forall>b \<in> set (ascii_bytes (dec_string n)). 48 \<le> unat b \<and> unat b \<le> 57"
    by (auto simp: ascii_bytes_def list_all_iff is_ascii_digit_def unat_of_nat)
  then show "0 \<notin> set (ascii_bytes (dec_string n))"
    "list_all (\<lambda>b. b < 128) (ascii_bytes (dec_string n))"
    by (force simp: list_all_iff word_less_nat_alt)+
qed

lemma utf8_ok_ascii: "list_all (\<lambda>b. b < 128) bs \<Longrightarrow> utf8_ok bs"
  by (induction bs) auto

lemma parse_port: "parse_uint 65535 (dec_string (unat (p :: u16))) = Some (unat p)"
  using unat_u16_le [of p] by (simp add: parse_uint_dec_string)

lemma begin_addr_parses:
  assumes "begin_valid m"
  shows "parses (rbind (peek 1) (\<lambda>b.
       if b = [91] then
         rbind (advance 1) (\<lambda>_.
         rbind (take_until 93) (\<lambda>a.
         rbind take_u8 (\<lambda>colon.
           if colon \<noteq> 58 then rfail (InvalidMessage ''missing port in begin cell'') else rret a)))
       else take_until 58))
     (if 58 \<in> set (b_addr m) then [91] @ (b_addr m @ [93]) @ [58] else b_addr m @ [58]) (b_addr m)"
    (is "parses (rbind (peek 1) ?f) ?bs _")
proof -
  have peek: "parses (rbind (peek 1) f) bs x" if "parses (f [b]) bs x" "bs = b # cs" for f b bs cs x
    unfolding parses_def
  proof (intro allI impI)
    fix r ys
    assume r: "reader_inv r" "rest r = bs @ ys"
    then have "\<not> remaining r < 1" using that(2) by (simp flip: length_rest)
    then have "peek 1 r = (Inr [b], r)" using r that(2) by (simp add: peek_eq)
    then show "rbind (peek 1) f r = (Inr x, adv (length bs) r)"
      using that(1) r by (simp add: parses_def)
  qed
  show ?thesis
  proof (cases "58 \<in> set (b_addr m)")
    case True
    have "parses (?f [91]) ([91] @ (b_addr m @ [93]) @ [58]) (b_addr m)"
      using assms True
      by (simp add: begin_valid_def del: append_assoc append_Cons append_Nil)
       (rule parses_bind [OF parses_advance], simp, rule parses_bind [OF parses_until], simp,
        rule parses_bind [OF parses_u8, where bs = "[]", simplified append_Nil2],
        rule parses_if_False, simp, rule parses_ret)
    then show ?thesis
      using True peek [of ?f 91 "[91] @ (b_addr m @ [93]) @ [58]"] by simp
  next
    case False
    then obtain b cs where bs: "b_addr m @ [58] = b # cs" "b \<noteq> 91"
      using assms by (cases "b_addr m") (auto simp: begin_valid_def)
    have "parses (take_until 58) (b_addr m @ [58]) (b_addr m)"
      using False by (rule parses_until)
    then have "parses (?f [b]) (b_addr m @ [58]) (b_addr m)"
      using bs(2) by simp
    then show ?thesis
      using False peek [of ?f b "b_addr m @ [58]"] bs by simp
  qed
qed

lemma begin_yields:
  assumes valid: "begin_valid m" and "wout (begin_encode m) = Inr bs"
  shows "yields begin_decode bs m"
proof -
  let ?addr = "if 58 \<in> set (b_addr m) then [91] @ (b_addr m @ [93]) @ [58] else b_addr m @ [58]"
  let ?port = "ascii_bytes (dec_string (unat (b_port m)))"
  let ?flags = "if b_flags m \<noteq> 0 then to_be_bytes (b_flags m) else []"
  have bs: "bs = ?addr @ (?port @ [0]) @ ?flags"
    using assms(2) by (auto simp: begin_encode_def wire_simps split: if_splits)
  have flags: "yields (\<lambda>r. if remaining r \<ge> 4 then take_u32 r else (Inr 0, r)) ?flags (b_flags m)"
    using parses_u32 [of "b_flags m"]
    by (auto simp: yields_def parses_def length_to_be_bytes simp flip: length_rest)
  have m: "\<lparr>b_addr = b_addr m, b_port = b_port m, b_flags = b_flags m\<rparr> = m"
    by simp
  have fin: "yields (rbind (\<lambda>r. if remaining r \<ge> 4 then take_u32 r else (Inr 0, r)) (\<lambda>flags.
       if \<not> is_ascii (b_addr m) then rfail (InvalidMessage ''target address in begin cell not ascii'')
       else if \<not> utf8_ok ?port then rfail (InvalidMessage ''port in begin cell not utf8'')
       else
         (case parse_uint 65535 (bytes_string ?port) of
            None \<Rightarrow> rfail (InvalidMessage ''port in begin cell not a valid port'')
          | Some p \<Rightarrow> rret \<lparr>b_addr = b_addr m, b_port = of_nat p, b_flags = BeginFlags_from flags\<rparr>)))
      ?flags m"
    using valid yields_map [OF flags,
        of "\<lambda>fl. \<lparr>b_addr = b_addr m, b_port = b_port m, b_flags = BeginFlags_from fl\<rparr>"]
    by (simp add: begin_valid_def rmap_def utf8_ok_ascii dec_string_ascii parse_port m del: rret_apply)
  show ?thesis
    unfolding begin_decode_def bs
    by (rule yields_bind [OF begin_addr_parses [OF valid]],
        rule yields_bind [OF parses_until [OF dec_string_ascii(1)]], rule fin)
qed

subsection \<open>End, Connected, Sendme\<close>

lemma parses_ip [parses_intros]:
  "parses ipv4_take (to_be_bytes x) (V4 x)" "parses ipv6_take (to_be_bytes y) (V6 y)"
  unfolding ipv4_take_def ipv6_take_def by (rule parses_map [OF parses_u32], simp)
    (rule parses_map [OF parses_u128], simp)

lemma end_ttl_yields: "yields end_ttl (to_be_bytes t) t"
  using parses_u32 [of t]
  by (auto simp: yields_def parses_def end_ttl_def length_to_be_bytes simp flip: length_rest)

lemma end_addr_yields:
  assumes "parses m as a"
  shows "yields (rbind (extract_r m) (\<lambda>addr. rbind end_ttl (\<lambda>ttl. rret (f addr ttl))))
      (as @ to_be_bytes t) (f a t)"
  by (rule yields_bind [OF parses_extract [OF assms]])
    (use yields_map [OF end_ttl_yields, of "f a" t] in \<open>simp add: rmap_def del: rret_apply\<close>)

lemma end_yields:
  assumes "e_reason m = EndReason_EXITPOLICY \<or> e_addr m = None" and "wout (end_encode m) = Inr bs"
  shows "yields end_decode bs m"
proof -
  let ?tail = "\<lambda>reason r1.
    if reason = EndReason_EXITPOLICY then
            (if remaining r1 = 4 \<or> remaining r1 = 8 then
               rbind (extract_r ipv4_take) (\<lambda>addr.
               rbind end_ttl (\<lambda>ttl.
               rret \<lparr>e_reason = reason, e_addr = Some (addr, ttl)\<rparr>)) r1
             else if remaining r1 = 16 \<or> remaining r1 = 20 then
               rbind (extract_r ipv6_take) (\<lambda>addr.
               rbind end_ttl (\<lambda>ttl.
               rret \<lparr>e_reason = reason, e_addr = Some (addr, ttl)\<rparr>)) r1
             else (Inr \<lparr>e_reason = reason, e_addr = None\<rparr>, r1))
          else (Inr \<lparr>e_reason = reason, e_addr = None\<rparr>, r1)"
  define more where "more = (case e_addr m of
      Some (addr, ttl) \<Rightarrow>
        (if e_reason m = EndReason_EXITPOLICY then octets addr @ to_be_bytes ttl else [])
    | None \<Rightarrow> [])"
  have bs: "bs = [e_reason m] @ more"
    using assms(2) by (auto simp: end_encode_def more_def wire_simps split: option.splits if_splits)
  have "yields (?tail (e_reason m)) more m"
  proof (cases "e_addr m")
    case None
    then have "m = \<lparr>e_reason = e_reason m, e_addr = None\<rparr>" by (cases m) simp
    then show ?thesis
      using None by (auto simp: yields_def more_def simp flip: length_rest)
  next
    case (Some at)
    then obtain addr ttl where at: "e_addr m = Some (addr, ttl)" by (cases at) auto
    then have r: "e_reason m = EndReason_EXITPOLICY" using assms(1) by simp
    have m: "\<lparr>e_reason = 4, e_addr = Some (addr, ttl)\<rparr> = m" using at r by (cases m) simp
    show ?thesis
    proof (cases addr)
      case (V4 x)
      have "yields (rbind (extract_r ipv4_take) (\<lambda>addr. rbind end_ttl (\<lambda>ttl.
          rret \<lparr>e_reason = 4, e_addr = Some (addr, ttl)\<rparr>))) more m"
        using end_addr_yields [OF parses_ip(1) [of x],
            where f = "\<lambda>a t. \<lparr>e_reason = 4, e_addr = Some (a, t)\<rparr>" and t = ttl]
        by (simp add: more_def at r V4 octets_def m [unfolded V4] del: rret_apply)
      moreover have "length more = 8"
        by (simp add: more_def at r V4 octets_def length_to_be_bytes)
      ultimately show ?thesis
        by (auto simp: r yields_def simp flip: length_rest)
    next
      case (V6 x)
      have "yields (rbind (extract_r ipv6_take) (\<lambda>addr. rbind end_ttl (\<lambda>ttl.
          rret \<lparr>e_reason = 4, e_addr = Some (addr, ttl)\<rparr>))) more m"
        using end_addr_yields [OF parses_ip(2) [of x],
            where f = "\<lambda>a t. \<lparr>e_reason = 4, e_addr = Some (a, t)\<rparr>" and t = ttl]
        by (simp add: more_def at r V6 octets_def m [unfolded V6] del: rret_apply)
      moreover have "length more = 20"
        by (simp add: more_def at r V6 octets_def length_to_be_bytes)
      ultimately show ?thesis
        by (auto simp: r yields_def simp flip: length_rest)
    qed
  qed
  then have "yields (rbind take_u8 ?tail) ([e_reason m] @ more) m"
    by (rule yields_bind [OF parses_u8])
  then show ?thesis
    unfolding end_decode_def [abs_def] bs by (rule yields_nonempty) simp
qed

lemma connected_yields:
  assumes "\<forall>t. m \<noteq> Some (V4 0, t)" and "wout (connected_encode m) = Inr bs"
  shows "yields connected_decode bs m"
proof (cases m)
  case None
  then show ?thesis
    using assms(2) by (auto simp: connected_encode_def wire_simps connected_decode_def intro!: yields_empty)
next
  case (Some at)
  then obtain addr ttl where m: "m = Some (addr, ttl)" by (cases at) auto
  show ?thesis
  proof (cases addr)
    case (V4 x)
    then have bs: "x \<noteq> 0" "bs = to_be_bytes x @ [] @ to_be_bytes ttl"
      using assms m by (auto simp: connected_encode_def wire_simps octets_def)
    then have p: "parses (rbind take_u32 (\<lambda>ipv4.
        rbind (if ipv4 = 0 then
                 rbind take_u8 (\<lambda>t.
                   if t \<noteq> 6 then rfail (InvalidMessage ''Invalid address type in CONNECTED cell'')
                   else extract_r ipv6_take)
               else rret (V4 ipv4)) (\<lambda>addr.
        rbind take_u32 (\<lambda>ttl.
        rret (Some (addr, ttl)))))) (to_be_bytes x @ [] @ to_be_bytes ttl) m"
      by (intro parses_bind [OF parses_u32] parses_bind [OF parses_if_False [OF _ parses_ret]]
          parses_bind_ret [OF parses_u32]) (simp_all add: m V4)
    show ?thesis
      unfolding connected_decode_def [abs_def] bs(2)
      by (rule yields_nonempty [OF yields_parses_all [OF p]]) (simp add: to_be_bytes_def)
  next
    case (V6 x)
    then have bs: "bs = to_be_bytes (0 :: u32) @ ([6] @ to_be_bytes x) @ to_be_bytes ttl"
      using assms m by (auto simp: connected_encode_def wire_simps octets_def)
    have "parses (rbind take_u8 (\<lambda>t.
        if t \<noteq> 6 then rfail (InvalidMessage ''Invalid address type in CONNECTED cell'')
        else extract_r ipv6_take)) ([6] @ to_be_bytes x) (V6 x)"
      by (rule parses_bind [OF parses_u8], rule parses_if_False, simp, rule parses_extract, rule parses_ip)
    then have p: "parses (rbind take_u32 (\<lambda>ipv4.
        rbind (if ipv4 = 0 then
                 rbind take_u8 (\<lambda>t.
                   if t \<noteq> 6 then rfail (InvalidMessage ''Invalid address type in CONNECTED cell'')
                   else extract_r ipv6_take)
               else rret (V4 ipv4)) (\<lambda>addr.
        rbind take_u32 (\<lambda>ttl.
        rret (Some (addr, ttl)))))) (to_be_bytes (0 :: u32) @ ([6] @ to_be_bytes x) @ to_be_bytes ttl) m"
      by (intro parses_bind [OF parses_u32] parses_bind [OF parses_if_True]
          parses_bind_ret [OF parses_u32]) (simp_all add: m V6)
    show ?thesis
      unfolding connected_decode_def [abs_def] bs
      by (rule yields_nonempty [OF yields_parses_all [OF p]]) simp
  qed
qed

definition sendme_tag_inv :: "sendme_tag \<Rightarrow> bool" where
  "sendme_tag_inv t \<longleftrightarrow> length (st_tag t) = 20 \<and>
     (st_len t = 20 \<or> st_len t = 16 \<and> drop 16 (st_tag t) = replicate 4 0)"

lemma sendme_tag_from_inv:
  "length v = 20 \<Longrightarrow> sendme_tag_inv (sendme_tag_from20 v)"
  "length v = 16 \<Longrightarrow> sendme_tag_inv (sendme_tag_from16 v)"
  by (simp_all add: sendme_tag_inv_def sendme_tag_from20_def sendme_tag_from16_def)

lemma sendme_tag_try_from_as_ref:
  "sendme_tag_inv t \<Longrightarrow> sendme_tag_try_from (sendme_tag_as_ref t) = Some t"
  by (cases t) (auto simp: sendme_tag_inv_def sendme_tag_try_from_def sendme_tag_as_ref_def
      sendme_tag_from20_def sendme_tag_from16_def append_take_drop_id
      intro: arg_cong2 [of _ _ _ _ "(@)"] dest: sym [of "drop _ _"])

lemma sendme_yields:
  assumes "\<forall>t. m = Some t \<longrightarrow> sendme_tag_inv t" and "wout (sendme_encode m) = Inr bs"
  shows "yields sendme_decode bs m"
proof (cases m)
  case None
  then show ?thesis
    using assms(2) by (auto simp: sendme_encode_def wire_simps sendme_decode_def intro!: yields_empty)
next
  case (Some t)
  let ?b = "sendme_tag_as_ref t"
  have len: "length ?b < 2 ^ 16"
    using assms(1) Some by (auto simp: sendme_tag_inv_def sendme_tag_as_ref_def)
  have bs: "bs = [1] @ to_be_bytes (of_nat (length ?b) :: u16) @ ?b @ []"
    using assms(2) Some len by (simp add: sendme_encode_def wire_simps)
  have p: "parses (rbind take_u8 (\<lambda>ver.
          if ver = 0 then rret None
          else if ver = 1 then
            rbind take_u16 (\<lambda>dlen.
            rbind (take_r (unat dlen)) (\<lambda>b.
              case sendme_tag_try_from b of
                None \<Rightarrow> rfail BadLengthValue
              | Some t \<Rightarrow> rret (Some t)))
          else rfail (InvalidMessage ''Unrecognized SENDME version.'')))
      ([1] @ to_be_bytes (of_nat (length ?b) :: u16) @ ?b @ []) m"
    using assms(1) Some len sendme_tag_try_from_as_ref [of t]
    by (intro parses_bind [OF parses_u8] parses_if_False parses_if_True parses_bind [OF parses_u16]
        parses_bind [OF parses_take]) (simp_all add: unat_of_nat parses_ret del: rret_apply)
  show ?thesis
    unfolding sendme_decode_def [abs_def] bs
    by (rule yields_nonempty [OF yields_parses_all [OF p]]) simp
qed

subsection \<open>Extend, Extend2\<close>

lemma rsa_identity_take_eq: "rsa_identity_take = take_r RSA_ID_LEN"
  by (rule ext) (auto simp: rsa_identity_take_def rbind_def take_r_eq)

lemma readable_extend [readable_intros]: "readable extend_decode"
  unfolding extend_decode_def rsa_identity_take_eq by (intro readable_intros)

interpretation cd_extend: codec extend_decode extend_encode
  "\<lambda>m. length (x_handshake m) = TAP_C_HANDSHAKE_LEN \<and> length (x_rsaid m) = RSA_ID_LEN"
proof (rule codec_parsesI, rule readable_extend)
  fix m :: extend_msg
  assume m: "length (x_handshake m) = TAP_C_HANDSHAKE_LEN \<and> length (x_rsaid m) = RSA_ID_LEN"
  show "wout (extend_encode m) =
      Inr (to_be_bytes (x_addr m) @ to_be_bytes (x_port m) @ x_handshake m @ x_rsaid m)"
    by (simp add: extend_encode_def wire_simps octets_def)
  show "parses extend_decode (to_be_bytes (x_addr m) @ to_be_bytes (x_port m) @ x_handshake m @ x_rsaid m) m"
    unfolding extend_decode_def rsa_identity_take_eq
    by (rule parses_intros | use m in simp)+
qed

lemma readable_link_spec [readable_intros]: "readable encoded_link_spec_take"
  unfolding encoded_link_spec_take_def
  by (intro readable_intros settled_bind settled_rest settled_readable [OF readable_ret])

interpretation cd_link_spec:
  codec encoded_link_spec_take encoded_link_spec_write "\<lambda>ls. length (ls_body ls) < 2 ^ 8"
proof (rule codec_parsesI, rule readable_link_spec)
  fix ls :: encoded_link_spec
  assume ls: "length (ls_body ls) < 2 ^ 8"
  show "wout (encoded_link_spec_write ls) =
      Inr ([lstype ls] @ [of_nat (length (ls_body ls))] @ ls_body ls)"
    using ls by (simp add: encoded_link_spec_write_def wire_simps)
  show "parses encoded_link_spec_take ([lstype ls] @ [of_nat (length (ls_body ls))] @ ls_body ls) ls"
    unfolding encoded_link_spec_take_def
    by (rule parses_bind [OF parses_u8], rule parses_nested_u8len) (use ls in \<open>simp_all add: run_inner_rest_map\<close>)
qed

lemma readable_extend2 [readable_intros]: "readable extend2_decode"
  unfolding extend2_decode_def by (intro readable_intros)

interpretation cd_extend2: codec extend2_decode extend2_encode
  "\<lambda>m. length (x2_linkspec m) < 2 ^ 8 \<and> list_all (\<lambda>ls. length (ls_body ls) < 2 ^ 8) (x2_linkspec m) \<and>
     length (x2_handshake m) < 2 ^ 16"
proof (rule codec.intro [OF readable_extend2], unfold_locales)
  fix m :: extend2_msg
  assume m: "length (x2_linkspec m) < 2 ^ 8 \<and>
     list_all (\<lambda>ls. length (ls_body ls) < 2 ^ 8) (x2_linkspec m) \<and> length (x2_handshake m) < 2 ^ 16"
  obtain ls where ls: "wout (wseq (map encoded_link_spec_write (x2_linkspec m))) = Inr ls"
      "parses (extract_loop (length (x2_linkspec m)) encoded_link_spec_take) ls (x2_linkspec m)"
    using cd_link_spec.list_round_trip [of "x2_linkspec m"] m by auto
  let ?bs = "[of_nat (length (x2_linkspec m))] @ ls @ to_be_bytes (x2_handshake_type m) @
     to_be_bytes (of_nat (length (x2_handshake m)) :: u16) @ x2_handshake m"
  have "wout (extend2_encode m) = Inr ?bs"
    using m ls(1) by (simp add: extend2_encode_def wout_wseq_Cons wout_simps wout_len)
  moreover have "parses extend2_decode ?bs m"
    unfolding extend2_decode_def
    by (rule parses_bind [OF parses_u8], rule parses_bind, rule parses_extract_n)
      (use m ls(2) in \<open>simp add: unat_of_nat\<close>,
       (rule parses_intros | use m in \<open>simp add: unat_of_nat\<close>)+)
  ultimately show "\<exists>bs. wout (extend2_encode m) = Inr bs \<and> parses extend2_decode bs m" by blast
qed

lemma extended2_eq: "extended2_decode = created2_take" "extended2_encode = created2_encode"
  by (simp_all add: fun_eq_iff extended2_decode_def extended2_encode_def created2_take_def created2_encode_def)

subsection \<open>Resolve, Resolved\<close>

definition resolved_val_valid :: "resolved_val \<Rightarrow> bool" where
  "resolved_val_valid v =
     (case v of
        Hostname h \<Rightarrow> length h < 2 ^ 8
      | RvUnrecognized tp b \<Rightarrow> length b < 2 ^ 8 \<and>
          tp \<notin> {RES_HOSTNAME, RES_IPV4, RES_IPV6, RES_ERR_TRANSIENT, RES_ERR_NONTRANSIENT}
      | _ \<Rightarrow> True)"

lemma parses_resolved_head:
  assumes "parses (if (case res_len tp of Some expected_len \<Rightarrow> unat l \<noteq> expected_len | None \<Rightarrow> False)
       then rfail (InvalidMessage ''Wrong length for RESOLVED answer'')
       else if tp = RES_HOSTNAME then rmap Hostname (take_r (unat l))
       else if tp = RES_IPV4 then rmap Ip (extract_r ipv4_take)
       else if tp = RES_IPV6 then rmap Ip (extract_r ipv6_take)
       else if tp = RES_ERR_TRANSIENT then rmap (\<lambda>_. TransientError) (advance (unat l))
       else if tp = RES_ERR_NONTRANSIENT then rmap (\<lambda>_. NontransientError) (advance (unat l))
       else rmap (RvUnrecognized tp) (take_r (unat l))) bs v"
  shows "parses resolved_val_take ([tp] @ [l] @ bs) v"
  unfolding resolved_val_take_def
  by (rule parses_bind [OF parses_u8], rule parses_bind [OF parses_map [OF parses_u8 refl]], rule assms)

interpretation cd_resolved_val: codec resolved_val_take resolved_val_write resolved_val_valid
proof (rule codec.intro [OF readable_resolved_val], unfold_locales)
  fix v
  assume v: "resolved_val_valid v"
  have "\<exists>tp l bs. wout (resolved_val_write v) = Inr ([tp] @ [l] @ bs) \<and>
    parses (if (case res_len tp of Some expected_len \<Rightarrow> unat l \<noteq> expected_len | None \<Rightarrow> False)
       then rfail (InvalidMessage ''Wrong length for RESOLVED answer'')
       else if tp = RES_HOSTNAME then rmap Hostname (take_r (unat l))
       else if tp = RES_IPV4 then rmap Ip (extract_r ipv4_take)
       else if tp = RES_IPV6 then rmap Ip (extract_r ipv6_take)
       else if tp = RES_ERR_TRANSIENT then rmap (\<lambda>_. TransientError) (advance (unat l))
       else if tp = RES_ERR_NONTRANSIENT then rmap (\<lambda>_. NontransientError) (advance (unat l))
       else rmap (RvUnrecognized tp) (take_r (unat l))) bs v"
  proof (cases v rule: resolved_val_write.cases)
    case (1 h)
    have "parses (rmap Hostname (take_r (length h))) h v"
      using 1 by (intro parses_map [OF parses_take]) simp_all
    then show ?thesis
      using 1 v by (intro exI [of _ RES_HOSTNAME] exI [of _ "of_nat (length h)"] exI [of _ h])
        (simp add: wire_simps res_len_def resolved_val_valid_def unat_of_nat)
  next
    case (2 a)
    have "parses (rmap Ip (extract_r ipv4_take)) (to_be_bytes a) v"
      using 2 by (intro parses_map [OF parses_extract [OF parses_ip(1)]]) simp
    then show ?thesis
      using 2 by (intro exI [of _ RES_IPV4] exI [of _ 4] exI [of _ "to_be_bytes a"])
        (simp add: wire_simps res_len_def octets_def)
  next
    case (3 a)
    have "parses (rmap Ip (extract_r ipv6_take)) (to_be_bytes a) v"
      using 3 by (intro parses_map [OF parses_extract [OF parses_ip(2)]]) simp
    then show ?thesis
      using 3 by (intro exI [of _ RES_IPV6] exI [of _ 16] exI [of _ "to_be_bytes a"])
        (simp add: wire_simps res_len_def octets_def)
  next
    case 4
    have "parses (rmap (\<lambda>_. TransientError) (advance 0)) [] v"
      using 4 by (intro parses_map [OF parses_advance]) simp_all
    then show ?thesis
      using 4 by (intro exI [of _ RES_ERR_TRANSIENT] exI [of _ 0] exI [of _ "[]"])
        (simp add: wire_simps res_len_def)
  next
    case 5
    have "parses (rmap (\<lambda>_. NontransientError) (advance 0)) [] v"
      using 5 by (intro parses_map [OF parses_advance]) simp_all
    then show ?thesis
      using 5 by (intro exI [of _ RES_ERR_NONTRANSIENT] exI [of _ 0] exI [of _ "[]"])
        (simp add: wire_simps res_len_def)
  next
    case (6 tp b)
    have "parses (rmap (RvUnrecognized tp) (take_r (length b))) b v"
      using 6 by (intro parses_map [OF parses_take]) simp_all
    then show ?thesis
      using 6 v by (intro exI [of _ tp] exI [of _ "of_nat (length b)"] exI [of _ b])
        (simp add: wire_simps res_len_def resolved_val_valid_def unat_of_nat)
  qed
  then show "\<exists>bs. wout (resolved_val_write v) = Inr bs \<and> parses resolved_val_take bs v"
    using parses_resolved_head by metis
qed

interpretation cd_resolved_answer: codec resolved_answer_take
  "\<lambda>(rv, ttl). wseq [resolved_val_write rv, write_u32 ttl]" "\<lambda>(rv, ttl). resolved_val_valid rv"
proof (rule codec.intro [OF readable_resolved_answer], unfold_locales)
  fix x :: "resolved_val \<times> u32"
  assume valid: "case x of (rv, ttl) \<Rightarrow> resolved_val_valid rv"
  obtain rv ttl where x: "x = (rv, ttl)" by (cases x)
  obtain bs where bs: "wout (resolved_val_write rv) = Inr bs" "parses resolved_val_take bs rv"
    using cd_resolved_val.round_trip [of rv] valid x by auto
  have "parses resolved_answer_take (bs @ to_be_bytes ttl) x"
    unfolding resolved_answer_take_def x
    by (rule parses_bind [OF parses_extract [OF bs(2)]], rule parses_bind_ret [OF parses_u32]) simp
  then show "\<exists>bs. wout (case x of (rv, ttl) \<Rightarrow> wseq [resolved_val_write rv, write_u32 ttl]) = Inr bs \<and>
      parses resolved_answer_take bs x"
    using bs(1) by (simp add: x wire_simps)
qed

lemma resolved_loop_yields:
  assumes "list_all (\<lambda>(rv, ttl). resolved_val_valid rv) m" and "wout (resolved_encode m) = Inr bs"
    and "reader_inv r" and "rest r = bs"
  shows "fst (resolved_loop r) = Inr m"
  using assms
proof (induction m arbitrary: bs r)
  case Nil
  then have "remaining r = 0"
    by (simp add: resolved_encode_def wire_simps flip: length_rest)
  then show ?case by (simp add: resolved_loop.simps [of r])
next
  case (Cons x m)
  have enc: "resolved_encode (x # m) = wseq ((case x of (rv, ttl) \<Rightarrow> wseq [resolved_val_write rv, write_u32 ttl]) #
      map (\<lambda>(rv, ttl). wseq [resolved_val_write rv, write_u32 ttl]) m)"
    by (simp add: resolved_encode_def)
  obtain as where as: "wout (case x of (rv, ttl) \<Rightarrow> wseq [resolved_val_write rv, write_u32 ttl]) = Inr as"
      "parses resolved_answer_take as x"
    using cd_resolved_answer.round_trip [of x] Cons.prems(1) by auto
  then obtain cs where cs: "wout (resolved_encode m) = Inr cs" "bs = as @ cs"
    using Cons.prems(2) by (auto simp: enc wout_wseq_Cons [of "case x of (rv, ttl) \<Rightarrow> wseq [resolved_val_write rv, write_u32 ttl]"]
        res_bind_Inr_iff resolved_encode_def)
  have step: "resolved_answer_take r = (Inr x, adv (length as) r)"
    using as(2) Cons.prems(3,4) cs(2) by (auto simp: parses_def)
  have len: "length as \<le> remaining r"
    using Cons.prems(4) cs(2) by (simp flip: length_rest)
  have "as \<noteq> []"
    using as(1) by (cases x) (auto simp: wire_simps res_bind_Inr_iff to_be_bytes_def)
  then have "0 < remaining r"
    using len by (cases as) auto
  moreover have "fst (resolved_loop (adv (length as) r)) = Inr m"
    using Cons.prems(1,3,4) cs len by (intro Cons.IH [OF _ cs(1)]) (auto intro: reader_inv_adv)
  ultimately show ?case
    using step by (cases "resolved_loop (adv (length as) r)") (simp add: resolved_loop.simps [of r])
qed

interpretation cd_resolve: codec resolve_decode resolve_encode "\<lambda>q. 0 \<notin> set q"
  by (rule codec_parsesI [where b = "\<lambda>q. q @ [0]"])
    (auto simp: resolve_decode_def resolve_encode_def wire_simps intro: readable_until parses_until)

subsection \<open>Xon, Xoff\<close>

lemma readable_xon [readable_intros]: "readable xon_decode" "readable xoff_decode"
  unfolding xon_decode_def xoff_decode_def by (intro readable_intros, simp)+

definition xon_valid :: "xon_msg \<Rightarrow> bool" where
  "xon_valid m \<longleftrightarrow> xon_version m = 0 \<and> xon_rate m \<noteq> Limited 0"

lemma XonKbpsEwma_roundtrip:
  "k \<noteq> Limited 0 \<Longrightarrow> XonKbpsEwma_decode (XonKbpsEwma_encode k) = k"
  by (auto simp: XonKbpsEwma_decode_def XonKbpsEwma_encode_def split: xon_kbps_ewma.splits)

interpretation cd_xon: codec xon_decode xon_encode xon_valid
proof (rule codec_parsesI, rule readable_xon)
  fix m
  assume m: "xon_valid m"
  show "wout (xon_encode m) = Inr ([0] @ to_be_bytes (XonKbpsEwma_encode (xon_rate m)))"
    using m by (simp add: xon_encode_def wire_simps xon_valid_def)
  have "m = \<lparr>xon_version = 0, xon_rate = xon_rate m\<rparr>"
    using m by (cases m) (simp add: xon_valid_def)
  then show "parses xon_decode ([0] @ to_be_bytes (XonKbpsEwma_encode (xon_rate m))) m"
    unfolding xon_decode_def using m XonKbpsEwma_roundtrip [of "xon_rate m"]
    by (intro parses_bind [OF parses_u8]) (auto simp: FlowCtrlVersion_new_def xon_valid_def
        simp del: rret_apply intro!: parses_bind_ret [OF parses_u32])
qed

interpretation cd_xoff: codec xoff_decode xoff_encode "\<lambda>v. v = 0"
proof (rule codec_parsesI [where b = "\<lambda>v. [v]"], rule readable_xon)
  fix v :: u8
  assume "v = 0"
  then show "parses xoff_decode [v] v"
    unfolding xoff_decode_def
    by (intro parses_bind [OF parses_u8, where bs = "[]", simplified append_Nil2])
      (simp add: FlowCtrlVersion_new_def parses_ret del: rret_apply)
qed (simp add: xoff_encode_def wire_simps)

definition conflux_link_valid :: "conflux_link \<Rightarrow> bool" where
  "conflux_link_valid m \<longleftrightarrow> lk_version m = CONFLUX_LINK_VERSION \<and> length (lk_nonce (lk_payload m)) = V1_LINK_NONCE_LEN"

lemma readable_conflux [readable_intros]: "readable v1_link_payload_decode" "readable conflux_link_decode" "readable conflux_switch_decode"
  unfolding v1_link_payload_decode_def conflux_link_decode_def conflux_switch_decode_def
  by (intro readable_intros; simp)+

interpretation cd_conflux_link: codec conflux_link_decode conflux_link_encode conflux_link_valid
proof (rule codec_parsesI, rule readable_conflux)
  fix m
  assume m: "conflux_link_valid m"
  let ?p = "lk_payload m"
  let ?b = "[1] @ lk_nonce ?p @ to_be_bytes (lk_last_seqno_sent ?p) @ to_be_bytes (lk_last_seqno_recv ?p) @ [lk_desired_ux ?p]"
  show "wout (conflux_link_encode m) = Inr ?b"
    using m by (simp add: conflux_link_encode_def v1_link_payload_encode_def wire_simps conflux_link_valid_def)
  have "parses v1_link_payload_decode (lk_nonce ?p @ to_be_bytes (lk_last_seqno_sent ?p) @ to_be_bytes (lk_last_seqno_recv ?p) @ [lk_desired_ux ?p]) ?p"
    unfolding v1_link_payload_decode_def using m
    by (intro parses_bind [OF parses_take] parses_bind [OF parses_u64] parses_bind_ret [OF parses_u8])
      (simp_all add: conflux_link_valid_def)
  moreover have "m = \<lparr>lk_version = 1, lk_payload = ?p\<rparr>" using m by (cases m) (simp add: conflux_link_valid_def)
  ultimately show "parses conflux_link_decode ?b m"
    unfolding conflux_link_decode_def
    by (intro parses_bind [OF parses_u8]) (auto simp del: rret_apply intro!: parses_bind_ret)
qed

section \<open>The enum\<close>

definition known_relay_cmds :: "relay_cmd set" where
  "known_relay_cmds = {RelayCmd_BEGIN, RelayCmd_DATA, RelayCmd_END, RelayCmd_CONNECTED, RelayCmd_SENDME,
     RelayCmd_EXTEND, RelayCmd_EXTENDED, RelayCmd_EXTEND2, RelayCmd_EXTENDED2, RelayCmd_TRUNCATE,
     RelayCmd_TRUNCATED, RelayCmd_DROP, RelayCmd_RESOLVE, RelayCmd_RESOLVED, RelayCmd_BEGIN_DIR,
     RelayCmd_CONFLUX_LINK, RelayCmd_CONFLUX_LINKED, RelayCmd_CONFLUX_LINKED_ACK, RelayCmd_CONFLUX_SWITCH,
     RelayCmd_XON, RelayCmd_XOFF}"

text \<open>The messages that the decoder can return unchanged.\<close>

fun any_relay_valid :: "any_relay_msg \<Rightarrow> bool" where
  "any_relay_valid (Begin m) = begin_valid m"
| "any_relay_valid (Data b) = (b \<noteq> [])"
| "any_relay_valid (End m) = (e_reason m = EndReason_EXITPOLICY \<or> e_addr m = None)"
| "any_relay_valid (Connected m) = (\<forall>t. m \<noteq> Some (V4 0, t))"
| "any_relay_valid (Sendme m) = (\<forall>t. m = Some t \<longrightarrow> sendme_tag_inv t)"
| "any_relay_valid (Extend m) =
     (length (x_handshake m) = TAP_C_HANDSHAKE_LEN \<and> length (x_rsaid m) = RSA_ID_LEN)"
| "any_relay_valid (Extended hs) = (length hs = TAP_S_HANDSHAKE_LEN)"
| "any_relay_valid (Extend2 m) =
     (length (x2_linkspec m) < 2 ^ 8 \<and> list_all (\<lambda>ls. length (ls_body ls) < 2 ^ 8) (x2_linkspec m) \<and>
      length (x2_handshake m) < 2 ^ 16)"
| "any_relay_valid (Extended2 hs) = (length hs < 2 ^ 16)"
| "any_relay_valid (Resolve q) = (0 \<notin> set q)"
| "any_relay_valid (Resolved m) = list_all (\<lambda>(rv, ttl). resolved_val_valid rv) m"
| "any_relay_valid (ConfluxLink m) = conflux_link_valid m"
| "any_relay_valid (ConfluxLinked m) = conflux_link_valid m"
| "any_relay_valid (Xon m) = xon_valid m"
| "any_relay_valid (Xoff v) = (v = 0)"
| "any_relay_valid (RelayUnrecognized u) = (u_cmd u \<notin> known_relay_cmds)"
| "any_relay_valid _ = True"

lemma yields_empty_body: "yields (rmap (\<lambda>_. c) empty_body_decode) bs c"
  by (simp add: yields_def rmap_def rbind_def empty_body_decode_def)

lemma any_relay_yields:
  assumes "any_relay_valid m" and "wout (any_relay_encode m) = Inr bs"
  shows "yields (any_relay_decode (any_relay_cmd m)) bs m"
proof (cases m)
  case (Begin x)
  then show ?thesis using assms begin_yields
    by (simp add: any_relay_decode_def yields_map)
next
  case (Data x)
  then have "yields data_decode bs x"
    using assms yields_nonempty [OF yields_remaining, of bs]
    by (simp add: data_decode_def [abs_def] data_encode_def wire_simps)
  then show ?thesis using Data by (simp add: any_relay_decode_def yields_map)
next
  case (End x)
  then show ?thesis using assms end_yields [of x bs]
    by (simp add: any_relay_decode_def yields_map)
next
  case (Connected x)
  then show ?thesis using assms connected_yields [of x bs]
    by (simp add: any_relay_decode_def yields_map)
next
  case (Sendme x)
  then show ?thesis using assms sendme_yields [of x bs]
    by (simp add: any_relay_decode_def yields_map)
next
  case (Extend x)
  then show ?thesis using assms yields_codec_all [OF cd_extend.codec_axioms, of x bs Extend]
    by (simp add: any_relay_decode_def)
next
  case (Extended x)
  then have "yields extended_decode bs x"
    using assms by (auto simp: extended_decode_def extended_encode_def wire_simps
        intro!: yields_parses_all parses_take)
  then show ?thesis using Extended by (simp add: any_relay_decode_def yields_map)
next
  case (Extend2 x)
  then show ?thesis using assms yields_codec_all [OF cd_extend2.codec_axioms, of x bs Extend2]
    by (simp add: any_relay_decode_def)
next
  case (Extended2 x)
  then show ?thesis using assms yields_codec_all [OF cd_created2.codec_axioms, of x bs Extended2]
    by (simp add: any_relay_decode_def extended2_eq)
next
  case (RTruncated x)
  then show ?thesis using assms yields_codec_all [OF cd_u8.codec_axioms, of x bs RTruncated]
    by (simp add: any_relay_decode_def truncated_decode_def truncated_encode_def)
next
  case (Resolve x)
  then show ?thesis using assms yields_codec_all [OF cd_resolve.codec_axioms, of x bs Resolve]
    by (simp add: any_relay_decode_def)
next
  case (Resolved x)
  then have "yields resolved_decode bs x"
    using assms resolved_loop_yields [of x bs] by (simp add: yields_def resolved_decode_def)
  then show ?thesis using Resolved by (simp add: any_relay_decode_def yields_map)
next
  case (ConfluxLink x)
  then show ?thesis using assms yields_codec_all [OF cd_conflux_link.codec_axioms, of x bs ConfluxLink]
    by (simp add: any_relay_decode_def)
next
  case (ConfluxLinked x)
  then show ?thesis using assms yields_codec_all [OF cd_conflux_link.codec_axioms, of x bs ConfluxLinked]
    by (simp add: any_relay_decode_def)
next
  case (ConfluxSwitch x)
  then show ?thesis using assms yields_codec_all [OF cd_u32.codec_axioms, of x bs ConfluxSwitch]
    by (simp add: any_relay_decode_def conflux_switch_decode_def conflux_switch_encode_def)
next
  case (Xon x)
  then show ?thesis using assms yields_codec_all [OF cd_xon.codec_axioms, of x bs Xon]
    by (simp add: any_relay_decode_def)
next
  case (Xoff x)
  then show ?thesis using assms yields_codec_all [OF cd_xoff.codec_axioms, of x bs Xoff]
    by (simp add: any_relay_decode_def)
next
  case (RelayUnrecognized u)
  then have bs: "bs = u_content u"
    using assms by (auto simp: relay_unrecognized_encode_def wire_simps)
  have "yields (relay_decode_with_cmd (u_cmd u)) bs u"
    using yields_map [OF yields_map [OF yields_remaining, of "\<lambda>b. \<lparr>u_cmd = 0, u_content = b\<rparr>"],
        of "\<lambda>v. v\<lparr>u_cmd := u_cmd u\<rparr>" bs]
    by (cases u) (simp add: relay_decode_with_cmd_def relay_unrecognized_decode_def rmap_def bs)
  then show ?thesis
    using RelayUnrecognized assms(1) by (simp add: any_relay_decode_def known_relay_cmds_def yields_map)
qed (simp_all add: any_relay_decode_def yields_empty_body)

section \<open>No decoder panics\<close>

lemma safe_peek [safe_intros]: "safe_rd (peek n)"
  by (simp add: safe_rd_def peek_eq)

text \<open>Decoders that branch on the reader.\<close>

lemma safe_if_state [safe_intros]:
  "safe_rd m \<Longrightarrow> safe_rd m' \<Longrightarrow> safe_rd (\<lambda>r. if P r then m r else m' r)"
  by (simp add: safe_rd_def)

lemma safe_pair [safe_intros]:
  "safe_rd (\<lambda>r. (Inr x, r))" "(\<And>msg. e \<noteq> Panicked msg) \<Longrightarrow> safe_rd (\<lambda>r. (Inl e, r))"
  by (simp_all add: safe_rd_def)

lemma safe_option_case [safe_intros]:
  "safe_rd m \<Longrightarrow> (\<And>x. safe_rd (f x)) \<Longrightarrow> safe_rd (case p of None \<Rightarrow> m | Some x \<Rightarrow> f x)"
  by (cases p) auto

lemma safe_begin [safe_intros]: "safe_rd begin_decode"
  unfolding begin_decode_def by (intro safe_intros; simp)

lemma safe_ip [safe_intros]: "safe_rd ipv4_take" "safe_rd ipv6_take"
  unfolding ipv4_take_def ipv6_take_def by (intro safe_intros)+

lemma safe_end_ttl [safe_intros]: "safe_rd end_ttl"
  unfolding end_ttl_def [abs_def] by (intro safe_intros)

lemma safe_end [safe_intros]: "safe_rd end_decode"
  unfolding end_decode_def [abs_def]
  by (intro safe_intros)

lemma safe_relay_bodies [safe_intros]:
  "safe_rd data_decode" "safe_rd connected_decode" "safe_rd sendme_decode" "safe_rd extend_decode"
  "safe_rd extended_decode" "safe_rd extend2_decode" "safe_rd extended2_decode"
  "safe_rd truncated_decode" "safe_rd resolve_decode" "safe_rd xon_decode" "safe_rd xoff_decode"
  "safe_rd conflux_link_decode" "safe_rd conflux_switch_decode"
  "safe_rd empty_body_decode" "safe_rd (relay_decode_with_cmd cmd)"
  unfolding data_decode_def [abs_def] connected_decode_def [abs_def] sendme_decode_def [abs_def]
    extend_decode_def rsa_identity_take_eq extended_decode_def extend2_decode_def extract_n_eq
    encoded_link_spec_take_def extended2_decode_def truncated_decode_def resolve_decode_def
    xon_decode_def xoff_decode_def empty_body_decode_def relay_decode_with_cmd_def
    relay_unrecognized_decode_def conflux_link_decode_def v1_link_payload_decode_def conflux_switch_decode_def
  by ((intro safe_intros; simp)+)

lemma safe_resolved_val [safe_intros]: "safe_rd resolved_val_take"
  unfolding resolved_val_take_def by (intro safe_intros; simp)

lemma safe_resolved_answer [safe_intros]: "safe_rd resolved_answer_take"
  unfolding resolved_answer_take_def by (intro safe_intros)

lemma resolved_loop_frame:
  "reader_inv r \<Longrightarrow> reader_inv (snd (resolved_loop r)) \<and> r_b (snd (resolved_loop r)) = r_b r \<and>
     (\<forall>msg. fst (resolved_loop r) \<noteq> Inl (Panicked msg))"
proof (induction r rule: resolved_loop.induct)
  case (1 r)
  have safe: "reader_inv (snd (resolved_answer_take r))" "r_b (snd (resolved_answer_take r)) = r_b r"
    "\<forall>msg. fst (resolved_answer_take r) \<noteq> Inl (Panicked msg)"
    using safe_resolved_answer 1(2) by (simp_all add: safe_rd_def)
  show ?case
  proof (cases "remaining r > 0")
    case True
    obtain res r' where ans: "resolved_answer_take r = (res, r')" by (cases "resolved_answer_take r")
    show ?thesis
    proof (cases res)
      case (Inl e)
      with ans safe True show ?thesis by (simp add: resolved_loop.simps [of r])
    next
      case (Inr a)
      have "reader_inv (snd (resolved_loop r')) \<and> r_b (snd (resolved_loop r')) = r_b r' \<and>
          (\<forall>msg. fst (resolved_loop r') \<noteq> Inl (Panicked msg))"
        using 1(1) [OF True ans [symmetric] Inr] safe(1) ans by simp
      then show ?thesis
        using True ans Inr safe(2)
        by (cases "resolved_loop r'"; cases "fst (resolved_loop r')")
          (auto simp: resolved_loop.simps [of r])
    qed
  next
    case False
    with 1(2) show ?thesis by (simp add: resolved_loop.simps [of r])
  qed
qed

lemma safe_resolved [safe_intros]: "safe_rd resolved_decode"
  by (simp add: safe_rd_def resolved_decode_def resolved_loop_frame)

lemma safe_any_relay [safe_intros]: "safe_rd (any_relay_decode cmd)"
  unfolding any_relay_decode_def by (intro safe_intros)

end
