(* ===== verification/Relay_Cell.thy ===== *)
theory Relay_Cell
  imports Relay_Msg
begin

text \<open>
  Relay cells (\<open>tor-cell/src/relaycell.rs\<close>): a relay message with its stream identifier is
  encoded into the 509-byte body of a RELAY cell, in the V0 or the V1 format, through a
  \<open>SliceWriter\<close> over a zeroed body; the unused end is filled from a random generator, which
  is the parameter \<open>fill\<close> (\<open>fill n\<close> are the \<open>n\<close> bytes it produces). Unparsed messages are
  bodies that are peeked into at fixed offsets. The \<open>debug_assert!\<close>s of the source are not
  part of the model.
\<close>

section \<open>Encoding\<close>

record 'm relay_msg_outer =
  streamid :: "stream_id option"
  rmsg :: 'm

abbreviation BODY_MAX_LEN :: nat where "BODY_MAX_LEN \<equiv> 509"

definition set_be16 :: "nat \<Rightarrow> nat \<Rightarrow> bytes \<Rightarrow> bytes" where
  "set_be16 pos n body = take pos body @ to_be_bytes (of_nat n :: u16) @ drop (pos + 2) body"

text \<open>Writing a message with a \<open>SliceWriter\<close>, and unwrapping it.\<close>

definition finish_body ::
  "nat \<Rightarrow> nat \<Rightarrow> wr \<Rightarrow> slice_writer \<Rightarrow> encode_error + (bytes \<times> nat)" where
  "finish_body len_pos body_pos enc w =
     (case snd enc of
        Some e \<Rightarrow> Inl e
      | None \<Rightarrow>
          (case sw_try_unwrap (fold sw_write_all (fst enc) w) of
             Inl _ \<Rightarrow> Inl (EBug ''Encoding of relay message was too long to fit into a cell!'')
           | Inr (body, written) \<Rightarrow>
               (let payload_len = written - body_pos in
                Inr (set_be16 len_pos payload_len body, written))))"

definition encode_to_cell_v0 ::
  "('m \<Rightarrow> relay_cmd) \<Rightarrow> ('m \<Rightarrow> wr) \<Rightarrow> 'm relay_msg_outer \<Rightarrow> encode_error + (bytes \<times> nat)" where
  "encode_to_cell_v0 cmd_of encode_onto self =
     (let w = sw_new (replicate BODY_MAX_LEN 0);
          w = sw_write_all [cmd_of (rmsg self)] w;
          w = sw_write_all (to_be_bytes (0 :: u16)) w;
          w = sw_write_all (to_be_bytes (StreamId_get_or_zero (streamid self))) w;
          w = sw_write_all (to_be_bytes (0 :: u32)) w;
          w = sw_write_all (to_be_bytes (0 :: u16)) w in
      finish_body 9 11 (encode_onto (rmsg self)) w)"

definition encode_to_cell_v1 ::
  "('m \<Rightarrow> relay_cmd) \<Rightarrow> ('m \<Rightarrow> wr) \<Rightarrow> 'm relay_msg_outer \<Rightarrow> encode_error + (bytes \<times> nat)" where
  "encode_to_cell_v1 cmd_of encode_onto self =
     (let cmd = cmd_of (rmsg self);
          w = sw_new (replicate BODY_MAX_LEN 0);
          w = sw_advance 16 w;
          w = sw_write_all [cmd] w;
          w = sw_advance 2 w in
      case (expects_streamid cmd (Some FmtV1), streamid self) of
        (SWantNone, None) \<Rightarrow> finish_body 17 19 (encode_onto (rmsg self)) w
      | (SWantSome, Some sid) \<Rightarrow>
          finish_body 17 21 (encode_onto (rmsg self)) (sw_write_all (to_be_bytes sid) w)
      | _ \<Rightarrow> Inl (EBug ''Tried to encode invalid stream ID''))"

definition encode_relay ::
  "('m \<Rightarrow> relay_cmd) \<Rightarrow> ('m \<Rightarrow> wr) \<Rightarrow> relay_cell_format \<Rightarrow> (nat \<Rightarrow> bytes) \<Rightarrow> 'm relay_msg_outer \<Rightarrow>
     cell_error + bytes" where
  "encode_relay cmd_of encode_onto format fill self =
     (case (case format of
              FmtV0 \<Rightarrow> encode_to_cell_v0 cmd_of encode_onto self
            | FmtV1 \<Rightarrow> encode_to_cell_v1 cmd_of encode_onto self) of
        Inl e \<Rightarrow> Inl (EncodeErr e)
      | Inr (body, enc_len) \<Rightarrow>
          (if enc_len < CELL_DATA_LEN - 4
           then Inr (take (enc_len + 4) body @ fill (length body - (enc_len + 4)))
           else Inr body))"

section \<open>Decoding\<close>

datatype unparsed_relay_msg = UnparsedV0 bytes | UnparsedV1 bytes

record incomplete_relay_msg_info =
  i_cmd :: relay_cmd
  i_stream_id :: "stream_id option"
  i_total_msg_len :: nat
  i_num_bytes_present :: nat

record relay_cell_decoder_result =
  rc_msgs :: "unparsed_relay_msg list"
  rc_incomplete :: "incomplete_relay_msg_info option"

definition decoder_decode :: "relay_cell_format \<Rightarrow> bytes \<Rightarrow> bytes_error + relay_cell_decoder_result" where
  "decoder_decode decoder cell =
     (let msg_internal = (case decoder of FmtV0 \<Rightarrow> UnparsedV0 cell | FmtV1 \<Rightarrow> UnparsedV1 cell) in
      Inr \<lparr>rc_msgs = [msg_internal], rc_incomplete = None\<rparr>)"

definition from_singleton_body :: "relay_cell_format \<Rightarrow> bytes \<Rightarrow> bytes_error + unparsed_relay_msg" where
  "from_singleton_body version body =
     res_bind (decoder_decode version body) (\<lambda>res.
       case rc_msgs res of
         [] \<Rightarrow> Inl MissingData
       | m # ms \<Rightarrow>
           (if rc_incomplete res \<noteq> None then Inl ExtraneousBytes
            else if ms \<noteq> [] then Inl ExtraneousBytes
            else Inr m))"

definition unparsed_cmd :: "unparsed_relay_msg \<Rightarrow> relay_cmd" where
  "unparsed_cmd u = (case u of UnparsedV0 body \<Rightarrow> body ! 0 | UnparsedV1 body \<Rightarrow> body ! 16)"

definition unparsed_stream_id :: "unparsed_relay_msg \<Rightarrow> stream_id option" where
  "unparsed_stream_id u =
     (case u of
        UnparsedV0 body \<Rightarrow> StreamId_new (from_be_bytes (take 2 (drop 3 body)))
      | UnparsedV1 body \<Rightarrow>
          (case expects_streamid (unparsed_cmd u) (Some FmtV1) of
             SWantNone \<Rightarrow> None
           | SUnrecognized \<Rightarrow> None
           | SAny \<Rightarrow> None
           | SWantSome \<Rightarrow> StreamId_new (from_be_bytes (take 2 (drop 19 body)))))"

definition data_len :: "unparsed_relay_msg \<Rightarrow> bytes_error + u16" where
  "data_len u =
     (if unparsed_cmd u \<noteq> RelayCmd_DATA then Inr 0
      else
        (let len = from_be_bytes (case u of
                      UnparsedV0 body \<Rightarrow> take 2 (drop 9 body)
                    | UnparsedV1 body \<Rightarrow> take 2 (drop 17 body));
             mx = (case u of UnparsedV0 _ \<Rightarrow> 509 | UnparsedV1 _ \<Rightarrow> 509) in
         if len > mx then Inl BadLengthValue else Inr len))"

text \<open>The check of the remaining length and the truncation, as both decoders do them.\<close>

definition limit_to :: "nat \<Rightarrow> unit rd" where
  "limit_to len r =
     (if remaining r < len then (Inl (InvalidMessage ''Insufficient data in relay cell''), r)
      else truncate_r len r)"

definition decode_v0_from_reader :: "(relay_cmd \<Rightarrow> 'm rd) \<Rightarrow> 'm relay_msg_outer rd" where
  "decode_v0_from_reader decode_from_reader =
     rbind take_u8 (\<lambda>cmd.
     rbind (advance 2) (\<lambda>_.
     rbind (rmap StreamId_new take_u16) (\<lambda>sid.
     rbind (advance 4) (\<lambda>_.
     rbind (rmap unat take_u16) (\<lambda>len.
     rbind (limit_to len) (\<lambda>_.
     rbind (decode_from_reader cmd) (\<lambda>m.
     rret \<lparr>streamid = sid, rmsg = m\<rparr>)))))))"

definition v1_streamid :: "relay_cmd \<Rightarrow> stream_id option rd" where
  "v1_streamid cmd =
     (case expects_streamid cmd (Some FmtV1) of
        SWantNone \<Rightarrow> rret None
      | SWantSome \<Rightarrow>
          rbind take_u16 (\<lambda>id.
            case StreamId_new id of
              Some s \<Rightarrow> rret (Some s)
            | None \<Rightarrow> rfail (InvalidMessage ''Zero-valued stream ID with relay command''))
      | SUnrecognized \<Rightarrow> rfail (InvalidMessage ''Unrecognized relay command'')
      | SAny \<Rightarrow> rfail (InvalidMessage ''Unrecognized relay command''))"

definition decode_v1_from_reader :: "(relay_cmd \<Rightarrow> 'm rd) \<Rightarrow> 'm relay_msg_outer rd" where
  "decode_v1_from_reader decode_from_reader =
     rbind (advance 16) (\<lambda>_.
     rbind take_u8 (\<lambda>cmd.
     rbind (rmap unat take_u16) (\<lambda>len.
     rbind (v1_streamid cmd) (\<lambda>sid.
     rbind (limit_to len) (\<lambda>_.
     rbind (decode_from_reader cmd) (\<lambda>m.
     rret \<lparr>streamid = sid, rmsg = m\<rparr>))))))"

definition unparsed_decode ::
  "(relay_cmd \<Rightarrow> 'm rd) \<Rightarrow> unparsed_relay_msg \<Rightarrow> bytes_error + 'm relay_msg_outer" where
  "unparsed_decode dec u =
     (case u of
        UnparsedV0 body \<Rightarrow> fst (decode_v0_from_reader dec (from_slice body))
      | UnparsedV1 body \<Rightarrow> fst (decode_v1_from_reader dec (from_slice body)))"

definition decode_singleton ::
  "(relay_cmd \<Rightarrow> 'm rd) \<Rightarrow> relay_cell_format \<Rightarrow> bytes \<Rightarrow> bytes_error + 'm relay_msg_outer" where
  "decode_singleton dec version body =
     res_bind (from_singleton_body version body) (unparsed_decode dec)"

section \<open>Layout of an encoded body\<close>

text \<open>In the V1 format the command decides whether there is a stream identifier.\<close>

definition v1_id_ok :: "relay_cmd \<Rightarrow> stream_id option \<Rightarrow> bool" where
  "v1_id_ok cmd sid =
     (case expects_streamid cmd (Some FmtV1) of
        SWantNone \<Rightarrow> sid = None
      | SWantSome \<Rightarrow> sid \<noteq> None
      | _ \<Rightarrow> False)"

text \<open>The bytes in front of the message, with the length filled in.\<close>

definition header_v0 :: "relay_cmd \<Rightarrow> stream_id option \<Rightarrow> nat \<Rightarrow> bytes" where
  "header_v0 cmd sid len =
     [cmd] @ to_be_bytes (0 :: u16) @ to_be_bytes (StreamId_get_or_zero sid) @
     to_be_bytes (0 :: u32) @ to_be_bytes (of_nat len :: u16)"

definition header_v1 :: "relay_cmd \<Rightarrow> stream_id option \<Rightarrow> nat \<Rightarrow> bytes" where
  "header_v1 cmd sid len =
     replicate 16 0 @ [cmd] @ to_be_bytes (of_nat len :: u16) @
     (case sid of Some s \<Rightarrow> to_be_bytes s | None \<Rightarrow> [])"

lemma length_headers:
  "length (header_v0 cmd sid len) = 11"
  "length (header_v1 cmd sid len) = (case sid of Some _ \<Rightarrow> 21 | None \<Rightarrow> 19)"
  by (simp_all add: header_v0_def header_v1_def length_to_be_bytes split: option.splits)

text \<open>A writer that has written \<open>pre\<close> into a zeroed body.\<close>

definition sw_at :: "bytes \<Rightarrow> slice_writer" where
  "sw_at pre = \<lparr>sw_data = pre @ replicate (BODY_MAX_LEN - length pre) 0, sw_offset = length pre\<rparr>"

lemma sw_at_write:
  "length pre + length b \<le> BODY_MAX_LEN \<Longrightarrow> sw_write_all b (sw_at pre) = sw_at (pre @ b)"
  by (simp add: sw_write_all_def sw_at_def saturating_add_n_def Let_def min_def)

lemma sw_at_advance:
  "length pre + n \<le> BODY_MAX_LEN \<Longrightarrow> sw_advance n (sw_at pre) = sw_at (pre @ replicate n 0)"
  by (simp add: sw_advance_def sw_at_def saturating_add_n_def Let_def min_def
      flip: replicate_add)

lemma sw_at_new: "sw_new (replicate BODY_MAX_LEN 0) = sw_at []"
  by (simp add: sw_new_def sw_at_def)

abbreviation too_long_error :: encode_error where
  "too_long_error \<equiv> EBug ''Encoding of relay message was too long to fit into a cell!''"

lemma finish_body_at:
  assumes "wout enc = Inr bs" and "length pre \<le> BODY_MAX_LEN"
  shows "finish_body len_pos body_pos enc (sw_at pre) =
    (if length pre + length bs \<le> BODY_MAX_LEN
     then Inr (set_be16 len_pos (length pre + length bs - body_pos)
            (pre @ bs @ replicate (BODY_MAX_LEN - length pre - length bs) 0), length pre + length bs)
     else Inl too_long_error)"
proof -
  have bs: "concat (fst enc) = bs" "snd enc = None"
    using assms(1) by (simp_all add: wout_def split: option.splits)
  have wf: "sw_wf (sw_at pre)" "sw_contents (sw_at pre) = Some pre" "sw_offset (sw_at pre) \<noteq> usize_max"
    using assms(2) by (simp_all add: sw_wf_def sw_at_def sw_contents_def)
  show ?thesis
  proof (cases "length pre + length bs \<le> BODY_MAX_LEN")
    case True
    then have "sw_fits (sw_at pre) (length (concat (fst enc)))"
      by (simp add: sw_fits_def sw_at_def bs)
    from sw_tail_kept [OF wf(1) this wf(3)] show ?thesis
      using True by (simp add: finish_body_def bs sw_try_unwrap_def sw_offset_res_def sw_at_def)
  next
    case False
    then have "sw_contents (fold sw_write_all (fst enc) (sw_at pre)) = None"
      using sw.run_blocks [OF wf(1,2), of "fst enc"] assms(2) by (simp add: sw_fits_def sw_at_def bs)
    with False show ?thesis
      by (simp add: finish_body_def bs sw_try_unwrap_def sw_offset_res_def sw_contents_def split: if_splits)
  qed
qed

lemma finish_body_err: "wout enc = Inl e \<Longrightarrow> finish_body len_pos body_pos enc w = Inl e"
  by (simp add: finish_body_def wout_def split: option.splits)

lemma encode_v0_eq:
  assumes "wout (enc (rmsg self)) = Inr bs"
  shows "encode_to_cell_v0 cmd_of enc self =
    (if length bs \<le> 498
     then Inr (header_v0 (cmd_of (rmsg self)) (streamid self) (length bs) @ bs @ replicate (498 - length bs) 0,
               11 + length bs)
     else Inl too_long_error)"
proof -
  let ?pre = "header_v0 (cmd_of (rmsg self)) (streamid self) 0"
  have "encode_to_cell_v0 cmd_of enc self = finish_body 9 11 (enc (rmsg self)) (sw_at ?pre)"
    by (simp add: encode_to_cell_v0_def sw_at_new sw_at_write header_v0_def length_to_be_bytes)
  moreover have "set_be16 9 (length bs) (?pre @ ys) =
      header_v0 (cmd_of (rmsg self)) (streamid self) (length bs) @ ys" for ys
    by (simp add: set_be16_def header_v0_def length_to_be_bytes)
  ultimately show ?thesis
    using finish_body_at [OF assms, of ?pre 9 11] by (simp add: length_headers)
qed

lemma encode_v1_eq:
  assumes "wout (enc (rmsg self)) = Inr bs"
    and "v1_id_ok (cmd_of (rmsg self)) (streamid self)"
    and "hl = (case streamid self of Some _ \<Rightarrow> 21 | None \<Rightarrow> 19)"
  shows "encode_to_cell_v1 cmd_of enc self =
    (if length bs \<le> BODY_MAX_LEN - hl
     then Inr (header_v1 (cmd_of (rmsg self)) (streamid self) (length bs) @ bs @
                 replicate (BODY_MAX_LEN - hl - length bs) 0, hl + length bs)
     else Inl too_long_error)"
proof -
  let ?pre = "header_v1 (cmd_of (rmsg self)) (streamid self) 0"
  have zero: "to_be_bytes (0 :: u16) = replicate 2 0"
    by (simp add: to_be_bytes_def numeral_2_eq_2)
  have "encode_to_cell_v1 cmd_of enc self = finish_body 17 hl (enc (rmsg self)) (sw_at ?pre)"
    using assms(2,3)
    by (auto simp: v1_id_ok_def encode_to_cell_v1_def sw_at_new sw_at_write sw_at_advance header_v1_def zero
        length_to_be_bytes split: stream_id_req.splits option.splits)
  moreover have "set_be16 17 (length bs) (?pre @ ys) =
      header_v1 (cmd_of (rmsg self)) (streamid self) (length bs) @ ys" for ys
    by (simp add: set_be16_def header_v1_def length_to_be_bytes)
  ultimately show ?thesis
    using finish_body_at [OF assms(1), of ?pre 17 hl] assms(3)
    by (simp add: length_headers split: option.splits)
qed

lemma encode_v1_bad_id:
  assumes "\<not> v1_id_ok (cmd_of (rmsg self)) (streamid self)"
  shows "encode_to_cell_v1 cmd_of enc self = Inl (EBug ''Tried to encode invalid stream ID'')"
  using assms
  by (auto simp: v1_id_ok_def encode_to_cell_v1_def Let_def split: stream_id_req.splits option.splits)

section \<open>Decoding an encoded body\<close>

lemma limit_to_spec:
  assumes "reader_inv r" and "rest r = bs @ pad"
  shows "\<exists>r'. limit_to (length bs) r = (Inr (), r') \<and> reader_inv r' \<and> rest r' = bs"
proof -
  have rem: "remaining r = length bs + length pad"
    using assms(2) by (simp flip: length_rest)
  show ?thesis
  proof (cases "pad = []")
    case True
    then show ?thesis using assms rem by (simp add: limit_to_def truncate_r_def)
  next
    case False
    then have "length bs < remaining r" using rem by simp
    moreover have "rest (r\<lparr>r_b := take (r_off r + length bs) (r_b r)\<rparr>) = bs"
      using assms(2) by (simp add: rest_def drop_take)
    ultimately show ?thesis
      using assms(1) by (auto simp: limit_to_def truncate_r_def reader_inv_def)
  qed
qed

lemma yields_limit:
  assumes "yields m bs x"
  shows "yields (rbind (limit_to (length bs)) (\<lambda>_. m)) (bs @ pad) x"
  using assms limit_to_spec [of _ bs pad] unfolding yields_def by fastforce

lemma decode_v0_yields:
  assumes "yields (dec cmd) bs m" and "length bs < 2 ^ 16" and "length g = 2" and "length g' = 4"
  shows "yields (decode_v0_from_reader dec)
     ([cmd] @ g @ to_be_bytes (StreamId_get_or_zero sid) @ g' @ to_be_bytes (of_nat (length bs) :: u16) @ bs @ pad)
     \<lparr>streamid = StreamId_new (StreamId_get_or_zero sid), rmsg = m\<rparr>"
proof -
  let ?o = "\<lambda>m. \<lparr>streamid = StreamId_new (StreamId_get_or_zero sid), rmsg = m\<rparr>"
  have "yields (rbind (limit_to (length bs)) (\<lambda>_. rbind (dec cmd) (\<lambda>m. rret (?o m)))) (bs @ pad) (?o m)"
    using yields_limit [OF yields_map [OF assms(1), of ?o]] by (simp add: rmap_def)
  then show ?thesis
    using assms(2-4) unfolding decode_v0_from_reader_def
    by (intro yields_bind [OF parses_u8] yields_bind [OF parses_advance]
        yields_bind [OF parses_map [OF parses_u16]])
      (simp_all add: unat_of_nat)
qed

lemma v1_streamid_parses:
  assumes "v1_id_ok cmd sid" and "sid \<noteq> Some 0"
  shows "parses (v1_streamid cmd) (case sid of Some s \<Rightarrow> to_be_bytes s | None \<Rightarrow> []) sid"
proof (cases sid)
  case None
  then show ?thesis
    using assms(1) by (auto simp: v1_id_ok_def v1_streamid_def parses_ret simp del: rret_apply split: stream_id_req.splits)
next
  case (Some s)
  then have "expects_streamid cmd (Some FmtV1) = SWantSome" "s \<noteq> 0"
    using assms by (auto simp: v1_id_ok_def split: stream_id_req.splits)
  then show ?thesis
    using parses_bind [OF parses_u16 [of s], of "\<lambda>id. case StreamId_new id of
              Some s \<Rightarrow> rret (Some s)
            | None \<Rightarrow> rfail (InvalidMessage ''Zero-valued stream ID with relay command'')" "[]" sid] Some
    by (simp add: v1_streamid_def StreamId_new_def parses_ret del: rret_apply)
qed

lemma decode_v1_yields:
  assumes "yields (dec cmd) bs m" and "length bs < 2 ^ 16"
    and "v1_id_ok cmd sid" and "sid \<noteq> Some 0" and "length g = 16"
  shows "yields (decode_v1_from_reader dec)
     (g @ [cmd] @ to_be_bytes (of_nat (length bs) :: u16) @
      (case sid of Some s \<Rightarrow> to_be_bytes s | None \<Rightarrow> []) @ bs @ pad)
     \<lparr>streamid = sid, rmsg = m\<rparr>"
proof -
  let ?o = "\<lambda>m. \<lparr>streamid = sid, rmsg = m\<rparr>"
  have "yields (rbind (limit_to (length bs)) (\<lambda>_. rbind (dec cmd) (\<lambda>m. rret (?o m)))) (bs @ pad) (?o m)"
    using yields_limit [OF yields_map [OF assms(1), of ?o]] by (simp add: rmap_def)
  then show ?thesis
    using assms(2,5) unfolding decode_v1_from_reader_def
    by (intro yields_bind [OF parses_advance] yields_bind [OF parses_u8]
        yields_bind [OF parses_map [OF parses_u16]] yields_bind [OF v1_streamid_parses [OF assms(3,4)]])
      (simp_all add: unat_of_nat)
qed

text \<open>The part of a body that a format uses; relay encryption has the rest for itself.\<close>

definition body_fields :: "relay_cell_format \<Rightarrow> bytes \<Rightarrow> bytes" where
  "body_fields format body =
     (case format of
        FmtV0 \<Rightarrow> take 1 body @ take 2 (drop 3 body) @ drop 9 body
      | FmtV1 \<Rightarrow> drop 16 body)"

lemma cell_parts:
  assumes "length cell = 509"
  obtains a r b d rest where "cell = a @ r @ b @ d @ rest" "length a = 1" "length r = 2" "length b = 2" "length d = 4"
proof (rule that)
  have "cell = take 1 cell @ drop 1 cell" "drop 1 cell = take 2 (drop 1 cell) @ drop 3 cell"
    "drop 3 cell = take 2 (drop 3 cell) @ drop 5 cell" "drop 5 cell = take 4 (drop 5 cell) @ drop 9 cell"
    using append_take_drop_id [of 2 "drop 1 cell"] append_take_drop_id [of 2 "drop 3 cell"]
      append_take_drop_id [of 4 "drop 5 cell"] by simp_all
  then show "cell = take 1 cell @ take 2 (drop 1 cell) @ take 2 (drop 3 cell) @ take 4 (drop 5 cell) @ drop 9 cell"
    by metis
qed (use assms in simp_all)

lemma body_fields_v0:
  assumes "length body = 509" and "body_fields FmtV0 body = body_fields FmtV0 (header_v0 cmd sid n @ ys)"
  obtains g g' where "body = [cmd] @ g @ to_be_bytes (StreamId_get_or_zero sid) @ g' @ to_be_bytes (of_nat n :: u16) @ ys"
    "length g = 2" "length g' = 4"
proof -
  obtain a r b d t where p: "body = a @ r @ b @ d @ t" "length a = 1" "length r = 2" "length b = 2" "length d = 4"
    using cell_parts [OF assms(1)] .
  have "a @ b @ t = [cmd] @ to_be_bytes (StreamId_get_or_zero sid) @ to_be_bytes (of_nat n :: u16) @ ys"
    using assms(2) p by (simp add: body_fields_def header_v0_def length_to_be_bytes)
  then have "a = [cmd] \<and> b @ t = to_be_bytes (StreamId_get_or_zero sid) @ to_be_bytes (of_nat n :: u16) @ ys"
    by (subst append_eq_append_conv [symmetric]) (simp_all add: p(2))
  moreover from this have "b = to_be_bytes (StreamId_get_or_zero sid) \<and> t = to_be_bytes (of_nat n :: u16) @ ys"
    by (subst append_eq_append_conv [symmetric]) (simp_all add: p(4) length_to_be_bytes)
  ultimately have "a = [cmd]" "b = to_be_bytes (StreamId_get_or_zero sid)" "t = to_be_bytes (of_nat n :: u16) @ ys" by auto
  then show ?thesis using that p by simp
qed

lemma body_fields_v1:
  assumes "length body = 509" and "body_fields FmtV1 body = body_fields FmtV1 (header_v1 cmd sid n @ ys)"
  obtains g where "body = g @ [cmd] @ to_be_bytes (of_nat n :: u16) @
      (case sid of Some s \<Rightarrow> to_be_bytes s | None \<Rightarrow> []) @ ys" "length g = 16"
proof (rule that)
  have "drop 16 body = [cmd] @ to_be_bytes (of_nat n :: u16) @ (case sid of Some s \<Rightarrow> to_be_bytes s | None \<Rightarrow> []) @ ys"
    using assms(2) by (simp add: body_fields_def header_v1_def)
  then show "body = take 16 body @ [cmd] @ to_be_bytes (of_nat n :: u16) @
      (case sid of Some s \<Rightarrow> to_be_bytes s | None \<Rightarrow> []) @ ys"
    using append_take_drop_id [of 16 body] by simp
  show "length (take 16 body) = 16" using assms(1) by simp
qed

text \<open>The accessors that peek at an encoded body.\<close>

lemma header_v0_fields:
  "(header_v0 cmd sid n @ ys) ! 0 = cmd"
  "take 2 (drop 3 (header_v0 cmd sid n @ ys)) = to_be_bytes (StreamId_get_or_zero sid)"
  "take 2 (drop 9 (header_v0 cmd sid n @ ys)) = to_be_bytes (of_nat n :: u16)"
  by (simp_all add: header_v0_def length_to_be_bytes)

lemma header_v1_fields:
  "(header_v1 cmd sid n @ ys) ! 16 = cmd"
  "take 2 (drop 17 (header_v1 cmd sid n @ ys)) = to_be_bytes (of_nat n :: u16)"
  "sid = Some s \<Longrightarrow> take 2 (drop 19 (header_v1 cmd sid n @ ys)) = to_be_bytes s"
  by (simp_all add: header_v1_def length_to_be_bytes nth_append)

lemma take_u8_eq:
  "take_u8 r =
     (if remaining r = 0 then (Inl (incomplete_error r 1), r) else (Inr (hd (rest r)), adv 1 r))"
  by (cases "rest r") (auto simp: take_u8_def rbind_def take_r_eq simp flip: length_rest)

lemma remaining_from_slice [simp]: "remaining (from_slice bs) = length bs"
  by (simp flip: length_rest)

lemma rest_Nil_iff: "rest r = [] \<longleftrightarrow> remaining r = 0"
  by (simp flip: length_rest)

section \<open>Message types\<close>

text \<open>The \<open>RelayMsg\<close> trait.\<close>

locale relay_msg =
  fixes cmd_of :: "'m \<Rightarrow> relay_cmd"
    and encode_onto :: "'m \<Rightarrow> wr"
    and decode_from_reader :: "relay_cmd \<Rightarrow> 'm rd"
    and valid :: "'m \<Rightarrow> bool"
  assumes round_trip: "valid m \<Longrightarrow> wout (encode_onto m) = Inr bs \<Longrightarrow>
      yields (decode_from_reader (cmd_of m)) bs m"
    and no_panic: "safe_rd (decode_from_reader cmd)"
    and decodes_cmd: "decode_from_reader cmd r = (Inr m, r') \<Longrightarrow> cmd_of m = cmd"
begin

text \<open>What \<open>encode\<close> returns: a header, the message, and the padding.\<close>

lemma encode_layout:
  assumes "encode_relay cmd_of encode_onto format fill self = Inr body" and "\<And>n. length (fill n) = n"
  obtains bs pad where "wout (encode_onto (rmsg self)) = Inr bs" "length bs \<le> 498" "length body = 509"
    "body = (case format of
        FmtV0 \<Rightarrow> header_v0 (cmd_of (rmsg self)) (streamid self) (length bs)
      | FmtV1 \<Rightarrow> header_v1 (cmd_of (rmsg self)) (streamid self) (length bs)) @ bs @ pad"
    "format = FmtV1 \<Longrightarrow> v1_id_ok (cmd_of (rmsg self)) (streamid self)"
proof (cases "wout (encode_onto (rmsg self))")
  case (Inl e)
  then have "encode_to_cell_v0 cmd_of encode_onto self = Inl e"
    by (simp add: encode_to_cell_v0_def finish_body_err)
  moreover have "\<exists>e'. encode_to_cell_v1 cmd_of encode_onto self = Inl e'"
    using Inl by (auto simp: encode_to_cell_v1_def finish_body_err Let_def
        split: stream_id_req.splits option.splits)
  ultimately show thesis
    using assms(1) by (auto simp: encode_relay_def split: relay_cell_format.splits)
next
  case (Inr bs)
  define hl :: nat where "hl = (case format of FmtV0 \<Rightarrow> 11 | FmtV1 \<Rightarrow>
      (case streamid self of Some _ \<Rightarrow> 21 | None \<Rightarrow> 19))"
  define hdr where "hdr = (case format of
        FmtV0 \<Rightarrow> header_v0 (cmd_of (rmsg self)) (streamid self) (length bs)
      | FmtV1 \<Rightarrow> header_v1 (cmd_of (rmsg self)) (streamid self) (length bs))"
  have hl: "length hdr = hl" "11 \<le> hl" "hl \<le> 21"
    by (simp_all add: hdr_def hl_def length_headers split: relay_cell_format.splits option.splits)
  have ok: "format = FmtV1 \<Longrightarrow> v1_id_ok (cmd_of (rmsg self)) (streamid self)"
    using assms(1) encode_v1_bad_id [where cmd_of = cmd_of and self = self and enc = encode_onto]
    by (cases "v1_id_ok (cmd_of (rmsg self)) (streamid self)") (simp_all add: encode_relay_def)
  have enc: "(case format of
              FmtV0 \<Rightarrow> encode_to_cell_v0 cmd_of encode_onto self
            | FmtV1 \<Rightarrow> encode_to_cell_v1 cmd_of encode_onto self) =
      (if length bs \<le> BODY_MAX_LEN - hl
       then Inr (hdr @ bs @ replicate (BODY_MAX_LEN - hl - length bs) 0, hl + length bs)
       else Inl too_long_error)"
    using encode_v0_eq [where enc = encode_onto, OF Inr] encode_v1_eq [where enc = encode_onto and cmd_of = cmd_of, OF Inr _ refl] ok
    by (cases format) (simp_all add: hdr_def hl_def)
  then have fits: "length bs \<le> BODY_MAX_LEN - hl"
    using assms(1) by (auto simp: encode_relay_def split: if_splits)
  let ?e = "hl + length bs"
  define full where "full = hdr @ bs @ replicate (BODY_MAX_LEN - hl - length bs) 0"
  have body: "body = (if ?e < 505 then take (?e + 4) full @ fill (length full - (?e + 4)) else full)"
    using assms(1) enc fits by (simp add: encode_relay_def full_def split: if_splits)
  have len: "length full = 509" using fits hl by (simp add: full_def)
  have "take ?e body = hdr @ bs"
    using hl by (simp add: body full_def)
  then have "body = (hdr @ bs) @ drop ?e body" by (metis append_take_drop_id)
  moreover have "length body = 509" using len assms(2) by (simp add: body)
  ultimately show thesis
    using that [OF Inr, of "drop ?e body"] fits hl(2) ok by (simp add: hdr_def)
qed

lemma encode_decode_fields:
  assumes "valid (rmsg self)" and "streamid self \<noteq> Some 0" and "\<And>n. length (fill n) = n"
    and "encode_relay cmd_of encode_onto format fill self = Inr body"
    and "length body' = 509" and "body_fields format body' = body_fields format body"
  shows "decode_singleton decode_from_reader format body' = Inr self"
proof -
  obtain bs pad where b: "wout (encode_onto (rmsg self)) = Inr bs" "length bs \<le> 498" "length body = 509"
    "body = (case format of
        FmtV0 \<Rightarrow> header_v0 (cmd_of (rmsg self)) (streamid self) (length bs)
      | FmtV1 \<Rightarrow> header_v1 (cmd_of (rmsg self)) (streamid self) (length bs)) @ bs @ pad"
    "format = FmtV1 \<Longrightarrow> v1_id_ok (cmd_of (rmsg self)) (streamid self)"
    by (rule encode_layout [OF assms(4,3)]) blast
  have y: "yields (decode_from_reader (cmd_of (rmsg self))) bs (rmsg self)"
    using assms(1) b(1) by (rule round_trip)
  have sid: "StreamId_new (StreamId_get_or_zero (streamid self)) = streamid self"
    using assms(2) by (auto simp: StreamId_new_def StreamId_get_or_zero_def split: option.splits)
  have self: "\<lparr>streamid = streamid self, rmsg = rmsg self\<rparr> = self" by simp
  have "length bs < 2 ^ 16" using b(2) by simp
  show ?thesis
  proof (cases format)
    case FmtV0
    obtain g g' where g: "body' = [cmd_of (rmsg self)] @ g @ to_be_bytes (StreamId_get_or_zero (streamid self)) @
        g' @ to_be_bytes (of_nat (length bs) :: u16) @ bs @ pad" "length g = 2" "length g' = 4"
      by (rule body_fields_v0 [of body' "cmd_of (rmsg self)" "streamid self" "length bs" "bs @ pad"])
        (use assms(5,6) b(4) FmtV0 in auto)
    have "yields (decode_v0_from_reader decode_from_reader) body' self"
      using decode_v0_yields [of decode_from_reader, OF y \<open>length bs < 2 ^ 16\<close> g(2,3), of "streamid self" pad]
      by (simp add: g(1) sid self)
    then show ?thesis
      using assms(5) FmtV0 by (simp add: decode_singleton_def from_singleton_body_def decoder_decode_def
          unparsed_decode_def yields_def)
  next
    case FmtV1
    obtain g where g: "body' = g @ [cmd_of (rmsg self)] @ to_be_bytes (of_nat (length bs) :: u16) @
        (case streamid self of Some s \<Rightarrow> to_be_bytes s | None \<Rightarrow> []) @ bs @ pad" "length g = 16"
      by (rule body_fields_v1 [of body' "cmd_of (rmsg self)" "streamid self" "length bs" "bs @ pad"])
        (use assms(5,6) b(4) FmtV1 in auto)
    have "yields (decode_v1_from_reader decode_from_reader) body' self"
      using decode_v1_yields [of decode_from_reader, OF y \<open>length bs < 2 ^ 16\<close> b(5) [OF FmtV1] assms(2) g(2), of pad]
      by (simp add: g(1) self)
    then show ?thesis
      using assms(5) FmtV1 by (simp add: decode_singleton_def from_singleton_body_def decoder_decode_def
          unparsed_decode_def yields_def)
  qed
qed

lemma encode_decode:
  assumes "valid (rmsg self)" and "streamid self \<noteq> Some 0" and "\<And>n. length (fill n) = n"
    and "encode_relay cmd_of encode_onto format fill self = Inr body"
  shows "length body = 509 \<and> decode_singleton decode_from_reader format body = Inr self"
proof -
  have l: "length body = 509" by (rule encode_layout [OF assms(4,3)])
  from encode_decode_fields [OF assms l refl] show ?thesis using l by blast
qed

text \<open>The accessors of an unparsed message agree with its decoding.\<close>

lemma decode_v0_agrees:
  assumes "length body = 509" and "unparsed_decode decode_from_reader (UnparsedV0 body) = Inr x"
  shows "unparsed_cmd (UnparsedV0 body) = cmd_of (rmsg x) \<and>
    unparsed_stream_id (UnparsedV0 body) = streamid x \<and>
    (\<exists>r. reader_inv r \<and> remaining r = unat (from_be_bytes (take 2 (drop 9 body)) :: u16) \<and>
       remaining r \<le> 498 \<and> fst (decode_from_reader (body ! 0) r) = Inr (rmsg x))"
proof -
  define len :: u16 where "len = from_be_bytes (take 2 (drop 9 body))"
  define sid where "sid = StreamId_new (from_be_bytes (take 2 (drop 3 body)))"
  have hd: "hd body = body ! 0"
    using assms(1) by (cases body) auto
  have "fst (rbind (limit_to (unat len)) (\<lambda>_. rbind (decode_from_reader (body ! 0))
      (\<lambda>m. rret \<lparr>streamid = sid, rmsg = m\<rparr>)) (adv 11 (from_slice body))) = Inr x"
    using assms hd
    by (simp add: unparsed_decode_def decode_v0_from_reader_def rbind_def take_u8_eq advance_eq rmap_def
        take_u16_eq len_def sid_def numeral_3_eq_3 split: prod.splits)
  then obtain r m r'' where r: "limit_to (unat len) (adv 11 (from_slice body)) = (Inr (), r)"
      "decode_from_reader (body ! 0) r = (Inr m, r'')" "x = \<lparr>streamid = sid, rmsg = m\<rparr>"
    by (auto simp: rbind_def split: prod.splits sum.splits)
  then have "unat len \<le> 498" "reader_inv r" "remaining r = unat len"
    using assms(1)
    by (auto simp: limit_to_def truncate_r_def reader_inv_def remaining_def
        from_slice_def split: if_splits)
  then show ?thesis
    using r decodes_cmd [OF r(2)]
    by (auto simp: unparsed_cmd_def unparsed_stream_id_def sid_def len_def)
qed

lemma decode_v1_agrees:
  assumes "length body = 509" and "unparsed_decode decode_from_reader (UnparsedV1 body) = Inr x"
  shows "unparsed_cmd (UnparsedV1 body) = cmd_of (rmsg x) \<and>
    unparsed_stream_id (UnparsedV1 body) = streamid x \<and> v1_id_ok (cmd_of (rmsg x)) (streamid x) \<and>
    (\<exists>r. reader_inv r \<and> remaining r = unat (from_be_bytes (take 2 (drop 17 body)) :: u16) \<and>
       remaining r \<le> 490 \<and> fst (decode_from_reader (body ! 16) r) = Inr (rmsg x))"
proof -
  define len :: u16 where "len = from_be_bytes (take 2 (drop 17 body))"
  define cmd where "cmd = body ! 16"
  have hd: "hd (drop 16 body) = cmd"
    using assms(1) by (simp add: cmd_def hd_drop_conv_nth)
  have "fst (rbind (v1_streamid cmd) (\<lambda>sid. rbind (limit_to (unat len)) (\<lambda>_. rbind (decode_from_reader cmd)
      (\<lambda>m. rret \<lparr>streamid = sid, rmsg = m\<rparr>))) (adv 19 (from_slice body))) = Inr x"
    using assms hd
    by (simp add: unparsed_decode_def decode_v1_from_reader_def rbind_def take_u8_eq advance_eq rmap_def
        take_u16_eq len_def split: prod.splits)
  then obtain sid r0 r m r'' where r: "v1_streamid cmd (adv 19 (from_slice body)) = (Inr sid, r0)"
      "limit_to (unat len) r0 = (Inr (), r)"
      "decode_from_reader cmd r = (Inr m, r'')" "x = \<lparr>streamid = sid, rmsg = m\<rparr>"
    by (auto simp: rbind_def split: prod.splits sum.splits)
  have sid: "unparsed_stream_id (UnparsedV1 body) = sid" "v1_id_ok cmd sid"
      "r0 = adv (case sid of Some _ \<Rightarrow> 21 | None \<Rightarrow> 19) (from_slice body)"
    using r(1) assms(1)
    by (auto simp: v1_streamid_def v1_id_ok_def unparsed_stream_id_def unparsed_cmd_def cmd_def rbind_def
        take_u16_eq StreamId_new_def split: stream_id_req.splits option.splits if_splits)
  then have "unat len \<le> 490" "reader_inv r" "remaining r = unat len"
    using assms(1) r(2)
    by (auto simp: limit_to_def truncate_r_def reader_inv_def remaining_def
        from_slice_def split: if_splits option.splits)
  then show ?thesis
    using r sid decodes_cmd [OF r(3)]
    by (auto simp: unparsed_cmd_def len_def cmd_def)
qed

text \<open>Decoding any body does not panic.\<close>

lemma limit_no_panic:
  assumes "reader_inv r" and "safe_rd m"
  shows "fst (rbind (limit_to n) (\<lambda>_. m) r) \<noteq> Inl (Panicked p)"
  using assms by (auto simp: rbind_def limit_to_def truncate_r_def safe_rd_def reader_inv_def
      split: prod.splits if_splits)

lemma no_panic_bind:
  assumes "safe_rd m" and "reader_inv r" and "\<And>x r'. reader_inv r' \<Longrightarrow> fst (f x r') \<noteq> Inl (Panicked p)"
  shows "fst (rbind m f r) \<noteq> Inl (Panicked p)"
  using assms by (auto simp: rbind_def safe_rd_def split: prod.splits sum.splits)

lemma safe_v1_streamid: "safe_rd (v1_streamid cmd)"
  unfolding v1_streamid_def
  by (cases "expects_streamid cmd (Some FmtV1)") (auto intro!: safe_intros simp del: rret_apply rfail_apply)

lemma unparsed_decode_no_panic: "unparsed_decode decode_from_reader u \<noteq> Inl (Panicked p)"
proof -
  have fin: "safe_rd (rbind (decode_from_reader cmd) (\<lambda>m. rret \<lparr>streamid = sid, rmsg = m\<rparr>))" for cmd sid
    by (intro safe_intros no_panic)
  show ?thesis
  proof (cases u)
    case (UnparsedV0 body)
    then show ?thesis
      unfolding unparsed_decode_def decode_v0_from_reader_def
      by simp (intro no_panic_bind safe_u8 safe_advance safe_map safe_be limit_no_panic fin; simp)
  next
    case (UnparsedV1 body)
    then show ?thesis
      unfolding unparsed_decode_def decode_v1_from_reader_def
      by simp (intro no_panic_bind safe_u8 safe_advance safe_map safe_be limit_no_panic fin safe_v1_streamid; simp)
  qed
qed

end

lemma rmap_Inr_iff: "rmap f m r = (Inr y, r') \<longleftrightarrow> (\<exists>x. m r = (Inr x, r') \<and> y = f x)"
  by (auto simp: rmap_def rbind_Inr_iff)

lemma any_relay_decodes_cmd: "any_relay_decode cmd r = (Inr m, r') \<Longrightarrow> any_relay_cmd m = cmd"
  unfolding any_relay_decode_def
  by (auto simp: rmap_Inr_iff relay_decode_with_cmd_def rbind_Inr_iff split: if_splits)

interpretation any_relay: relay_msg any_relay_cmd any_relay_encode any_relay_decode any_relay_valid
  by unfold_locales (auto intro: any_relay_yields safe_any_relay any_relay_decodes_cmd)

text \<open>The data carried by a DATA message is all that was left to read.\<close>

lemma any_relay_data_length:
  assumes "fst (any_relay_decode cmd r) = Inr (Data b)" and "reader_inv r"
  shows "cmd = RelayCmd_DATA \<and> length b = remaining r \<and> 0 < length b"
proof -
  have cmd: "cmd = RelayCmd_DATA"
    using any_relay_decodes_cmd [of cmd r "Data b"] assms(1) by (cases "any_relay_decode cmd r") auto
  then show ?thesis
    using assms
    by (auto simp: any_relay_decode_def rmap_def rbind_def data_decode_def take_r_eq rest_Nil_iff
        split: if_splits)
qed

section \<open>Splitting data\<close>

text \<open>All the DATA bodies that repeated \<open>try_split_from\<close> makes of an input.\<close>

function split_all :: "relay_cell_format \<Rightarrow> bytes \<Rightarrow> bytes list" where
  "split_all version inp =
     (case try_split_from version inp of
        None \<Rightarrow> []
      | Some (d, remainder) \<Rightarrow> d # split_all version remainder)"
  by pat_completeness auto
termination
  by (relation "measure (\<lambda>(_, inp). length inp)")
    (auto simp: try_split_from_def max_body_len_def Let_def split: if_splits relay_cell_format.splits)

declare split_all.simps [simp del]

lemma data_fits:
  assumes "length d \<le> max_body_len format"
  shows "is_ok (encode_relay any_relay_cmd any_relay_encode format fill
      \<lparr>streamid = Some sid, rmsg = Data d\<rparr>)"
proof -
  have enc: "wout (any_relay_encode (rmsg \<lparr>streamid = Some sid, rmsg = Data d\<rparr>)) = Inr d"
    by (simp add: data_encode_def wire_simps)
  show ?thesis
    using assms encode_v0_eq [where cmd_of = any_relay_cmd and enc = any_relay_encode, OF enc]
      encode_v1_eq [where cmd_of = any_relay_cmd and enc = any_relay_encode, OF enc _ refl]
    by (cases format) (simp_all add: encode_relay_def max_body_len_def v1_id_ok_def expects_streamid_def)
qed

section \<open>Properties of relay cells\<close>



text \<open>
  C26: when \<open>encode\<close> succeeds. A message whose encoding fits behind the header (498 bytes in V0;
  in V1 490, or 488 with a stream identifier) is encoded, provided that in V1 the stream
  identifier is present exactly when the command wants one; otherwise the result is the
  message's own encoding error or the internal-error value, and never a wrong cell.
\<close>

theorem relay_encode_outcome:
  "is_ok (encode_relay any_relay_cmd any_relay_encode format fill m) \<longleftrightarrow>
   (\<exists>bs. wout (any_relay_encode (rmsg m)) = Inr bs \<and>
      (case format of
         FmtV0 \<Rightarrow> length bs \<le> 498
       | FmtV1 \<Rightarrow> v1_id_ok (any_relay_cmd (rmsg m)) (streamid m) \<and>
           length bs \<le> (case streamid m of Some _ \<Rightarrow> 488 | None \<Rightarrow> 490)))"
proof (cases "wout (any_relay_encode (rmsg m))")
  case (Inl e)
  then have "encode_to_cell_v0 any_relay_cmd any_relay_encode m = Inl e"
    by (simp add: encode_to_cell_v0_def finish_body_err)
  moreover have "\<exists>e'. encode_to_cell_v1 any_relay_cmd any_relay_encode m = Inl e'"
    using Inl by (auto simp: encode_to_cell_v1_def finish_body_err Let_def
        split: stream_id_req.splits option.splits)
  ultimately show ?thesis
    using Inl by (auto simp: encode_relay_def split: relay_cell_format.splits)
next
  case (Inr bs)
  note v0 = encode_v0_eq [where cmd_of = any_relay_cmd and enc = any_relay_encode, OF Inr]
  note v1 = encode_v1_eq [where cmd_of = any_relay_cmd and enc = any_relay_encode, OF Inr _ refl]
  note bad = encode_v1_bad_id [where cmd_of = any_relay_cmd and self = m and enc = any_relay_encode]
  show ?thesis
  proof (cases format)
    case FmtV0
    then show ?thesis using Inr v0 by (simp add: encode_relay_def)
  next
    case FmtV1
    then show ?thesis
      using Inr v1 bad
      by (cases "v1_id_ok (any_relay_cmd (rmsg m)) (streamid m)")
        (auto simp: encode_relay_def split: option.splits)
  qed
qed

text \<open>
  C7: an unparsed relay message can be dispatched on before it is decoded. On every 509-byte
  body, of either format, decoding never panics; and if it succeeds, the command and the
  stream identifier read at fixed offsets are those of the decoded message, and the length
  that flow control counts for a DATA message is the length of the data it carries.
\<close>

theorem unparsed_agrees:
  assumes "length body = 509" and "u = UnparsedV0 body \<or> u = UnparsedV1 body"
  shows "unparsed_decode any_relay_decode u \<noteq> Inl (Panicked p) \<and>
    (\<forall>x. unparsed_decode any_relay_decode u = Inr x \<longrightarrow>
       unparsed_cmd u = any_relay_cmd (rmsg x) \<and> unparsed_stream_id u = streamid x \<and>
       (\<forall>b. rmsg x = Data b \<longrightarrow> data_len u = Inr (of_nat (length b)) \<and> 0 < length b \<and> length b \<le> 498))"
proof -
  have "unparsed_cmd u = any_relay_cmd (rmsg x) \<and> unparsed_stream_id u = streamid x \<and>
       (\<forall>b. rmsg x = Data b \<longrightarrow> data_len u = Inr (of_nat (length b)) \<and> 0 < length b \<and> length b \<le> 498)"
    if dec: "unparsed_decode any_relay_decode u = Inr x" for x
  proof -
    define len :: u16 where "len = from_be_bytes (case u of
        UnparsedV0 body \<Rightarrow> take 2 (drop 9 body) | UnparsedV1 body \<Rightarrow> take 2 (drop 17 body))"
    have agree: "unparsed_cmd u = any_relay_cmd (rmsg x) \<and> unparsed_stream_id u = streamid x \<and>
        (\<exists>r. reader_inv r \<and> remaining r = unat len \<and> remaining r \<le> 498 \<and>
          fst (any_relay_decode (unparsed_cmd u) r) = Inr (rmsg x))"
    proof (cases u)
      case (UnparsedV0 b)
      with assms dec any_relay.decode_v0_agrees [of b x] show ?thesis
        by (auto simp: len_def unparsed_cmd_def)
    next
      case (UnparsedV1 b)
      with assms dec any_relay.decode_v1_agrees [of b x] show ?thesis
        by (fastforce simp: len_def unparsed_cmd_def)
    qed
    have "data_len u = Inr (of_nat (length b)) \<and> 0 < length b \<and> length b \<le> 498"
      if b: "rmsg x = Data b" for b
    proof -
      obtain r where r: "reader_inv r" "remaining r = unat len" "remaining r \<le> 498"
          "fst (any_relay_decode (unparsed_cmd u) r) = Inr (Data b)"
        using agree b by auto
      have len: "unparsed_cmd u = RelayCmd_DATA" "length b = unat len" "0 < length b"
        using any_relay_data_length [OF r(4,1)] unfolding r(2) by blast+
      have "\<not> len > 509"
        using r(2,3) by (simp add: word_less_nat_alt)
      then have "data_len u = Inr len"
        using len(1) by (simp add: data_len_def len_def split: unparsed_relay_msg.splits)
      moreover have "of_nat (length b) = len" "length b \<le> 498"
        using len(2) r(2,3) by simp_all
      ultimately show ?thesis
        using len(3) by simp
    qed
    with agree show ?thesis by blast
  qed
  then show ?thesis by (simp add: any_relay.unparsed_decode_no_panic)
qed

theorem unparsed_agrees_witness:
  "\<exists>body. length body = 509 \<and>
     unparsed_decode any_relay_decode (UnparsedV0 body) \<noteq> Inl (Panicked ''index'')"
proof -
  have "length (replicate 509 (0 :: u8)) = 509" by simp
  from unparsed_agrees [OF this, of "UnparsedV0 (replicate 509 0)" "''index''"] show ?thesis
    by (intro exI [of _ "replicate 509 0"]) simp
qed

text \<open>
  C28: data that does not fit one cell is split without loss. Repeating \<open>try_split_from\<close> on
  any input ends; the pieces, in order, are the input; and each piece can be sent in one cell
  of the format it was split for.
\<close>

theorem split_all_complete:
  "concat (split_all format inp) = inp \<and>
   list_all (\<lambda>d. 0 < length d \<and> length d \<le> max_body_len format \<and>
      is_ok (encode_relay any_relay_cmd any_relay_encode format fill
        \<lparr>streamid = Some sid, rmsg = Data d\<rparr>)) (split_all format inp)"
proof (induction format inp rule: split_all.induct)
  case (1 format inp)
  show ?case
  proof (cases "try_split_from format inp")
    case None
    then show ?thesis
      by (simp add: split_all.simps [of format inp]) (simp add: try_split_from_def Let_def split: if_splits)
  next
    case (Some dr)
    obtain d remainder where dr: "dr = (d, remainder)" by (cases dr)
    have "inp = d @ remainder" "0 < length d" "length d \<le> max_body_len format"
      using Some dr by (auto simp: try_split_from_def Let_def max_body_len_def min_def
          split: if_splits relay_cell_format.splits)
    moreover have "is_ok (encode_relay any_relay_cmd any_relay_encode format fill
        \<lparr>streamid = Some sid, rmsg = Data d\<rparr>)"
      using calculation(3) by (rule data_fits)
    moreover have "split_all format inp = d # split_all format remainder"
      using Some dr by (simp add: split_all.simps [of format inp])
    ultimately show ?thesis
      using 1 [OF Some dr [symmetric]] by simp
  qed
qed

end
