(* ===== verification/Sendme.thy ===== *)
theory Sendme
  imports Relay_Cell
begin

text \<open>
  The SENDME windows of circuits and streams and the queue of expected SENDME tags
  (\<open>tor-proto/src/congestion/sendme.rs\<close>), with the error type of \<open>tor-proto\<close>
  (\<open>util/err.rs\<close>) that this and the following theories return. A method on \<open>&mut self\<close>
  is a function to the pair of its result and the state it leaves, also when it fails; a
  panic is the error \<open>Panic\<close>. Window parameters, static functions of a type parameter in
  the source, are a record that is passed.
\<close>

section \<open>Fallible operations on a state\<close>

datatype proto_error =
    CircProto string
  | StreamProto string
  | BytesErr bytes_error string
  | ProtoBug string
  | IdRangeFull
  | IdUnavailable stream_id
  | InvalidKDFOutputLength
  | NoSuchHop
  | BadCellAuth
  | CircuitClosed
  | HandshakeProto string
  | CircRefused string
  | CellEncodeErr cell_error string
  | ExcessInboundCells
  | ExcessOutboundCells
  | Panic string

type_synonym ('s, 'a) op = "'s \<Rightarrow> (proto_error + 'a) \<times> 's"

definition op_ret :: "'a \<Rightarrow> ('s, 'a) op" where
  "op_ret x s = (Inr x, s)"

definition op_fail :: "proto_error \<Rightarrow> ('s, 'a) op" where
  "op_fail e s = (Inl e, s)"

definition op_bind :: "('s, 'a) op \<Rightarrow> ('a \<Rightarrow> ('s, 'b) op) \<Rightarrow> ('s, 'b) op" where
  "op_bind m f s = (case m s of (Inl e, s') \<Rightarrow> (Inl e, s') | (Inr x, s') \<Rightarrow> f x s')"

text \<open>An operation on a field of the state.\<close>

definition op_field :: "('s \<Rightarrow> 't) \<Rightarrow> ('t \<Rightarrow> 's \<Rightarrow> 's) \<Rightarrow> ('t, 'a) op \<Rightarrow> ('s, 'a) op" where
  "op_field get upd m s = (case m (get s) of (r, t) \<Rightarrow> (r, upd t s))"

section \<open>Windows\<close>

record window_params =
  maximum :: u16
  increment :: u16
  start :: u16

definition CircParams :: window_params where
  "CircParams = \<lparr>maximum = 1000, increment = 100, start = 1000\<rparr>"

definition StreamParams :: window_params where
  "StreamParams = \<lparr>maximum = 500, increment = 50, start = 500\<rparr>"

type_synonym send_window = u16
type_synonym recv_window = u16

definition should_record_tag :: "window_params \<Rightarrow> send_window \<Rightarrow> bool" where
  "should_record_tag P w \<longleftrightarrow> w mod increment P = 0"

definition send_window_take :: "(send_window, unit) op" where
  "send_window_take w =
     (case checked_sub_w w 1 of
        None \<Rightarrow> (Inl (CircProto ''Called SendWindow::take() on empty SendWindow''), w)
      | Some w' \<Rightarrow> (Inr (), w'))"

definition send_window_put :: "window_params \<Rightarrow> (send_window, unit) op" where
  "send_window_put P w =
     (case checked_add_w w (increment P) of
        None \<Rightarrow> (Inl (ProtoBug ''Overflow on SENDME window''), w)
      | Some new_window \<Rightarrow>
          (if new_window > maximum P then (Inl (CircProto ''Unexpected stream SENDME''), w)
           else (Inr (), new_window)))"

definition recv_window_take :: "window_params \<Rightarrow> (recv_window, bool) op" where
  "recv_window_take P w =
     (case checked_sub_w w 1 of
        Some x \<Rightarrow> (Inr (x mod increment P = 0), x)
      | None \<Rightarrow> (Inl (CircProto ''Received a data cell in violation of a window''), w))"

definition decrement_n :: "u16 \<Rightarrow> (recv_window, unit) op" where
  "decrement_n n w =
     (case checked_sub_w w n of
        None \<Rightarrow> (Inl (CircProto ''Received too many cells on a stream''), w)
      | Some w' \<Rightarrow> (Inr (), w'))"

definition recv_window_put :: "window_params \<Rightarrow> (recv_window, unit) op" where
  "recv_window_put P w =
     (case checked_add_w w (increment P) of
        None \<Rightarrow> (Inl (Panic ''Overflow detected while attempting to increment window''), w)
      | Some w' \<Rightarrow> (Inr (), w'))"

definition cmd_counts_towards_windows :: "relay_cmd \<Rightarrow> bool" where
  "cmd_counts_towards_windows cmd \<longleftrightarrow> cmd = RelayCmd_DATA"

definition cell_counts_towards_windows :: "unparsed_relay_msg \<Rightarrow> bool" where
  "cell_counts_towards_windows cell \<longleftrightarrow> cmd_counts_towards_windows (unparsed_cmd cell)"

section \<open>Validation of tags\<close>

type_synonym 't sendme_validator = "'t list"

definition validator_new :: "'t sendme_validator" where
  "validator_new = []"

definition record_tag :: "'t \<Rightarrow> 't sendme_validator \<Rightarrow> 't sendme_validator" where
  "record_tag t tags = tags @ [t]"

definition validate :: "'t option \<Rightarrow> ('t sendme_validator, unit) op" where
  "validate t tags =
     (case (tags, t) of
        (x # xs, Some y) \<Rightarrow>
          (if x = y then (Inr (), xs)
           else (Inl (CircProto ''Mismatched tag on circuit SENDME''), tags))
      | (x # xs, None) \<Rightarrow> (Inr (), xs)
      | ([], _) \<Rightarrow> (Inl (CircProto ''Received a SENDME when none was expected''), tags))"

section \<open>Lemmas\<close>

named_theorems op_simps

lemma op_simps_basic [op_simps, simp]:
  "op_ret x s = (Inr x, s)"
  "op_fail e s = (Inl e, s)"
  by (simp_all add: op_ret_def op_fail_def)

lemma op_bind_eval [op_simps]:
  "m s = (Inr x, s') \<Longrightarrow> op_bind m f s = f x s'"
  "m s = (Inl e, s') \<Longrightarrow> op_bind m f s = (Inl e, s')"
  by (simp_all add: op_bind_def)

lemma op_bind_ret [simp]: "op_bind (op_ret x) f = f x"
  by (simp add: op_bind_def fun_eq_iff)

lemma op_bind_Inr_iff:
  "op_bind m f s = (Inr y, s') \<longleftrightarrow> (\<exists>x t. m s = (Inr x, t) \<and> f x t = (Inr y, s'))"
  by (auto simp: op_bind_def split: prod.splits sum.splits)

lemma op_field_eval [op_simps]:
  "m (get s) = (r, t) \<Longrightarrow> op_field get upd m s = (r, upd t s)"
  by (simp add: op_field_def)

text \<open>Checked arithmetic read in the natural numbers.\<close>

lemma checked_sub_w_1:
  "checked_sub_w w 1 = (if w = 0 then None else Some (w - 1))"
  by (auto simp: checked_sub_w_def word_le_nat_alt Suc_le_eq unat_gt_0)

lemma unat_minus_one_w: "(w :: 'a::len word) \<noteq> 0 \<Longrightarrow> unat (w - 1) = unat w - 1"
  by (metis unat_minus_one)

lemma send_window_take_spec:
  "send_window_take w =
     (if w = 0 then (Inl (CircProto ''Called SendWindow::take() on empty SendWindow''), w)
      else (Inr (), w - 1))"
  by (simp add: send_window_take_def checked_sub_w_1)

lemma recv_window_take_spec:
  "recv_window_take P w =
     (if w = 0 then (Inl (CircProto ''Received a data cell in violation of a window''), w)
      else (Inr ((w - 1) mod increment P = 0), w - 1))"
  by (simp add: recv_window_take_def checked_sub_w_1)

lemma validate_head [simp]: "validate (Some t) (t # ts) = (Inr (), ts)"
  by (simp add: validate_def)

lemma validate_ok_iff:
  "validate (Some t) ts = (Inr (), ts') \<longleftrightarrow> ts = t # ts'"
  by (auto simp: validate_def split: list.splits if_splits)

lemma validate_outcome:
  "validate (Some t) ts = (r, ts') \<Longrightarrow> (r = Inr () \<and> ts = t # ts') \<or> (\<exists>e. r = Inl (CircProto e) \<and> ts' = ts)"
  by (auto simp: validate_def split: list.splits if_splits)

end
