(* ===== verification/Congestion.thy ===== *)
theory Congestion
  imports Sendme
begin

text \<open>
  Congestion control of a circuit hop (\<open>tor-proto/src/congestion.rs\<close> with \<open>fixed.rs\<close>,
  \<open>vegas.rs\<close>, \<open>rtt.rs\<close> and \<open>params.rs\<close>): the congestion window, the estimator of the
  round-trip time, the two algorithms, and \<open>CongestionControl\<close>, which connects an algorithm
  with the queue of expected SENDME tags. Counters are \<open>u32\<close> words whose \<open>+\<close>, \<open>-\<close> and
  \<open>*\<close> wrap, as in a release build; a division by zero is a panic. Instants and durations
  are numbers of nanoseconds. The boxed algorithm, a trait object, is a datatype of its two
  implementations.
\<close>

section \<open>Parameters\<close>

record fixed_window_params =
  circ_window_start :: u16
  circ_window_min :: u16
  circ_window_max :: u16

record vegas_queue_params =
  vq_alpha :: u32
  vq_beta :: u32
  vq_delta :: u32
  vq_gamma :: u32
  vq_ss_cwnd_cap :: u32

record vegas_params =
  cell_in_queue_params :: vegas_queue_params
  ss_cwnd_max :: u32
  cwnd_full_gap :: u32
  cwnd_full_min_pct :: u32
  cwnd_full_per_cwnd :: u32

datatype algorithm_params = FixedWindowAlg fixed_window_params | VegasAlg vegas_params

record rtt_params =
  ewma_cwnd_pct :: u32
  ewma_max :: u32
  ewma_ss_max :: u32
  rtt_reset_pct :: u32

record cwnd_params =
  cwnd_init :: u32
  cwnd_inc_pct_ss :: u32
  cwnd_inc :: u32
  cwnd_inc_rate :: u32
  cwnd_min :: u32
  cwnd_max :: u32
  sendme_inc_param :: u32

record cc_params =
  alg :: algorithm_params
  ccp_fixed_window :: fixed_window_params
  ccp_cwnd :: cwnd_params
  ccp_rtt :: rtt_params

definition compatible_with_cgo :: "algorithm_params \<Rightarrow> bool" where
  "compatible_with_cgo a = (case a of FixedWindowAlg _ \<Rightarrow> False | VegasAlg _ \<Rightarrow> True)"

definition set_sendme_inc :: "u8 \<Rightarrow> cwnd_params \<Rightarrow> cwnd_params" where
  "set_sendme_inc inc p = p\<lparr>sendme_inc_param := ucast inc\<rparr>"

definition is_enabled :: "cc_params \<Rightarrow> bool" where
  "is_enabled p = (case alg p of FixedWindowAlg _ \<Rightarrow> False | VegasAlg _ \<Rightarrow> True)"

definition use_fallback_alg :: "cc_params \<Rightarrow> cc_params" where
  "use_fallback_alg p = p\<lparr>alg := FixedWindowAlg (ccp_fixed_window p)\<rparr>"

definition is_sendme_inc_valid :: "u8 \<Rightarrow> cc_params \<Rightarrow> bool" where
  "is_sendme_inc_valid inc params =
     (let inc_u32 = ucast inc :: u32 in
      if inc = 0 then False
      else
        (let inc_consensus = sendme_inc_param (ccp_cwnd params) in
         if inc_u32 > saturating_add_w inc_consensus 1 \<or> inc_u32 < saturating_sub_w inc_consensus 1
         then False else True))"

section \<open>The congestion window\<close>

datatype cc_state = SlowStart | Steady

definition in_slow_start :: "cc_state \<Rightarrow> bool" where
  "in_slow_start s = (case s of SlowStart \<Rightarrow> True | Steady \<Rightarrow> False)"

record congestion_signals =
  channel_blocked :: bool
  channel_outbound_size :: u32

definition signals_new :: "bool \<Rightarrow> nat \<Rightarrow> congestion_signals" where
  "signals_new blocked sz = \<lparr>channel_blocked = blocked,
     channel_outbound_size = of_nat (saturating_add_n sz 0)\<rparr>"

text \<open>Unsigned division, which panics on a zero divisor.\<close>

definition udiv :: "'a::len word \<Rightarrow> 'a word \<Rightarrow> proto_error + 'a word" where
  "udiv a b = (if b = 0 then Inl (Panic ''attempt to divide by zero'') else Inr (a div b))"

definition urem :: "'a::len word \<Rightarrow> 'a word \<Rightarrow> proto_error + 'a word" where
  "urem a b =
     (if b = 0 then Inl (Panic ''attempt to calculate the remainder with a divisor of zero'')
      else Inr (a mod b))"

record congestion_window =
  cw_params :: cwnd_params
  cw_value :: u32
  cw_is_full :: bool

definition cwnd_new :: "cwnd_params \<Rightarrow> congestion_window" where
  "cwnd_new params = \<lparr>cw_params = params, cw_value = cwnd_init params, cw_is_full = False\<rparr>"

definition cwnd_increment :: "congestion_window \<Rightarrow> u32" where
  "cwnd_increment c = cwnd_inc (cw_params c)"

definition increment_rate :: "congestion_window \<Rightarrow> u32" where
  "increment_rate c = cwnd_inc_rate (cw_params c)"

definition sendme_inc :: "congestion_window \<Rightarrow> u32" where
  "sendme_inc c = sendme_inc_param (cw_params c)"

definition cwnd_min_value :: "congestion_window \<Rightarrow> u32" where
  "cwnd_min_value c = cwnd_min (cw_params c)"

definition cwnd_dec :: "congestion_window \<Rightarrow> congestion_window" where
  "cwnd_dec c =
     c\<lparr>cw_value := max (saturating_sub_w (cw_value c) (cwnd_increment c)) (cwnd_min (cw_params c))\<rparr>"

definition cwnd_inc_step :: "congestion_window \<Rightarrow> congestion_window" where
  "cwnd_inc_step c =
     c\<lparr>cw_value := min (saturating_add_w (cw_value c) (cwnd_increment c)) (cwnd_max (cw_params c))\<rparr>"

definition cwnd_set :: "u32 \<Rightarrow> congestion_window \<Rightarrow> congestion_window" where
  "cwnd_set v c = c\<lparr>cw_value := v\<rparr>"

definition reset_full :: "congestion_window \<Rightarrow> congestion_window" where
  "reset_full c = c\<lparr>cw_is_full := False\<rparr>"

definition update_rate :: "cc_state \<Rightarrow> congestion_window \<Rightarrow> proto_error + u32" where
  "update_rate state c =
     (if in_slow_start state then Inr 1
      else udiv (cw_value c + increment_rate c * sendme_inc c div 2)
                (increment_rate c * sendme_inc c))"

definition sendme_per_cwnd :: "congestion_window \<Rightarrow> proto_error + u32" where
  "sendme_per_cwnd c = udiv (cw_value c + (sendme_inc c div 2)) (sendme_inc c)"

definition rfc3742_ss_inc :: "u32 \<Rightarrow> congestion_window \<Rightarrow> proto_error + (u32 \<times> congestion_window)" where
  "rfc3742_ss_inc ss_cap c =
     res_bind
       (if cw_value c \<le> ss_cap
        then Inr (((cwnd_inc_pct_ss (cw_params c) * sendme_inc c) + 50) div 100)
        else res_bind (udiv ((sendme_inc c * ss_cap) + cw_value c) (cw_value c * 2))
               (\<lambda>q. Inr (max q 1)))
       (\<lambda>inc. Inr (inc, c\<lparr>cw_value := cw_value c + inc\<rparr>))"

definition eval_fullness :: "u32 \<Rightarrow> u32 \<Rightarrow> u32 \<Rightarrow> congestion_window \<Rightarrow> congestion_window" where
  "eval_fullness inflight full_gap full_minpct c =
     (if inflight + (sendme_inc c * full_gap) \<ge> cw_value c then c\<lparr>cw_is_full := True\<rparr>
      else if 100 * inflight < full_minpct * cw_value c then c\<lparr>cw_is_full := False\<rparr>
      else c)"

section \<open>The round-trip time estimator\<close>

type_synonym instant = nat
type_synonym duration = nat

datatype rtt_error = MismatchedEstimationCall | RttPanic string

definition rtt_error_msg :: "rtt_error \<Rightarrow> proto_error" where
  "rtt_error_msg e =
     (case e of MismatchedEstimationCall \<Rightarrow> CircProto ''Informed of a SENDME we weren't expecting''
      | RttPanic m \<Rightarrow> Panic m)"

record rtt_estimator =
  sendme_expected_from :: "instant list"
  last_rtt :: "duration option"
  ewma_rtt :: "duration option"
  min_rtt :: "duration option"
  max_rtt :: "duration option"
  rtt_params_of :: rtt_params
  clock_stalled :: bool

definition rtt_new :: "rtt_params \<Rightarrow> rtt_estimator" where
  "rtt_new params = \<lparr>sendme_expected_from = [], last_rtt = None, ewma_rtt = None, min_rtt = None,
     max_rtt = None, rtt_params_of = params, clock_stalled = False\<rparr>"

definition rtt_is_ready :: "rtt_estimator \<Rightarrow> bool" where
  "rtt_is_ready r \<longleftrightarrow> \<not> clock_stalled r \<and> last_rtt r \<noteq> None"

definition as_micros :: "duration \<Rightarrow> nat" where
  "as_micros d = d div 1000"

definition from_micros :: "u64 \<Rightarrow> duration" where
  "from_micros us = unat us * 1000"

definition u32_or_max :: "nat \<Rightarrow> u32" where
  "u32_or_max n = (if n < 2 ^ 32 then of_nat n else - 1)"

definition ewma_rtt_usec :: "rtt_estimator \<Rightarrow> u32 option" where
  "ewma_rtt_usec r = map_option (\<lambda>d. u32_or_max (as_micros d)) (ewma_rtt r)"

definition min_rtt_usec :: "rtt_estimator \<Rightarrow> u32 option" where
  "min_rtt_usec r = map_option (\<lambda>d. u32_or_max (as_micros d)) (min_rtt r)"

definition expect_sendme :: "instant \<Rightarrow> rtt_estimator \<Rightarrow> rtt_estimator" where
  "expect_sendme now r = r\<lparr>sendme_expected_from := sendme_expected_from r @ [now]\<rparr>"

definition can_crosscheck_with_current_estimate :: "bool \<Rightarrow> rtt_estimator \<Rightarrow> bool" where
  "can_crosscheck_with_current_estimate slow_start r \<longleftrightarrow> \<not> slow_start \<and> ewma_rtt r \<noteq> None"

text \<open>The flag is an atomic the method stores to through \<open>&self\<close>: it is part of the result.\<close>

definition is_clock_stalled :: "duration \<Rightarrow> bool \<Rightarrow> rtt_estimator \<Rightarrow> bool \<times> rtt_estimator" where
  "is_clock_stalled raw_rtt slow_start r =
     (if raw_rtt = 0 then (True, r\<lparr>clock_stalled := True\<rparr>)
      else if can_crosscheck_with_current_estimate slow_start r then
        (let ewma = the (ewma_rtt r) in
         if raw_rtt > ewma * 5000 then (True, r)
         else if ewma > raw_rtt * 5000 then (clock_stalled r, r)
         else (False, r\<lparr>clock_stalled := False\<rparr>))
      else (False, r))"

definition new_ewma_rtt_usec :: "u64 \<Rightarrow> u64 \<Rightarrow> u64 option \<Rightarrow> u64" where
  "new_ewma_rtt_usec ewma_n raw_rtt_usec prev =
     (case prev of
        None \<Rightarrow> raw_rtt_usec
      | Some p \<Rightarrow> ((raw_rtt_usec * 2) + ((ewma_n - 1) * p)) div (ewma_n + 1))"

definition rtt_ewma_n :: "cc_state \<Rightarrow> congestion_window \<Rightarrow> rtt_estimator \<Rightarrow> rtt_error + u64" where
  "rtt_ewma_n state cwnd r =
     res_bind
       (if in_slow_start state then Inr (ewma_ss_max (rtt_params_of r))
        else
          (case update_rate state cwnd of
             Inl _ \<Rightarrow> Inl (RttPanic ''attempt to divide by zero'')
           | Inr rate \<Rightarrow>
               Inr (min ((rate * ewma_cwnd_pct (rtt_params_of r)) div 100)
                        (ewma_max (rtt_params_of r)))))
       (\<lambda>n. Inr (max (ucast n) 2))"

text \<open>The update of the minimum, from \<open>let Some(min_rtt) = self.min_rtt\<close> on.\<close>

definition update_min_rtt :: "cc_state \<Rightarrow> congestion_window \<Rightarrow> duration \<Rightarrow> rtt_estimator \<Rightarrow> rtt_estimator" where
  "update_min_rtt state cwnd ewma r =
     (case min_rtt r of
        None \<Rightarrow> r\<lparr>min_rtt := ewma_rtt r\<rparr>
      | Some mn \<Rightarrow>
          (if cw_value cwnd = cwnd_min_value cwnd \<and> \<not> in_slow_start state then
             (let mx = of_nat (as_micros (max ewma mn)) :: u64;
                  mi = of_nat (as_micros (min ewma mn)) :: u64;
                  pct = ucast (rtt_reset_pct (rtt_params_of r)) :: u64 in
              r\<lparr>min_rtt := Some (from_micros ((pct * mx div 100) + (100 - pct) * mi div 100))\<rparr>)
           else if ewma < mn then r\<lparr>min_rtt := ewma_rtt r\<rparr>
           else r))"

definition rtt_update ::
  "instant \<Rightarrow> cc_state \<Rightarrow> congestion_window \<Rightarrow> rtt_estimator \<Rightarrow> (rtt_error + unit) \<times> rtt_estimator" where
  "rtt_update now state cwnd r =
     (case sendme_expected_from r of
        [] \<Rightarrow> (Inl MismatchedEstimationCall, r)
      | data_sent_at # ts \<Rightarrow>
          (let r = r\<lparr>sendme_expected_from := ts\<rparr>;
               raw_rtt = now - data_sent_at in
           case is_clock_stalled raw_rtt (in_slow_start state) r of
             (True, r) \<Rightarrow> (Inr (), r)
           | (False, r) \<Rightarrow>
               (let r = r\<lparr>max_rtt := Some (case max_rtt r of None \<Rightarrow> raw_rtt | Some m \<Rightarrow> max m raw_rtt),
                          last_rtt := Some raw_rtt\<rparr> in
                case rtt_ewma_n state cwnd r of
                  Inl e \<Rightarrow> (Inl e, r)
                | Inr ewma_n \<Rightarrow>
                    (let raw_rtt_usec = of_nat (as_micros raw_rtt) :: u64;
                         prev = map_option (\<lambda>d. of_nat (as_micros d) :: u64) (ewma_rtt r);
                         ewma = from_micros (new_ewma_rtt_usec ewma_n raw_rtt_usec prev);
                         r = r\<lparr>ewma_rtt := Some ewma\<rparr> in
                     (Inr (), update_min_rtt state cwnd ewma r)))))"

section \<open>The fixed window\<close>

record fixed_window =
  fw_recvwindow :: recv_window
  fw_sendwindow :: send_window
  fw_params :: fixed_window_params

definition fixed_new :: "fixed_window_params \<Rightarrow> fixed_window" where
  "fixed_new params = \<lparr>fw_recvwindow = start CircParams, fw_sendwindow = circ_window_start params,
     fw_params = params\<rparr>"

definition fixed_is_next_cell_sendme :: "fixed_window \<Rightarrow> bool" where
  "fixed_is_next_cell_sendme a = should_record_tag CircParams (fw_sendwindow a)"

definition fixed_can_send :: "fixed_window \<Rightarrow> bool" where
  "fixed_can_send a \<longleftrightarrow> fw_sendwindow a > 0"

definition fixed_sendme_received :: "(fixed_window, unit) op" where
  "fixed_sendme_received =
     op_field fw_sendwindow (\<lambda>w a. a\<lparr>fw_sendwindow := w\<rparr>) (send_window_put CircParams)"

definition fixed_sendme_sent :: "(fixed_window, unit) op" where
  "fixed_sendme_sent =
     op_field fw_recvwindow (\<lambda>w a. a\<lparr>fw_recvwindow := w\<rparr>) (recv_window_put CircParams)"

definition fixed_data_received :: "(fixed_window, bool) op" where
  "fixed_data_received =
     op_field fw_recvwindow (\<lambda>w a. a\<lparr>fw_recvwindow := w\<rparr>) (recv_window_take CircParams)"

definition fixed_data_sent :: "(fixed_window, unit) op" where
  "fixed_data_sent =
     op_field fw_sendwindow (\<lambda>w a. a\<lparr>fw_sendwindow := w\<rparr>) send_window_take"

section \<open>Vegas\<close>

record vegas =
  v_params :: vegas_params
  v_bdp :: u32
  v_cwnd :: congestion_window
  num_cell_until_sendme :: u32
  num_sendme_until_cwnd_update :: u32
  num_sendme_per_cwnd :: u32
  num_inflight :: u32
  is_blocked_on_chan :: bool

definition bdp_update ::
  "congestion_window \<Rightarrow> rtt_estimator \<Rightarrow> congestion_signals \<Rightarrow> proto_error + u32" where
  "bdp_update cwnd rtt signals =
     (if clock_stalled rtt then
        Inr (if channel_blocked signals
             then max (saturating_sub_w (cw_value cwnd) (channel_outbound_size signals))
                      (cwnd_min_value cwnd)
             else cw_value cwnd)
      else
        (let min_usec = (case min_rtt_usec rtt of None \<Rightarrow> - 1 | Some u \<Rightarrow> u);
             ewma_usec = (case ewma_rtt_usec rtt of None \<Rightarrow> - 1 | Some u \<Rightarrow> u) in
         udiv (saturating_mul_w (cw_value cwnd) min_usec) ewma_usec))"

definition vegas_new :: "vegas_params \<Rightarrow> cc_state \<Rightarrow> congestion_window \<Rightarrow> proto_error + vegas" where
  "vegas_new params state cwnd =
     res_bind (update_rate state cwnd) (\<lambda>rate.
       Inr \<lparr>v_params = params, v_bdp = 0, v_cwnd = cwnd, num_cell_until_sendme = sendme_inc cwnd,
         num_sendme_until_cwnd_update = rate, num_sendme_per_cwnd = 0, num_inflight = 0,
         is_blocked_on_chan = False\<rparr>)"

definition vegas_is_next_cell_sendme :: "vegas \<Rightarrow> proto_error + bool" where
  "vegas_is_next_cell_sendme v =
     res_bind (urem (num_inflight v) (sendme_inc (v_cwnd v))) (\<lambda>r. Inr (r = 0))"

definition vegas_can_send :: "vegas \<Rightarrow> bool" where
  "vegas_can_send v \<longleftrightarrow> num_inflight v < cw_value (v_cwnd v)"

text \<open>
  \<open>Vegas::sendme_received\<close> in the order of its source: the countdowns and the BDP, the
  change of the blocked flag, the slow-start and the steady-state adjustment of the window, the
  reset of the countdowns, and the number of cells in flight.
\<close>

definition vegas_note_sendme ::
  "rtt_estimator \<Rightarrow> congestion_signals \<Rightarrow> vegas \<Rightarrow> proto_error + vegas" where
  "vegas_note_sendme rtt signals v =
     (let v = v\<lparr>num_sendme_until_cwnd_update := saturating_sub_w (num_sendme_until_cwnd_update v) 1,
                num_sendme_per_cwnd := saturating_sub_w (num_sendme_per_cwnd v) 1\<rparr> in
      res_bind (bdp_update (v_cwnd v) rtt signals) (\<lambda>b.
        let v = v\<lparr>v_bdp := b\<rparr>;
            v = (if rtt_is_ready rtt then
                   (if channel_blocked signals then
                      (if \<not> is_blocked_on_chan v then v\<lparr>num_sendme_until_cwnd_update := 0\<rparr> else v)
                    else
                      (if is_blocked_on_chan v then v\<lparr>num_sendme_until_cwnd_update := 0\<rparr> else v))
                 else v) in
        Inr (v\<lparr>is_blocked_on_chan := channel_blocked signals\<rparr>)))"

definition vegas_slow_start :: "u32 \<Rightarrow> vegas \<Rightarrow> proto_error + (cc_state \<times> vegas)" where
  "vegas_slow_start queue_use v =
     (let qp = cell_in_queue_params (v_params v) in
      res_bind
        (if queue_use < vq_gamma qp \<and> \<not> is_blocked_on_chan v then
           (if cw_is_full (v_cwnd v) then
              res_bind (rfc3742_ss_inc (vq_ss_cwnd_cap qp) (v_cwnd v)) (\<lambda>(inc, c).
              res_bind (sendme_per_cwnd c) (\<lambda>n.
                Inr (if inc * n \<le> cwnd_increment c * increment_rate c then Steady else SlowStart,
                     v\<lparr>v_cwnd := c\<rparr>)))
            else Inr (SlowStart, v))
         else Inr (Steady, v\<lparr>v_cwnd := cwnd_set (v_bdp v + vq_gamma qp) (v_cwnd v)\<rparr>))
        (\<lambda>(state, v).
           Inr (if cw_value (v_cwnd v) \<ge> ss_cwnd_max (v_params v)
                then (Steady, v\<lparr>v_cwnd := cwnd_set (ss_cwnd_max (v_params v)) (v_cwnd v)\<rparr>)
                else (state, v))))"

definition vegas_steady :: "u32 \<Rightarrow> vegas \<Rightarrow> vegas" where
  "vegas_steady queue_use v =
     (let qp = cell_in_queue_params (v_params v) in
      if num_sendme_until_cwnd_update v = 0 then
        (if queue_use > vq_delta qp
         then v\<lparr>v_cwnd := cwnd_set (v_bdp v + vq_delta qp - cwnd_increment (v_cwnd v)) (v_cwnd v)\<rparr>
         else if queue_use > vq_beta qp \<or> is_blocked_on_chan v
         then v\<lparr>v_cwnd := cwnd_dec (v_cwnd v)\<rparr>
         else if cw_is_full (v_cwnd v) \<and> queue_use < vq_alpha qp
         then v\<lparr>v_cwnd := cwnd_inc_step (v_cwnd v)\<rparr>
         else v)
      else v)"

definition vegas_reset_counters :: "cc_state \<Rightarrow> vegas \<Rightarrow> proto_error + vegas" where
  "vegas_reset_counters state v =
     res_bind (if num_sendme_until_cwnd_update v = 0
               then res_bind (update_rate state (v_cwnd v))
                      (\<lambda>r. Inr (v\<lparr>num_sendme_until_cwnd_update := r\<rparr>))
               else Inr v) (\<lambda>v.
     res_bind (if num_sendme_per_cwnd v = 0
               then res_bind (sendme_per_cwnd (v_cwnd v)) (\<lambda>n. Inr (v\<lparr>num_sendme_per_cwnd := n\<rparr>))
               else Inr v) (\<lambda>v.
     if cwnd_full_per_cwnd (v_params v) \<noteq> 0
     then res_bind (sendme_per_cwnd (v_cwnd v)) (\<lambda>n.
            Inr (if num_sendme_per_cwnd v = n then v\<lparr>v_cwnd := reset_full (v_cwnd v)\<rparr> else v))
     else res_bind (update_rate state (v_cwnd v)) (\<lambda>r.
            Inr (if num_sendme_until_cwnd_update v = r then v\<lparr>v_cwnd := reset_full (v_cwnd v)\<rparr> else v))))"

definition vegas_ack :: "vegas \<Rightarrow> vegas" where
  "vegas_ack v = v\<lparr>num_inflight := saturating_sub_w (num_inflight v) (sendme_inc (v_cwnd v))\<rparr>"

definition vegas_sendme_received ::
  "rtt_estimator \<Rightarrow> congestion_signals \<Rightarrow> cc_state \<Rightarrow> vegas \<Rightarrow> proto_error + (cc_state \<times> vegas)" where
  "vegas_sendme_received rtt signals state v =
     res_bind (vegas_note_sendme rtt signals v) (\<lambda>v.
       if \<not> rtt_is_ready rtt \<and> \<not> is_blocked_on_chan v then Inr (state, vegas_ack v)
       else
         (let queue_use = saturating_sub_w (cw_value (v_cwnd v)) (v_bdp v);
              v = v\<lparr>v_cwnd := eval_fullness (num_inflight v) (cwnd_full_gap (v_params v))
                                (cwnd_full_min_pct (v_params v)) (v_cwnd v)\<rparr> in
          res_bind (if in_slow_start state then vegas_slow_start queue_use v
                    else Inr (state, vegas_steady queue_use v)) (\<lambda>(state, v).
          res_bind (vegas_reset_counters state v) (\<lambda>v.
            Inr (state, vegas_ack v)))))"

definition vegas_sendme_sent :: "vegas \<Rightarrow> vegas" where
  "vegas_sendme_sent v = v\<lparr>num_cell_until_sendme := sendme_inc (v_cwnd v)\<rparr>"

definition vegas_data_received :: "vegas \<Rightarrow> bool \<times> vegas" where
  "vegas_data_received v =
     (if num_cell_until_sendme v = 0 then (False, v)
      else
        (let v = v\<lparr>num_cell_until_sendme := saturating_sub_w (num_cell_until_sendme v) 1\<rparr> in
         (num_cell_until_sendme v = 0, v)))"

definition vegas_data_sent :: "vegas \<Rightarrow> vegas" where
  "vegas_data_sent v = v\<lparr>num_inflight := saturating_add_w (num_inflight v) 1\<rparr>"

section \<open>Congestion control of a hop\<close>

datatype cc_algorithm = AFixed fixed_window | AVegas vegas

definition alg_uses_stream_sendme :: "cc_algorithm \<Rightarrow> bool" where
  "alg_uses_stream_sendme a = (case a of AFixed _ \<Rightarrow> True | AVegas _ \<Rightarrow> False)"

definition alg_uses_xon_xoff :: "cc_algorithm \<Rightarrow> bool" where
  "alg_uses_xon_xoff a = (case a of AFixed _ \<Rightarrow> False | AVegas _ \<Rightarrow> True)"

definition alg_can_send :: "cc_algorithm \<Rightarrow> bool" where
  "alg_can_send a = (case a of AFixed f \<Rightarrow> fixed_can_send f | AVegas v \<Rightarrow> vegas_can_send v)"

definition alg_cwnd :: "cc_algorithm \<Rightarrow> congestion_window option" where
  "alg_cwnd a = (case a of AFixed _ \<Rightarrow> None | AVegas v \<Rightarrow> Some (v_cwnd v))"

definition alg_is_next_cell_sendme :: "cc_algorithm \<Rightarrow> proto_error + bool" where
  "alg_is_next_cell_sendme a =
     (case a of AFixed f \<Rightarrow> Inr (fixed_is_next_cell_sendme f)
      | AVegas v \<Rightarrow> vegas_is_next_cell_sendme v)"

definition alg_data_received :: "(cc_algorithm, bool) op" where
  "alg_data_received a =
     (case a of
        AFixed f \<Rightarrow> (case fixed_data_received f of (r, f') \<Rightarrow> (r, AFixed f'))
      | AVegas v \<Rightarrow> (case vegas_data_received v of (b, v') \<Rightarrow> (Inr b, AVegas v')))"

definition alg_data_sent :: "(cc_algorithm, unit) op" where
  "alg_data_sent a =
     (case a of
        AFixed f \<Rightarrow> (case fixed_data_sent f of (r, f') \<Rightarrow> (r, AFixed f'))
      | AVegas v \<Rightarrow> (Inr (), AVegas (vegas_data_sent v)))"

definition alg_sendme_sent :: "(cc_algorithm, unit) op" where
  "alg_sendme_sent a =
     (case a of
        AFixed f \<Rightarrow> (case fixed_sendme_sent f of (r, f') \<Rightarrow> (r, AFixed f'))
      | AVegas v \<Rightarrow> (Inr (), AVegas (vegas_sendme_sent v)))"

definition alg_sendme_received ::
  "rtt_estimator \<Rightarrow> congestion_signals \<Rightarrow> (cc_state \<times> cc_algorithm, unit) op" where
  "alg_sendme_received rtt signals sa =
     (case sa of
        (state, AFixed f) \<Rightarrow> (case fixed_sendme_received f of (r, f') \<Rightarrow> (r, (state, AFixed f')))
      | (state, AVegas v) \<Rightarrow>
          (case vegas_sendme_received rtt signals state v of
             Inl e \<Rightarrow> (Inl e, (state, AVegas v))
           | Inr (state', v') \<Rightarrow> (Inr (), (state', AVegas v'))))"

record congestion_control =
  cc_state_of :: cc_state
  cc_validator :: "sendme_tag sendme_validator"
  cc_rtt :: rtt_estimator
  cc_alg :: cc_algorithm

definition cc_new :: "cc_params \<Rightarrow> proto_error + congestion_control" where
  "cc_new params =
     res_bind
       (case alg params of
          FixedWindowAlg p \<Rightarrow> Inr (AFixed (fixed_new p))
        | VegasAlg p \<Rightarrow>
            res_bind (vegas_new p SlowStart (cwnd_new (ccp_cwnd params))) (\<lambda>v. Inr (AVegas v)))
       (\<lambda>a. Inr \<lparr>cc_state_of = SlowStart, cc_validator = validator_new,
                 cc_rtt = rtt_new (ccp_rtt params), cc_alg = a\<rparr>)"

definition cc_can_send :: "congestion_control \<Rightarrow> bool" where
  "cc_can_send c = alg_can_send (cc_alg c)"

text \<open>The update of the estimate, made only for an algorithm that has a congestion window.\<close>

definition cc_update_rtt :: "instant \<Rightarrow> (congestion_control, unit) op" where
  "cc_update_rtt now c =
     (case alg_cwnd (cc_alg c) of
        None \<Rightarrow> (Inr (), c)
      | Some cwnd \<Rightarrow>
          (case rtt_update now (cc_state_of c) cwnd (cc_rtt c) of
             (r, rtt) \<Rightarrow> (res_map_err rtt_error_msg r, c\<lparr>cc_rtt := rtt\<rparr>)))"

definition note_sendme_received ::
  "instant \<Rightarrow> sendme_tag \<Rightarrow> congestion_signals \<Rightarrow> (congestion_control, unit) op" where
  "note_sendme_received now tag signals =
     op_bind (op_field cc_validator (\<lambda>t c. c\<lparr>cc_validator := t\<rparr>) (validate (Some tag))) (\<lambda>_.
     op_bind (cc_update_rtt now) (\<lambda>_ c.
       case alg_sendme_received (cc_rtt c) signals (cc_state_of c, cc_alg c) of
         (r, (state, a)) \<Rightarrow> (r, c\<lparr>cc_state_of := state, cc_alg := a\<rparr>)))"

definition note_sendme_sent :: "(congestion_control, unit) op" where
  "note_sendme_sent = op_field cc_alg (\<lambda>a c. c\<lparr>cc_alg := a\<rparr>) alg_sendme_sent"

definition note_data_received :: "(congestion_control, bool) op" where
  "note_data_received = op_field cc_alg (\<lambda>a c. c\<lparr>cc_alg := a\<rparr>) alg_data_received"

definition note_data_sent :: "instant \<Rightarrow> sendme_tag \<Rightarrow> (congestion_control, unit) op" where
  "note_data_sent now tag =
     op_bind (op_field cc_alg (\<lambda>a c. c\<lparr>cc_alg := a\<rparr>) alg_data_sent) (\<lambda>_ c.
       case alg_is_next_cell_sendme (cc_alg c) of
         Inl e \<Rightarrow> (Inl e, c)
       | Inr b \<Rightarrow>
           (if b then
              (let c = c\<lparr>cc_validator := record_tag tag (cc_validator c)\<rparr> in
               (Inr (), if alg_cwnd (cc_alg c) \<noteq> None
                        then c\<lparr>cc_rtt := expect_sendme now (cc_rtt c)\<rparr> else c))
            else (Inr (), c)))"

end
