(* ===== verification/Congestion_Facts.thy ===== *)
theory Congestion_Facts
  imports Congestion
begin

text \<open>
  Facts about the congestion-control operations of \<open>Congestion\<close>: what each of them does to the
  number of cells in flight, that none of them panics on parameters within the ranges of the
  consensus, and the bound on the congestion window.
\<close>

section \<open>Word arithmetic\<close>

lemma udiv_ok [simp]: "b \<noteq> 0 \<Longrightarrow> udiv a b = Inr (a div b)"
  by (simp add: udiv_def)

lemma unat_mult_small:
  "unat a * unat b < 2 ^ LENGTH('a) \<Longrightarrow> unat (a * b) = unat a * unat (b :: 'a::len word)"
  by (simp add: unat_mult_lem)

lemma unat_add_small:
  "unat a + unat b < 2 ^ LENGTH('a) \<Longrightarrow> unat (a + b) = unat a + unat (b :: 'a::len word)"
  by (simp add: unat_add_lem)

lemma unat_le_numeral: "a \<le> numeral k \<Longrightarrow> unat (a :: 'a::len word) \<le> numeral k"
  by (metis le_trans mod_less_eq_dividend unat_numeral word_le_nat_alt)

lemma mult_ne_zero_w:
  fixes a b :: "'a::len word"
  assumes "a \<noteq> 0" "b \<noteq> 0" "unat a * unat b < 2 ^ LENGTH('a)"
  shows "a * b \<noteq> 0"
proof -
  have "unat (a * b) = unat a * unat b" using assms(3) by (rule unat_mult_small)
  moreover have "unat a \<noteq> 0" "unat b \<noteq> 0" using assms(1,2) by (simp_all add: unat_eq_0)
  ultimately show ?thesis by auto
qed

lemma unat_saturating_sub: "unat (saturating_sub_w a b) = unat a - unat b"
  by (auto simp: saturating_sub_w_def unat_sub word_le_nat_alt)

lemma unat_saturating_add:
  "unat a + unat b < 2 ^ LENGTH('a) \<Longrightarrow> unat (saturating_add_w a b) = unat a + unat (b :: 'a::len word)"
  by (simp add: saturating_add_w_def unat_add_lem)

lemma double_ne_zero: "a \<noteq> 0 \<Longrightarrow> a < 0x80000000 \<Longrightarrow> a * 2 \<noteq> (0 :: u32)"
  by (rule mult_ne_zero_w) (simp_all add: word_less_nat_alt)

lemma dvd_of_mod_w: "b \<noteq> 0 \<Longrightarrow> a mod b = 0 \<longleftrightarrow> unat b dvd unat (a :: 'a::len word)"
  by (simp add: dvd_eq_mod_eq_0 unat_mod flip: unat_eq_0)

section \<open>Parameters of the consensus\<close>

text \<open>
  The ranges \<open>tor-netdir/src/params.rs\<close> accepts for the parameters the window arithmetic
  depends on, with the increment of the steady state no larger than the \<open>delta\<close> threshold.
\<close>

definition cwnd_params_ok :: "cwnd_params \<Rightarrow> bool" where
  "cwnd_params_ok p \<longleftrightarrow>
     sendme_inc_param p \<noteq> 0 \<and> sendme_inc_param p \<le> 255 \<and>
     cwnd_inc_rate p \<noteq> 0 \<and> cwnd_inc_rate p \<le> 250 \<and>
     cwnd_init p < 0x80000000 \<and> cwnd_max p < 0x80000000 \<and> cwnd_min p < 0x80000000"

definition vegas_params_ok :: "cwnd_params \<Rightarrow> vegas_params \<Rightarrow> bool" where
  "vegas_params_ok p vp \<longleftrightarrow>
     cwnd_params_ok p \<and> ss_cwnd_max vp < 0x80000000 \<and>
     vq_delta (cell_in_queue_params vp) \<le> 1000 \<and> cwnd_inc p \<le> vq_delta (cell_in_queue_params vp)"

definition cwnd_bound :: "cwnd_params \<Rightarrow> vegas_params \<Rightarrow> u32" where
  "cwnd_bound p vp = max (max (cwnd_init p) (ss_cwnd_max vp)) (max (cwnd_min p) (cwnd_max p))"

definition vegas_inv :: "vegas \<Rightarrow> bool" where
  "vegas_inv v \<longleftrightarrow> vegas_params_ok (cw_params (v_cwnd v)) (v_params v) \<and>
     cw_value (v_cwnd v) \<le> cwnd_bound (cw_params (v_cwnd v)) (v_params v)"

lemma vegas_inv_small: "vegas_inv v \<Longrightarrow> cw_value (v_cwnd v) < 0x80000000"
  by (rule le_less_trans [of _ "cwnd_bound (cw_params (v_cwnd v)) (v_params v)"])
    (simp_all add: vegas_inv_def vegas_params_ok_def cwnd_params_ok_def cwnd_bound_def)

lemma rate_ne_zero:
  assumes "cwnd_params_ok (cw_params c)"
  shows "increment_rate c * sendme_inc c \<noteq> 0" "sendme_inc c \<noteq> 0"
proof -
  have r: "unat (increment_rate c) \<le> 250" and s: "unat (sendme_inc c) \<le> 255"
    using assms by (auto simp: cwnd_params_ok_def increment_rate_def sendme_inc_def intro: unat_le_numeral)
  have "unat (increment_rate c) * unat (sendme_inc c) \<le> 250 * 255"
    using r s by (rule mult_le_mono)
  then show "increment_rate c * sendme_inc c \<noteq> 0"
    using assms by (intro mult_ne_zero_w)
      (simp_all add: cwnd_params_ok_def increment_rate_def sendme_inc_def)
  show "sendme_inc c \<noteq> 0" using assms by (simp add: cwnd_params_ok_def sendme_inc_def)
qed

lemma update_rate_ok: "cwnd_params_ok (cw_params c) \<Longrightarrow> \<exists>r. update_rate st c = Inr r"
  by (simp add: update_rate_def rate_ne_zero)

lemma sendme_per_cwnd_ok: "cwnd_params_ok (cw_params c) \<Longrightarrow> \<exists>n. sendme_per_cwnd c = Inr n"
  by (simp add: sendme_per_cwnd_def rate_ne_zero)

lemma rfc3742_ss_inc_ok:
  assumes "cw_value c < 0x80000000"
  shows "\<exists>inc. rfc3742_ss_inc cap c = Inr (inc, c\<lparr>cw_value := cw_value c + inc\<rparr>)"
proof (cases "cw_value c \<le> cap")
  case False
  then have "cw_value c \<noteq> 0" by auto
  then show ?thesis using False assms double_ne_zero [of "cw_value c"]
    by (simp add: rfc3742_ss_inc_def)
qed (simp add: rfc3742_ss_inc_def)

lemma eval_fullness_fields [simp]:
  "cw_params (eval_fullness i g m c) = cw_params c"
  "cw_value (eval_fullness i g m c) = cw_value c"
  "sendme_inc (eval_fullness i g m c) = sendme_inc c"
  by (simp_all add: eval_fullness_def sendme_inc_def)

section \<open>Vegas\<close>

lemma vegas_note_sendme_ok:
  assumes "ewma_rtt_usec rtt \<noteq> Some 0"
  shows "\<exists>v'. vegas_note_sendme rtt sig v = Inr v' \<and> v_cwnd v' = v_cwnd v \<and> v_params v' = v_params v \<and>
           num_inflight v' = num_inflight v \<and>
           num_cell_until_sendme v' = num_cell_until_sendme v"
proof -
  have "\<exists>b. bdp_update (v_cwnd v) rtt sig = Inr b"
    using assms by (cases "clock_stalled rtt"; cases "ewma_rtt_usec rtt")
      (auto simp: bdp_update_def Let_def)
  then show ?thesis by (auto simp: vegas_note_sendme_def Let_def)
qed

lemma vegas_slow_start_ok:
  assumes "vegas_inv v"
  shows "\<exists>st' v'. vegas_slow_start q v = Inr (st', v') \<and> vegas_inv v' \<and>
           num_inflight v' = num_inflight v \<and> cw_params (v_cwnd v') = cw_params (v_cwnd v) \<and>
           num_cell_until_sendme v' = num_cell_until_sendme v"
proof -
  let ?c = "v_cwnd v"
  obtain inc where inc: "rfc3742_ss_inc (vq_ss_cwnd_cap (cell_in_queue_params (v_params v))) ?c =
      Inr (inc, ?c\<lparr>cw_value := cw_value ?c + inc\<rparr>)"
    using rfc3742_ss_inc_ok vegas_inv_small [OF assms] by blast
  have "cwnd_params_ok (cw_params (?c\<lparr>cw_value := cw_value ?c + inc\<rparr>))"
    using assms by (simp add: vegas_inv_def vegas_params_ok_def)
  then obtain n where n: "sendme_per_cwnd (?c\<lparr>cw_value := cw_value ?c + inc\<rparr>) = Inr n"
    using sendme_per_cwnd_ok by blast
  have ss: "ss_cwnd_max (v_params v) \<le> cwnd_bound (cw_params ?c) (v_params v)"
    by (simp add: cwnd_bound_def le_max_iff_disj)
  then have below: "x \<le> cwnd_bound (cw_params ?c) (v_params v)" if "\<not> ss_cwnd_max (v_params v) \<le> x" for x
    using that by auto
  show ?thesis
    using assms inc n ss below
    by (auto simp: vegas_slow_start_def Let_def vegas_inv_def vegas_params_ok_def cwnd_set_def)
qed

lemma vegas_steady_ok:
  assumes "vegas_inv v" and q: "q = saturating_sub_w (cw_value (v_cwnd v)) (v_bdp v)"
  shows "vegas_inv (vegas_steady q v)" "num_inflight (vegas_steady q v) = num_inflight v"
    "cw_params (v_cwnd (vegas_steady q v)) = cw_params (v_cwnd v)"
    "num_cell_until_sendme (vegas_steady q v) = num_cell_until_sendme v"
proof -
  let ?c = "v_cwnd v" and ?d = "vq_delta (cell_in_queue_params (v_params v))"
  let ?b = "cwnd_bound (cw_params ?c) (v_params v)"
  have inv: "cw_value ?c \<le> ?b" "cwnd_inc (cw_params ?c) \<le> ?d"
    "cwnd_max (cw_params ?c) \<le> ?b" "cwnd_min (cw_params ?c) \<le> ?b"
    using assms(1) by (simp_all add: vegas_inv_def vegas_params_ok_def cwnd_bound_def le_max_iff_disj)
  have drop: "v_bdp v + ?d - cwnd_increment ?c \<le> ?b" if "q > ?d"
  proof -
    have "unat ?d < unat (cw_value ?c) - unat (v_bdp v)"
      using that by (simp add: q word_less_nat_alt unat_saturating_sub)
    then have lt: "unat (v_bdp v) + unat ?d < unat (cw_value ?c)" by linarith
    then have s: "unat (v_bdp v + ?d) = unat (v_bdp v) + unat ?d"
      using unsigned_less [of "cw_value ?c", where ?'a = nat] by (intro unat_add_small) simp
    have "cwnd_increment ?c \<le> v_bdp v + ?d"
      using inv(2) s by (simp add: cwnd_increment_def word_le_nat_alt)
    then have "unat (v_bdp v + ?d - cwnd_increment ?c) \<le> unat (v_bdp v + ?d)"
      by (simp add: unat_sub)
    then show ?thesis using lt s inv(1) by (simp add: word_le_nat_alt)
  qed
  have dec: "cw_value (cwnd_dec ?c) \<le> ?b"
    using inv by (auto simp: cwnd_dec_def word_le_nat_alt max_def unat_saturating_sub)
  have inc: "cw_value (cwnd_inc_step ?c) \<le> ?b"
    using inv by (auto simp: cwnd_inc_step_def min_def)
  show "vegas_inv (vegas_steady q v)"
    using assms(1) drop dec inc
    by (auto simp: vegas_steady_def Let_def vegas_inv_def cwnd_set_def cwnd_dec_def cwnd_inc_step_def)
qed (simp_all add: vegas_steady_def Let_def cwnd_set_def cwnd_dec_def cwnd_inc_step_def)

lemma vegas_reset_counters_ok:
  assumes "vegas_inv v"
  shows "\<exists>v'. vegas_reset_counters st v = Inr v' \<and> vegas_inv v' \<and> num_inflight v' = num_inflight v \<and>
           cw_params (v_cwnd v') = cw_params (v_cwnd v) \<and>
           num_cell_until_sendme v' = num_cell_until_sendme v"
proof -
  have ok: "cwnd_params_ok (cw_params (v_cwnd v))"
    using assms by (simp add: vegas_inv_def vegas_params_ok_def)
  obtain r n where "update_rate st (v_cwnd v) = Inr r" "sendme_per_cwnd (v_cwnd v) = Inr n"
    using update_rate_ok [OF ok] sendme_per_cwnd_ok [OF ok] by blast
  then show ?thesis using assms
    by (simp add: vegas_reset_counters_def vegas_inv_def reset_full_def)
qed

lemma vegas_ack_fields [simp]:
  "vegas_inv (vegas_ack v) = vegas_inv v"
  "v_cwnd (vegas_ack v) = v_cwnd v"
  "num_cell_until_sendme (vegas_ack v) = num_cell_until_sendme v"
  "unat (num_inflight (vegas_ack v)) = unat (num_inflight v) - unat (sendme_inc (v_cwnd v))"
  by (simp_all add: vegas_ack_def vegas_inv_def unat_saturating_sub)

lemma vegas_sendme_received_ok:
  assumes "vegas_inv v" and "ewma_rtt_usec rtt \<noteq> Some 0"
  shows "\<exists>st' v'. vegas_sendme_received rtt sig st v = Inr (st', v') \<and> vegas_inv v' \<and>
           unat (num_inflight v') = unat (num_inflight v) - unat (sendme_inc (v_cwnd v)) \<and>
           cw_params (v_cwnd v') = cw_params (v_cwnd v) \<and>
           num_cell_until_sendme v' = num_cell_until_sendme v"
proof -
  obtain w where w: "vegas_note_sendme rtt sig v = Inr w" "v_cwnd w = v_cwnd v"
      "v_params w = v_params v" "num_inflight w = num_inflight v"
      "num_cell_until_sendme w = num_cell_until_sendme v"
    using vegas_note_sendme_ok [OF assms(2)] by blast
  have invw: "vegas_inv w" using assms(1) w by (simp add: vegas_inv_def)
  show ?thesis
  proof (cases "\<not> rtt_is_ready rtt \<and> \<not> is_blocked_on_chan w")
    case True
    then show ?thesis using w invw by (simp add: vegas_sendme_received_def)
  next
    case False
    let ?q = "saturating_sub_w (cw_value (v_cwnd w)) (v_bdp w)"
    let ?x = "w\<lparr>v_cwnd := eval_fullness (num_inflight w) (cwnd_full_gap (v_params w))
                  (cwnd_full_min_pct (v_params w)) (v_cwnd w)\<rparr>"
    have invx: "vegas_inv ?x" using invw by (simp add: vegas_inv_def)
    obtain st' y where y: "(if in_slow_start st then vegas_slow_start ?q ?x
        else Inr (st, vegas_steady ?q ?x)) = Inr (st', y)" "vegas_inv y"
        "num_inflight y = num_inflight w" "cw_params (v_cwnd y) = cw_params (v_cwnd w)"
        "num_cell_until_sendme y = num_cell_until_sendme w"
      using vegas_slow_start_ok [OF invx, of ?q] vegas_steady_ok [OF invx, of ?q]
      by (cases "in_slow_start st") auto
    obtain z where z: "vegas_reset_counters st' y = Inr z" "vegas_inv z"
        "num_inflight z = num_inflight y" "cw_params (v_cwnd z) = cw_params (v_cwnd y)"
        "num_cell_until_sendme z = num_cell_until_sendme y"
      using vegas_reset_counters_ok [OF y(2)] by blast
    have "vegas_sendme_received rtt sig st v = Inr (st', vegas_ack z)"
      using w(1) y(1) z(1)
      by (simp only: vegas_sendme_received_def Let_def res_bind_simps if_not_P [OF False] prod.case)
    then show ?thesis using z y w by (simp add: sendme_inc_def)
  qed
qed

lemma vegas_data_sent_ok:
  assumes "vegas_can_send v"
  shows "unat (num_inflight (vegas_data_sent v)) = Suc (unat (num_inflight v))"
proof -
  have "unat (num_inflight v) < unat (cw_value (v_cwnd v))"
    using assms by (simp add: vegas_can_send_def word_less_nat_alt)
  then have "unat (num_inflight v) + unat (1 :: u32) < 2 ^ LENGTH(32)"
    using unsigned_less [of "cw_value (v_cwnd v)", where ?'a = nat] by simp
  from unat_saturating_add [OF this] show ?thesis by (simp add: vegas_data_sent_def)
qed

section \<open>The estimator\<close>

text \<open>
  The smoothed estimate is at least one microsecond and below \<open>2 ^ 31\<close> of them (35 minutes)
  when every measurement the clock does not report as zero is.
\<close>

definition plausible_rtt :: "duration \<Rightarrow> bool" where
  "plausible_rtt d \<longleftrightarrow> d = 0 \<or> (1 \<le> as_micros d \<and> as_micros d < 2 ^ 31)"

definition rtt_ok :: "rtt_estimator \<Rightarrow> bool" where
  "rtt_ok r \<longleftrightarrow> ewma_max (rtt_params_of r) < 0x80000000 \<and> ewma_ss_max (rtt_params_of r) < 0x80000000 \<and>
     (\<forall>d. ewma_rtt r = Some d \<longrightarrow> 1 \<le> as_micros d \<and> as_micros d < 2 ^ 31)"

lemma rtt_ok_ewma: "rtt_ok r \<Longrightarrow> ewma_rtt_usec r \<noteq> Some 0"
  by (auto simp: rtt_ok_def ewma_rtt_usec_def u32_or_max_def simp flip: unat_eq_0)

lemma new_ewma_bounds:
  fixes n raw p :: u64
  assumes "2 \<le> unat n" "unat n < 2 ^ 31" "1 \<le> unat raw" "unat raw < 2 ^ 31"
    and "1 \<le> unat p" "unat p < 2 ^ 31"
  shows "1 \<le> unat (new_ewma_rtt_usec n raw (Some p))" "unat (new_ewma_rtt_usec n raw (Some p)) < 2 ^ 31"
proof -
  have n1: "unat (n - 1) = unat n - 1"
    using assms(1) by (intro unat_minus_one_w) auto
  have n2: "unat (n + 1) = unat n + 1"
    using unat_add_small [of n 1] assms(2) by simp
  have r2: "unat (raw * 2) = unat raw * 2"
    using unat_mult_small [of raw 2] assms(4) by simp
  have "(unat n - 1) * unat p \<le> 2 ^ 31 * 2 ^ 31"
    using assms by (intro mult_le_mono) auto
  then have pr: "unat ((n - 1) * p) = (unat n - 1) * unat p"
    and pl: "(unat n - 1) * unat p \<le> 2 ^ 62"
    using unat_mult_small [of "n - 1" p] by (simp_all add: n1)
  have sm: "unat (raw * 2 + (n - 1) * p) = unat raw * 2 + (unat n - 1) * unat p"
    using unat_add_small [of "raw * 2" "(n - 1) * p"] pl assms(4) by (simp add: r2 pr)
  have eq: "unat (new_ewma_rtt_usec n raw (Some p)) = (unat raw * 2 + (unat n - 1) * unat p) div (unat n + 1)"
    by (simp add: new_ewma_rtt_usec_def unat_div sm n2)
  have "1 * 2 + (unat n - 1) * 1 \<le> unat raw * 2 + (unat n - 1) * unat p"
    using assms by (intro add_mono mult_le_mono) auto
  then have lo: "unat n + 1 \<le> unat raw * 2 + (unat n - 1) * unat p" using assms(1) by linarith
  have "(unat n + 1) div (unat n + 1) \<le> (unat raw * 2 + (unat n - 1) * unat p) div (unat n + 1)"
    using lo by (rule div_le_mono)
  then show "1 \<le> unat (new_ewma_rtt_usec n raw (Some p))" by (simp add: eq)
  have "unat raw * 2 + (unat n - 1) * unat p \<le> (2 ^ 31 - 1) * 2 + (unat n - 1) * (2 ^ 31 - 1)"
    using assms by (intro add_mono mult_le_mono) auto
  also have "\<dots> = (2 ^ 31 - 1) * (unat n + 1)"
    using assms(1) by (simp add: algebra_simps)
  finally have "(unat raw * 2 + (unat n - 1) * unat p) div (unat n + 1) \<le>
      ((2 ^ 31 - 1) * (unat n + 1)) div (unat n + 1)"
    by (rule div_le_mono)
  also have "\<dots> = 2 ^ 31 - 1" by (rule nonzero_mult_div_cancel_right) simp
  finally show "unat (new_ewma_rtt_usec n raw (Some p)) < 2 ^ 31" by (simp add: eq)
qed

lemma unat_ucast_u64 [simp]: "unat (ucast (m :: u32) :: u64) = unat m"
proof -
  have "unat m < 2 ^ 64" using unsigned_less [of m, where ?'a = nat] by simp
  then show ?thesis by (simp add: unsigned_ucast_eq take_bit_nat_eq_self)
qed

lemma rtt_ewma_n_ok:
  assumes "cwnd_params_ok (cw_params c)" and "rtt_ok r"
  shows "\<exists>n. rtt_ewma_n st c r = Inr n \<and> 2 \<le> unat n \<and> unat n < 2 ^ 31"
proof -
  have two: "unat (max (ucast (m :: u32)) (2 :: u64)) = max (unat m) 2" for m
    by (simp add: max_def word_le_nat_alt)
  have mn: "unat (min a b) < 2 ^ 31" if "b < 0x80000000" for a b :: u32
    using that by (auto simp: min_def word_less_nat_alt word_le_nat_alt)
  obtain rate where "update_rate st c = Inr rate" using update_rate_ok [OF assms(1)] by blast
  then show ?thesis using assms(2) mn
    by (auto simp: rtt_ewma_n_def rtt_ok_def two word_less_nat_alt)
qed

lemma as_micros_from_micros [simp]: "as_micros (from_micros u) = unat u"
  by (simp add: as_micros_def from_micros_def)

lemma is_clock_stalled_fields:
  assumes "is_clock_stalled raw ss r = (b, r')"
  shows "ewma_rtt r' = ewma_rtt r" "rtt_params_of r' = rtt_params_of r"
    "sendme_expected_from r' = sendme_expected_from r" "raw = 0 \<Longrightarrow> b"
  using assms by (auto simp: is_clock_stalled_def Let_def split: if_splits)

lemma update_min_rtt_fields [simp]:
  "ewma_rtt (update_min_rtt st c e r) = ewma_rtt r"
  "rtt_params_of (update_min_rtt st c e r) = rtt_params_of r"
  "sendme_expected_from (update_min_rtt st c e r) = sendme_expected_from r"
  by (simp_all add: update_min_rtt_def Let_def split: option.split)

lemma rtt_update_ok:
  assumes c: "cwnd_params_ok (cw_params c)" and r: "rtt_ok r"
    and q: "sendme_expected_from r = t0 # ts" and plaus: "plausible_rtt (now - t0)"
  shows "\<exists>r'. rtt_update now st c r = (Inr (), r') \<and> rtt_ok r' \<and> sendme_expected_from r' = ts"
proof -
  let ?r1 = "r\<lparr>sendme_expected_from := ts\<rparr>" and ?raw = "now - t0"
  obtain b r2 where st: "is_clock_stalled ?raw (in_slow_start st) ?r1 = (b, r2)"
    by (cases "is_clock_stalled ?raw (in_slow_start st) ?r1")
  note f2 = is_clock_stalled_fields [OF st]
  have ok2: "rtt_ok r2" using r f2 by (simp add: rtt_ok_def)
  show ?thesis
  proof (cases b)
    case True
    then show ?thesis using q st ok2 f2 by (simp add: rtt_update_def)
  next
    case False
    let ?r3 = "r2\<lparr>max_rtt := Some (case max_rtt r2 of None \<Rightarrow> ?raw | Some m \<Rightarrow> max m ?raw),
                  last_rtt := Some ?raw\<rparr>"
    have ok3: "rtt_ok ?r3" using ok2 by (simp add: rtt_ok_def)
    obtain n where n: "rtt_ewma_n st c ?r3 = Inr n" "2 \<le> unat n" "unat n < 2 ^ 31"
      using rtt_ewma_n_ok [OF c ok3] by blast
    have raw: "1 \<le> as_micros ?raw" "as_micros ?raw < 2 ^ 31"
      using plaus False f2(4) by (auto simp: plausible_rtt_def)
    then have rawu: "unat (of_nat (as_micros ?raw) :: u64) = as_micros ?raw" by simp
    let ?e = "new_ewma_rtt_usec n (of_nat (as_micros ?raw)) (map_option (\<lambda>d. of_nat (as_micros d)) (ewma_rtt r2))"
    have e: "1 \<le> unat ?e \<and> unat ?e < 2 ^ 31"
    proof (cases "ewma_rtt r2")
      case None
      then show ?thesis using raw by (simp add: new_ewma_rtt_usec_def)
    next
      case (Some d)
      then have d: "1 \<le> as_micros d" "as_micros d < 2 ^ 31" using ok2 by (auto simp: rtt_ok_def)
      then have "unat (of_nat (as_micros d) :: u64) = as_micros d" by simp
      then show ?thesis
        using new_ewma_bounds [of n "of_nat (as_micros ?raw)" "of_nat (as_micros d)"] n raw d rawu Some
        by simp
    qed
    have "rtt_update now st c r =
        (Inr (), update_min_rtt st c (from_micros ?e) (?r3\<lparr>ewma_rtt := Some (from_micros ?e)\<rparr>))"
      using q st False n(1) by (simp add: rtt_update_def Let_def)
    then show ?thesis using e ok2 f2 by (simp add: rtt_ok_def)
  qed
qed

section \<open>The fixed window\<close>

lemma fixed_data_sent_ok:
  assumes "fixed_can_send f"
  shows "\<exists>f'. fixed_data_sent f = (Inr (), f') \<and> unat (fw_sendwindow f') = unat (fw_sendwindow f) - 1 \<and>
           fw_recvwindow f' = fw_recvwindow f \<and> fw_params f' = fw_params f"
  using assms
  by (auto simp: fixed_can_send_def fixed_data_sent_def op_field_def send_window_take_spec unat_minus_one_w)

lemma fixed_sendme_received_ok:
  assumes "unat (fw_sendwindow f) + 100 \<le> 1000"
  shows "\<exists>f'. fixed_sendme_received f = (Inr (), f') \<and> unat (fw_sendwindow f') = unat (fw_sendwindow f) + 100 \<and>
           fw_recvwindow f' = fw_recvwindow f \<and> fw_params f' = fw_params f"
proof -
  have "unat (fw_sendwindow f + 100) = unat (fw_sendwindow f) + 100"
    using unat_add_small [of "fw_sendwindow f" 100] assms by simp
  then show ?thesis using assms
    by (simp add: fixed_sendme_received_def op_field_def send_window_put_def checked_add_w_def
        CircParams_def word_less_nat_alt)
qed

lemma fixed_data_received_ok:
  assumes "fw_recvwindow f \<noteq> 0"
  shows "\<exists>f'. fixed_data_received f = (Inr (100 dvd unat (fw_recvwindow f) - 1), f') \<and>
           unat (fw_recvwindow f') = unat (fw_recvwindow f) - 1 \<and> fw_sendwindow f' = fw_sendwindow f \<and> fw_params f' = fw_params f"
  using assms dvd_of_mod_w [of 100 "fw_recvwindow f - 1"]
  by (simp add: fixed_data_received_def op_field_def recv_window_take_spec CircParams_def
      unat_minus_one_w)

lemma fixed_sendme_sent_ok:
  assumes "unat (fw_recvwindow f) + 100 < 2 ^ 16"
  shows "\<exists>f'. fixed_sendme_sent f = (Inr (), f') \<and> unat (fw_recvwindow f') = unat (fw_recvwindow f) + 100 \<and>
           fw_sendwindow f' = fw_sendwindow f \<and> fw_params f' = fw_params f"
  using assms unat_add_small [of "fw_recvwindow f" 100]
  by (simp add: fixed_sendme_sent_def op_field_def recv_window_put_def checked_add_w_def CircParams_def)

lemma fixed_next_iff: "fixed_is_next_cell_sendme f \<longleftrightarrow> 100 dvd unat (fw_sendwindow f)"
  using dvd_of_mod_w [of 100 "fw_sendwindow f"]
  by (simp add: fixed_is_next_cell_sendme_def should_record_tag_def CircParams_def)

end
