(* ===== verification/Congestion_Link.thy ===== *)
theory Congestion_Link
  imports Congestion_Facts
begin

text \<open>
  A circuit hop seen from both its ends: the \<open>CongestionControl\<close> of the side that sends DATA
  cells, the one of the side that receives them, the DATA cells under way (each with the tag
  both sides compute for it) and the SENDME messages under way. The steps are what the circuit
  reactor does (\<open>tor-proto/src/tunnel/reactor/circuit.rs\<close>): it sends a counted cell when
  \<open>can_send\<close> allows it (\<open>send_relay_cell_inner\<close>), it counts a received one and answers with a
  SENDME when told to (\<open>handle_relay_cell\<close>), and it hands a received SENDME to
  \<open>note_sendme_received\<close> (\<open>handle_sendme\<close>). What an algorithm owes to the reactor is the locale
  \<open>cc_contract\<close>, which both algorithms satisfy.
\<close>

section \<open>The two ends\<close>

record link =
  l_sender :: congestion_control
  l_receiver :: congestion_control
  l_data :: "sendme_tag list"
  l_acks :: "sendme_tag list"

text \<open>The reactor's part in \<open>handle_relay_cell\<close> for a counted cell; the result is the SENDME it sends.\<close>

definition receive_data_cell :: "sendme_tag \<Rightarrow> (congestion_control, sendme_tag option) op" where
  "receive_data_cell tag =
     op_bind note_data_received (\<lambda>send_circ_sendme.
       if send_circ_sendme then op_bind note_sendme_sent (\<lambda>_. op_ret (Some tag))
       else op_ret None)"

datatype link_event =
    SendData instant sendme_tag
  | DeliverData
  | DeliverSendme instant congestion_signals

fun enabled :: "link_event \<Rightarrow> link \<Rightarrow> bool" where
  "enabled (SendData now tag) l = cc_can_send (l_sender l)"
| "enabled DeliverData l = (l_data l \<noteq> [])"
| "enabled (DeliverSendme now sig) l = (l_acks l \<noteq> [])"

fun exec :: "link_event \<Rightarrow> link \<Rightarrow> (proto_error + unit) \<times> link" where
  "exec (SendData now tag) l =
     (case note_data_sent now tag (l_sender l) of
        (Inl e, s) \<Rightarrow> (Inl e, l\<lparr>l_sender := s\<rparr>)
      | (Inr _, s) \<Rightarrow> (Inr (), l\<lparr>l_sender := s, l_data := l_data l @ [tag]\<rparr>))"
| "exec DeliverData l =
     (case receive_data_cell (hd (l_data l)) (l_receiver l) of
        (Inl e, r) \<Rightarrow> (Inl e, l\<lparr>l_receiver := r\<rparr>)
      | (Inr None, r) \<Rightarrow> (Inr (), l\<lparr>l_receiver := r, l_data := tl (l_data l)\<rparr>)
      | (Inr (Some t), r) \<Rightarrow>
          (Inr (), l\<lparr>l_receiver := r, l_data := tl (l_data l), l_acks := l_acks l @ [t]\<rparr>))"
| "exec (DeliverSendme now sig) l =
     (case note_sendme_received now (hd (l_acks l)) sig (l_sender l) of
        (Inl e, s) \<Rightarrow> (Inl e, l\<lparr>l_sender := s\<rparr>)
      | (Inr _, s) \<Rightarrow> (Inr (), l\<lparr>l_sender := s, l_acks := tl (l_acks l)\<rparr>))"

text \<open>
  The clock: the time between the cell a SENDME acknowledges and the SENDME is either not
  measurable (zero) or at least a microsecond and below 35 minutes.
\<close>

definition ack_time_ok :: "instant \<Rightarrow> congestion_control \<Rightarrow> bool" where
  "ack_time_ok now c =
     (case sendme_expected_from (cc_rtt c) of [] \<Rightarrow> True | t0 # _ \<Rightarrow> plausible_rtt (now - t0))"

fun clock_ok :: "link_event \<Rightarrow> link \<Rightarrow> bool" where
  "clock_ok (DeliverSendme now sig) l = ack_time_ok now (l_sender l)"
| "clock_ok _ l = True"

definition link_new :: "cc_params \<Rightarrow> proto_error + link" where
  "link_new p =
     res_bind (cc_new p) (\<lambda>s. res_bind (cc_new p) (\<lambda>r.
       Inr \<lparr>l_sender = s, l_receiver = r, l_data = [], l_acks = []\<rparr>))"

inductive link_run :: "cc_params \<Rightarrow> link \<Rightarrow> bool" for p where
  link_init: "link_new p = Inr l \<Longrightarrow> link_run p l"
| link_step: "\<lbrakk>link_run p l; enabled ev l; clock_ok ev l; exec ev l = (res, l')\<rbrakk> \<Longrightarrow> link_run p l'"

section \<open>The contract of an algorithm\<close>

text \<open>
  \<open>inflight\<close> is the number of cells sent and not yet acknowledged and \<open>pending\<close> the number of
  cells received since the last SENDME was sent; every SENDME stands for \<open>inc\<close> cells.
\<close>

locale cc_contract =
  fixes inc :: nat
    and alg_ok :: "cc_algorithm \<Rightarrow> bool"
    and inflight :: "cc_algorithm \<Rightarrow> nat"
    and pending :: "cc_algorithm \<Rightarrow> nat"
  assumes data_sent: "alg_ok a \<Longrightarrow> alg_can_send a \<Longrightarrow>
      \<exists>a'. alg_data_sent a = (Inr (), a') \<and> alg_ok a' \<and> inflight a' = Suc (inflight a) \<and>
        (alg_cwnd a' = None \<longleftrightarrow> alg_cwnd a = None)"
    and next_sendme: "alg_ok a \<Longrightarrow> alg_is_next_cell_sendme a = Inr (inc dvd inflight a)"
    and sendme_received: "alg_ok a \<Longrightarrow> inc \<le> inflight a \<Longrightarrow> (alg_cwnd a \<noteq> None \<Longrightarrow> rtt_ok rtt) \<Longrightarrow>
      \<exists>st' a'. alg_sendme_received rtt sig (st, a) = (Inr (), (st', a')) \<and> alg_ok a' \<and>
        inflight a' = inflight a - inc \<and> (alg_cwnd a' = None \<longleftrightarrow> alg_cwnd a = None)"
    and cwnd_ok: "alg_ok a \<Longrightarrow> alg_cwnd a = Some w \<Longrightarrow> cwnd_params_ok (cw_params w)"
    and data_received: "alg_ok a \<Longrightarrow> pending a < inc \<Longrightarrow>
      \<exists>a'. alg_data_received a = (Inr (Suc (pending a) = inc), a') \<and> alg_ok a' \<and>
        pending a' = Suc (pending a)"
    and sendme_sent: "alg_ok a \<Longrightarrow> pending a = inc \<Longrightarrow>
      \<exists>a'. alg_sendme_sent a = (Inr (), a') \<and> alg_ok a' \<and> pending a' = 0"
begin

text \<open>The tags of the cells of \<open>ts\<close> that complete a group of \<open>inc\<close>, when \<open>c\<close> came before.\<close>

fun marks :: "nat \<Rightarrow> sendme_tag list \<Rightarrow> sendme_tag list" where
  "marks c [] = []"
| "marks c (t # ts) = (if Suc c = inc then t # marks 0 ts else marks (Suc c) ts)"

lemma marks_snoc:
  "c < inc \<Longrightarrow> marks c (ts @ [t]) =
     marks c ts @ (if inc dvd Suc (c + length ts) then [t] else [])"
proof (induction ts arbitrary: c)
  case Nil
  then show ?case
    by (auto dest: dvd_imp_le)
next
  case (Cons x ts)
  show ?case
  proof (cases "Suc c = inc")
    case True
    then have "inc dvd Suc (c + length (x # ts)) \<longleftrightarrow> inc dvd Suc (0 + length ts)"
      by (metis add.left_neutral add_Suc_shift dvd_add_triv_left_iff length_Cons add_Suc_right)
    then show ?thesis using True Cons.IH [of 0] by simp
  next
    case False
    then show ?thesis using Cons.IH [of "Suc c"] Cons.prems by simp
  qed
qed

text \<open>A sender in order: its estimator has one time for every expected tag.\<close>

definition sender_good :: "congestion_control \<Rightarrow> bool" where
  "sender_good c \<longleftrightarrow> alg_ok (cc_alg c) \<and>
     (alg_cwnd (cc_alg c) \<noteq> None \<longrightarrow> rtt_ok (cc_rtt c) \<and>
       length (sendme_expected_from (cc_rtt c)) = length (cc_validator c))"

lemma send_ok:
  assumes good: "sender_good c" and en: "cc_can_send c"
  shows "\<exists>c'. note_data_sent now tag c = (Inr (), c') \<and> sender_good c' \<and>
           inflight (cc_alg c') = Suc (inflight (cc_alg c)) \<and>
           cc_validator c' = cc_validator c @ (if inc dvd Suc (inflight (cc_alg c)) then [tag] else [])"
proof -
  have ok: "alg_ok (cc_alg c)" using good by (simp add: sender_good_def)
  obtain a' where a': "alg_data_sent (cc_alg c) = (Inr (), a')" "alg_ok a'"
      "inflight a' = Suc (inflight (cc_alg c))" "alg_cwnd a' = None \<longleftrightarrow> alg_cwnd (cc_alg c) = None"
    using data_sent [OF ok] en by (auto simp: cc_can_send_def)
  show ?thesis
    using a' next_sendme [OF a'(2)] good
    by (auto simp: note_data_sent_def op_bind_def op_field_def sender_good_def record_tag_def
        expect_sendme_def Let_def rtt_ok_def)
qed

lemma rtt_step_ok:
  assumes good: "sender_good c" and val: "cc_validator c = t # ts"
    and clk: "ack_time_ok now c"
  shows "\<exists>rtt. cc_update_rtt now (c\<lparr>cc_validator := ts\<rparr>) = (Inr (), c\<lparr>cc_validator := ts, cc_rtt := rtt\<rparr>) \<and>
           (alg_cwnd (cc_alg c) \<noteq> None \<longrightarrow> rtt_ok rtt \<and> length (sendme_expected_from rtt) = length ts)"
proof (cases "alg_cwnd (cc_alg c)")
  case None
  then show ?thesis by (auto simp: cc_update_rtt_def intro!: exI [of _ "cc_rtt c"])
next
  case (Some w)
  have ok: "alg_ok (cc_alg c)" using good by (simp add: sender_good_def)
  have r: "rtt_ok (cc_rtt c)" "length (sendme_expected_from (cc_rtt c)) = Suc (length ts)"
    using good val Some by (simp_all add: sender_good_def)
  then obtain t0 q where q: "sendme_expected_from (cc_rtt c) = t0 # q" by (metis length_Suc_conv)
  obtain r' where "rtt_update now (cc_state_of c) w (cc_rtt c) = (Inr (), r')" "rtt_ok r'"
      "sendme_expected_from r' = q"
    using rtt_update_ok [OF cwnd_ok [OF ok Some] r(1) q] clk q by (auto simp: ack_time_ok_def)
  then show ?thesis using Some r(2) q by (auto simp: cc_update_rtt_def intro!: exI [of _ r'])
qed

lemma ack_ok:
  assumes good: "sender_good c" and val: "cc_validator c = t # ts" and fl: "inc \<le> inflight (cc_alg c)"
    and clk: "ack_time_ok now c"
  shows "\<exists>c'. note_sendme_received now t sig c = (Inr (), c') \<and> sender_good c' \<and>
           cc_validator c' = ts \<and> inflight (cc_alg c') = inflight (cc_alg c) - inc"
proof -
  have ok: "alg_ok (cc_alg c)" using good by (simp add: sender_good_def)
  obtain rtt where rtt: "cc_update_rtt now (c\<lparr>cc_validator := ts\<rparr>) =
      (Inr (), c\<lparr>cc_validator := ts, cc_rtt := rtt\<rparr>)"
    and rok: "alg_cwnd (cc_alg c) \<noteq> None \<longrightarrow> rtt_ok rtt \<and> length (sendme_expected_from rtt) = length ts"
    using rtt_step_ok [OF good val clk] by blast
  obtain st' a' where a': "alg_sendme_received rtt sig (cc_state_of c, cc_alg c) = (Inr (), (st', a'))"
      "alg_ok a'" "inflight a' = inflight (cc_alg c) - inc"
      "alg_cwnd a' = None \<longleftrightarrow> alg_cwnd (cc_alg c) = None"
    using sendme_received [OF ok fl, where rtt = rtt and sig = sig and st = "cc_state_of c"] rok by metis
  have "note_sendme_received now t sig c = (Inr (), c\<lparr>cc_validator := ts, cc_rtt := rtt,
      cc_state_of := st', cc_alg := a'\<rparr>)"
    using val rtt a'(1) by (simp add: note_sendme_received_def op_bind_def op_field_def)
  then show ?thesis using a' rok by (auto simp: sender_good_def)
qed

text \<open>The sender alone, whatever SENDMEs arrive: one expected tag for every full group in flight.\<close>

definition sender_inv :: "congestion_control \<Rightarrow> bool" where
  "sender_inv c \<longleftrightarrow> sender_good c \<and> 0 < inc \<and> length (cc_validator c) = inflight (cc_alg c) div inc"

lemma sender_send:
  assumes "sender_inv c" and "cc_can_send c"
  shows "\<exists>c'. note_data_sent now tag c = (Inr (), c') \<and> sender_inv c'"
proof -
  obtain c' where "note_data_sent now tag c = (Inr (), c')" "sender_good c'"
      "inflight (cc_alg c') = Suc (inflight (cc_alg c))"
      "cc_validator c' = cc_validator c @ (if inc dvd Suc (inflight (cc_alg c)) then [tag] else [])"
    using send_ok [of c now tag] assms unfolding sender_inv_def by blast
  moreover have "Suc n div inc = n div inc + (if inc dvd Suc n then 1 else 0)" if "0 < inc" for n
    using that by (simp add: div_Suc dvd_eq_mod_eq_0)
  ultimately show ?thesis using assms(1) by (auto simp: sender_inv_def)
qed

lemma sender_ack:
  assumes inv: "sender_inv c"
    and clk: "ack_time_ok now c"
    and out: "note_sendme_received now tag sig c = (r, c')"
  shows "(r = Inr () \<and> cc_validator c = tag # cc_validator c' \<and> sender_inv c' \<and>
            inflight (cc_alg c) = inflight (cc_alg c') + inc) \<or>
         ((\<exists>m. r = Inl (CircProto m)) \<and> c' = c \<and> (\<forall>ts. cc_validator c \<noteq> tag # ts))"
proof (cases "\<exists>ts. cc_validator c = tag # ts")
  case True
  then obtain ts where ts: "cc_validator c = tag # ts" by blast
  have fl: "inc \<le> inflight (cc_alg c)"
    using inv ts div_eq_0_iff [of "inflight (cc_alg c)" inc] by (fastforce simp: sender_inv_def)
  have "inflight (cc_alg c) div inc = Suc ((inflight (cc_alg c) - inc) div inc)"
    using inv fl by (simp add: sender_inv_def le_div_geq)
  moreover have "sender_good c" using inv by (simp add: sender_inv_def)
  ultimately show ?thesis using ack_ok [OF _ ts fl clk, of sig] out inv ts fl
    by (auto simp: sender_inv_def)
next
  case False
  then have "note_sendme_received now tag sig c = (Inl (CircProto (
      if cc_validator c = [] then ''Received a SENDME when none was expected''
      else ''Mismatched tag on circuit SENDME'')), c)"
    by (cases "cc_validator c")
      (auto simp: note_sendme_received_def op_bind_def op_field_def validate_def)
  then show ?thesis using out False by auto
qed

definition link_inv :: "link \<Rightarrow> bool" where
  "link_inv l \<longleftrightarrow>
     sender_good (l_sender l) \<and> alg_ok (cc_alg (l_receiver l)) \<and>
     pending (cc_alg (l_receiver l)) < inc \<and>
     cc_validator (l_sender l) = l_acks l @ marks (pending (cc_alg (l_receiver l))) (l_data l) \<and>
     inflight (cc_alg (l_sender l)) =
       inc * length (l_acks l) + pending (cc_alg (l_receiver l)) + length (l_data l)"

lemma send_keeps:
  assumes inv: "link_inv l" and en: "cc_can_send (l_sender l)"
  shows "\<exists>l'. exec (SendData now tag) l = (Inr (), l') \<and> link_inv l'"
proof -
  let ?c = "pending (cc_alg (l_receiver l))"
  have d: "inc dvd Suc (inflight (cc_alg (l_sender l))) \<longleftrightarrow> inc dvd Suc (?c + length (l_data l))"
    using inv dvd_add_right_iff [of inc "inc * length (l_acks l)" "Suc (?c + length (l_data l))"]
    by (simp add: link_inv_def add.assoc)
  obtain s' where "note_data_sent now tag (l_sender l) = (Inr (), s')" "sender_good s'"
      "inflight (cc_alg s') = Suc (inflight (cc_alg (l_sender l)))"
      "cc_validator s' = cc_validator (l_sender l) @
         (if inc dvd Suc (inflight (cc_alg (l_sender l))) then [tag] else [])"
    using send_ok [of "l_sender l" now tag] en inv unfolding link_inv_def by blast
  then show ?thesis
    using marks_snoc [of ?c "l_data l" tag] inv d by (simp add: link_inv_def)
qed

lemma receive_ok:
  assumes ok: "alg_ok (cc_alg c)" "pending (cc_alg c) < inc"
  shows "\<exists>c'. receive_data_cell t c =
             (Inr (if Suc (pending (cc_alg c)) = inc then Some t else None), c') \<and> alg_ok (cc_alg c') \<and>
           pending (cc_alg c') = (if Suc (pending (cc_alg c)) = inc then 0 else Suc (pending (cc_alg c)))"
proof -
  obtain a' where a': "alg_data_received (cc_alg c) = (Inr (Suc (pending (cc_alg c)) = inc), a')" "alg_ok a'"
      "pending a' = Suc (pending (cc_alg c))"
    using data_received [OF ok] by blast
  have r: "note_data_received c = (Inr (Suc (pending (cc_alg c)) = inc), c\<lparr>cc_alg := a'\<rparr>)"
    by (simp add: note_data_received_def op_field_def a'(1))
  show ?thesis
  proof (cases "Suc (pending (cc_alg c)) = inc")
    case True
    then obtain a2 where a2: "alg_sendme_sent a' = (Inr (), a2)" "alg_ok a2" "pending a2 = 0"
      using sendme_sent [OF a'(2)] a'(3) by auto
    then have "note_sendme_sent (c\<lparr>cc_alg := a'\<rparr>) = (Inr (), c\<lparr>cc_alg := a2\<rparr>)"
      by (simp add: note_sendme_sent_def op_field_def)
    then have "receive_data_cell t c = (Inr (Some t), c\<lparr>cc_alg := a2\<rparr>)"
      using r True by (simp add: receive_data_cell_def op_bind_eval)
    then show ?thesis using True a2 by simp
  next
    case False
    then have "receive_data_cell t c = (Inr None, c\<lparr>cc_alg := a'\<rparr>)"
      using r by (simp add: receive_data_cell_def op_bind_eval)
    then show ?thesis using False a' by simp
  qed
qed

lemma deliver_keeps:
  assumes inv: "link_inv l" and en: "l_data l \<noteq> []"
  shows "\<exists>l'. exec DeliverData l = (Inr (), l') \<and> link_inv l'"
proof -
  let ?c = "pending (cc_alg (l_receiver l))"
  obtain t ts where ts: "l_data l = t # ts" using en by (cases "l_data l") auto
  have ok: "alg_ok (cc_alg (l_receiver l))" "?c < inc" using inv by (simp_all add: link_inv_def)
  obtain r' where r': "receive_data_cell t (l_receiver l) = (Inr (if Suc ?c = inc then Some t else None), r')"
      "alg_ok (cc_alg r')" "pending (cc_alg r') = (if Suc ?c = inc then 0 else Suc ?c)"
    using receive_ok [OF ok] by blast
  show ?thesis
  proof (cases "Suc ?c = inc")
    case True
    then show ?thesis using r' ts inv by (simp add: link_inv_def)
  next
    case False
    then show ?thesis using r' ts inv by (simp add: link_inv_def)
  qed
qed

lemma ack_keeps:
  assumes inv: "link_inv l" and en: "l_acks l \<noteq> []" and clk: "clock_ok (DeliverSendme now sig) l"
  shows "\<exists>l'. exec (DeliverSendme now sig) l = (Inr (), l') \<and> link_inv l'"
proof -
  let ?ms = "marks (pending (cc_alg (l_receiver l))) (l_data l)"
  obtain t ts where ts: "l_acks l = t # ts" using en by (cases "l_acks l") auto
  have val: "cc_validator (l_sender l) = t # ts @ ?ms" and fl: "inc \<le> inflight (cc_alg (l_sender l))"
    and good: "sender_good (l_sender l)"
    using inv ts by (simp_all add: link_inv_def)
  obtain s' where "note_sendme_received now t sig (l_sender l) = (Inr (), s')" "sender_good s'"
      "cc_validator s' = ts @ ?ms" "inflight (cc_alg s') = inflight (cc_alg (l_sender l)) - inc"
    using ack_ok [OF good val fl] clk by auto
  then show ?thesis using inv ts by (simp add: link_inv_def)
qed

lemma step_keeps:
  assumes "link_inv l" "enabled ev l" "clock_ok ev l"
  shows "\<exists>l'. exec ev l = (Inr (), l') \<and> link_inv l'"
  using assms send_keeps deliver_keeps ack_keeps by (cases ev) auto

lemma not_stuck:
  assumes "link_inv l" and "l_data l = []" "l_acks l = []"
  shows "inflight (cc_alg (l_sender l)) < inc"
  using assms by (simp add: link_inv_def)

end

section \<open>Both algorithms satisfy it\<close>

fun fixed_ok :: "cc_algorithm \<Rightarrow> bool" where
  "fixed_ok (AFixed f) \<longleftrightarrow>
     100 dvd unat (circ_window_start (fw_params f)) \<and> unat (circ_window_start (fw_params f)) \<le> 1000 \<and>
     0 < unat (circ_window_start (fw_params f)) \<and>
     unat (fw_sendwindow f) \<le> unat (circ_window_start (fw_params f)) \<and> unat (fw_recvwindow f) \<le> 1000"
| "fixed_ok (AVegas v) = False"

fun fixed_inflight :: "cc_algorithm \<Rightarrow> nat" where
  "fixed_inflight (AFixed f) = unat (circ_window_start (fw_params f)) - unat (fw_sendwindow f)"
| "fixed_inflight (AVegas v) = 0"

fun fixed_pending :: "cc_algorithm \<Rightarrow> nat" where
  "fixed_pending (AFixed f) = 1000 - unat (fw_recvwindow f)"
| "fixed_pending (AVegas v) = 0"

lemma dvd_pred_iff: "900 < w \<Longrightarrow> w \<le> 1000 \<Longrightarrow> 100 dvd w - 1 \<longleftrightarrow> Suc (1000 - w) = (100 :: nat)"
  by presburger

lemma dvd_from_iff: "k dvd s \<Longrightarrow> w \<le> s \<Longrightarrow> k dvd s - w \<longleftrightarrow> k dvd (w :: nat)"
  by (meson dvd_diffD1 dvd_diff_nat)

interpretation fixed_link: cc_contract 100 fixed_ok fixed_inflight fixed_pending
proof unfold_locales
  fix a
  assume ok: "fixed_ok a" and "alg_can_send a"
  then obtain f where f: "a = AFixed f" "fixed_can_send f" by (cases a) (auto simp: alg_can_send_def)
  then show "\<exists>a'. alg_data_sent a = (Inr (), a') \<and> fixed_ok a' \<and>
      fixed_inflight a' = Suc (fixed_inflight a) \<and> (alg_cwnd a' = None \<longleftrightarrow> alg_cwnd a = None)"
    using ok fixed_data_sent_ok [OF f(2)]
    by (auto simp: alg_data_sent_def alg_cwnd_def fixed_can_send_def word_less_nat_alt Suc_diff_le)
next
  fix a
  assume "fixed_ok a"
  then show "alg_is_next_cell_sendme a = Inr (100 dvd fixed_inflight a)"
    by (cases a) (auto simp: alg_is_next_cell_sendme_def fixed_next_iff dvd_from_iff)
next
  fix a rtt sig st
  assume "fixed_ok a" and "100 \<le> fixed_inflight a"
  then obtain f where f: "a = AFixed f" and ok: "fixed_ok (AFixed f)" "100 \<le> fixed_inflight (AFixed f)"
    by (cases a) auto
  have "unat (fw_sendwindow f) + 100 \<le> 1000" using ok unfolding fixed_ok.simps fixed_inflight.simps by linarith
  from fixed_sendme_received_ok [OF this]
  show "\<exists>st' a'. alg_sendme_received rtt sig (st, a) = (Inr (), (st', a')) \<and> fixed_ok a' \<and>
      fixed_inflight a' = fixed_inflight a - 100 \<and> (alg_cwnd a' = None \<longleftrightarrow> alg_cwnd a = None)"
    using f ok by (auto simp: alg_sendme_received_def alg_cwnd_def)
next
  fix a
  assume "fixed_ok a" and "fixed_pending a < 100"
  then obtain f where f: "a = AFixed f" and w: "900 < unat (fw_recvwindow f)" "unat (fw_recvwindow f) \<le> 1000"
    by (cases a) auto
  then have "fw_recvwindow f \<noteq> 0" by auto
  from fixed_data_received_ok [OF this] show "\<exists>a'. alg_data_received a = (Inr (Suc (fixed_pending a) = 100), a') \<and>
      fixed_ok a' \<and> fixed_pending a' = Suc (fixed_pending a)"
    using f w \<open>fixed_ok a\<close> dvd_pred_iff [OF w] by (auto simp: alg_data_received_def)
next
  fix a
  assume "fixed_ok a" and "fixed_pending a = 100"
  then obtain f where "a = AFixed f" "unat (fw_recvwindow f) = 900" by (cases a) auto
  then show "\<exists>a'. alg_sendme_sent a = (Inr (), a') \<and> fixed_ok a' \<and> fixed_pending a' = 0"
    using fixed_sendme_sent_ok [of f] \<open>fixed_ok a\<close> by (auto simp: alg_sendme_sent_def)
qed (auto simp: alg_cwnd_def elim: fixed_ok.elims)

fun vegas_ok :: "nat \<Rightarrow> cc_algorithm \<Rightarrow> bool" where
  "vegas_ok n (AVegas v) \<longleftrightarrow>
     vegas_inv v \<and> unat (sendme_inc (v_cwnd v)) = n \<and> num_cell_until_sendme v \<le> sendme_inc (v_cwnd v)"
| "vegas_ok n (AFixed f) = False"

fun vegas_inflight :: "cc_algorithm \<Rightarrow> nat" where
  "vegas_inflight (AVegas v) = unat (num_inflight v)"
| "vegas_inflight (AFixed f) = 0"

fun vegas_pending :: "nat \<Rightarrow> cc_algorithm \<Rightarrow> nat" where
  "vegas_pending n (AVegas v) = n - unat (num_cell_until_sendme v)"
| "vegas_pending n (AFixed f) = 0"

lemma vegas_next_iff:
  assumes "vegas_inv v"
  shows "vegas_is_next_cell_sendme v = Inr (unat (sendme_inc (v_cwnd v)) dvd unat (num_inflight v))"
proof -
  have "sendme_inc (v_cwnd v) \<noteq> 0"
    using assms by (simp add: vegas_inv_def vegas_params_ok_def rate_ne_zero)
  then show ?thesis
    by (simp add: vegas_is_next_cell_sendme_def urem_def dvd_of_mod_w)
qed

interpretation vegas_link: cc_contract n "vegas_ok n" vegas_inflight "vegas_pending n" for n
proof unfold_locales
  fix a
  assume ok: "vegas_ok n a" and "alg_can_send a"
  then obtain v where "a = AVegas v" "vegas_can_send v" by (cases a) (auto simp: alg_can_send_def)
  then show "\<exists>a'. alg_data_sent a = (Inr (), a') \<and> vegas_ok n a' \<and>
      vegas_inflight a' = Suc (vegas_inflight a) \<and> (alg_cwnd a' = None \<longleftrightarrow> alg_cwnd a = None)"
    using ok vegas_data_sent_ok [of v]
    by (auto simp: alg_data_sent_def alg_cwnd_def vegas_data_sent_def vegas_inv_def)
next
  fix a
  assume "vegas_ok n a"
  then show "alg_is_next_cell_sendme a = Inr (n dvd vegas_inflight a)"
    by (cases a) (auto simp: alg_is_next_cell_sendme_def vegas_next_iff)
next
  fix a rtt sig st
  assume "vegas_ok n a" and "alg_cwnd a \<noteq> None \<Longrightarrow> rtt_ok rtt"
  then obtain v where v: "a = AVegas v" "vegas_inv v" "vegas_ok n (AVegas v)" and r: "ewma_rtt_usec rtt \<noteq> Some 0"
    using rtt_ok_ewma by (cases a) (auto simp: alg_cwnd_def)
  obtain st' v' where "vegas_sendme_received rtt sig st v = Inr (st', v')" "vegas_inv v'"
      "unat (num_inflight v') = unat (num_inflight v) - unat (sendme_inc (v_cwnd v))"
      "cw_params (v_cwnd v') = cw_params (v_cwnd v)" "num_cell_until_sendme v' = num_cell_until_sendme v"
    using vegas_sendme_received_ok [OF v(2) r] by blast
  then show "\<exists>st' a'. alg_sendme_received rtt sig (st, a) = (Inr (), (st', a')) \<and> vegas_ok n a' \<and>
      vegas_inflight a' = vegas_inflight a - n \<and> (alg_cwnd a' = None \<longleftrightarrow> alg_cwnd a = None)"
    using v by (auto simp: alg_sendme_received_def alg_cwnd_def sendme_inc_def)
next
  fix a
  assume "vegas_ok n a" and "vegas_pending n a < n"
  then show "\<exists>a'. alg_data_received a = (Inr (Suc (vegas_pending n a) = n), a') \<and> vegas_ok n a' \<and>
      vegas_pending n a' = Suc (vegas_pending n a)"
    by (cases a) (auto simp: alg_data_received_def vegas_data_received_def Let_def unat_saturating_sub
        word_le_nat_alt vegas_inv_def simp flip: unat_eq_0)
next
  fix a
  assume "vegas_ok n a"
  then show "\<exists>a'. alg_sendme_sent a = (Inr (), a') \<and> vegas_ok n a' \<and> vegas_pending n a' = 0"
    by (cases a) (auto simp: alg_sendme_sent_def vegas_sendme_sent_def vegas_inv_def)
qed (auto simp: alg_cwnd_def vegas_inv_def vegas_params_ok_def elim: vegas_ok.elims)

section \<open>Runs\<close>

definition cc_params_ok :: "cc_params \<Rightarrow> bool" where
  "cc_params_ok p =
     (case alg p of
        FixedWindowAlg fp \<Rightarrow> 100 dvd unat (circ_window_start fp) \<and> 0 < circ_window_start fp \<and>
          circ_window_start fp \<le> 1000
      | VegasAlg vp \<Rightarrow> vegas_params_ok (ccp_cwnd p) vp \<and>
          ewma_max (ccp_rtt p) < 0x80000000 \<and> ewma_ss_max (ccp_rtt p) < 0x80000000)"


abbreviation inc_of :: "cc_params \<Rightarrow> nat" where
  "inc_of p \<equiv> unat (sendme_inc_param (ccp_cwnd p))"

lemma cc_new_fixed:
  "alg p = FixedWindowAlg fp \<Longrightarrow> cc_new p = Inr \<lparr>cc_state_of = SlowStart, cc_validator = [],
     cc_rtt = rtt_new (ccp_rtt p), cc_alg = AFixed (fixed_new fp)\<rparr>"
  by (simp add: cc_new_def validator_new_def)

lemma cc_new_vegas:
  "alg p = VegasAlg vp \<Longrightarrow> \<exists>v. cc_new p = Inr \<lparr>cc_state_of = SlowStart, cc_validator = [],
     cc_rtt = rtt_new (ccp_rtt p), cc_alg = AVegas v\<rparr> \<and> v_cwnd v = cwnd_new (ccp_cwnd p) \<and>
     v_params v = vp \<and> num_inflight v = 0 \<and> num_cell_until_sendme v = sendme_inc_param (ccp_cwnd p)"
  by (simp add: cc_new_def validator_new_def vegas_new_def update_rate_def in_slow_start_def
      sendme_inc_def cwnd_new_def)

lemma fixed_start_ok:
  assumes "cc_params_ok p" and "alg p = FixedWindowAlg fp"
  shows "fixed_ok (AFixed (fixed_new fp))" "fixed_inflight (AFixed (fixed_new fp)) = 0"
    "fixed_pending (AFixed (fixed_new fp)) = 0"
  using assms by (simp_all add: cc_params_ok_def fixed_new_def CircParams_def word_le_nat_alt unat_gt_0 word_gt_0)

lemma vegas_start_ok:
  assumes "cc_params_ok p" and "alg p = VegasAlg vp" and "v_cwnd v = cwnd_new (ccp_cwnd p)"
    and "v_params v = vp" and "num_cell_until_sendme v = sendme_inc_param (ccp_cwnd p)"
  shows "vegas_ok (inc_of p) (AVegas v)" "vegas_pending (inc_of p) (AVegas v) = 0" "0 < inc_of p"
    "rtt_ok (rtt_new (ccp_rtt p))"
  using assms by (simp_all add: cc_params_ok_def vegas_inv_def vegas_params_ok_def cwnd_params_ok_def
      cwnd_new_def cwnd_bound_def sendme_inc_def rtt_ok_def rtt_new_def unat_gt_0 le_max_iff_disj)



lemma link_run_fixed:
  assumes "link_run p l" and ok: "cc_params_ok p" and a: "alg p = FixedWindowAlg fp"
  shows "fixed_link.link_inv l"
  using assms(1)
proof induction
  case (link_init l)
  then show ?case
    using cc_new_fixed [OF a] fixed_start_ok [OF ok a]
    by (auto simp: link_new_def fixed_link.link_inv_def fixed_link.sender_good_def alg_cwnd_def
        simp del: fixed_ok.simps fixed_inflight.simps fixed_pending.simps)
next
  case (link_step l ev res l')
  then show ?case using fixed_link.step_keeps [of l ev] by auto
qed

lemma link_run_vegas:
  assumes "link_run p l" and ok: "cc_params_ok p" and a: "alg p = VegasAlg vp"
  shows "vegas_link.link_inv (inc_of p) l"
  using assms(1)
proof induction
  case (link_init l)
  obtain v where v: "cc_new p = Inr \<lparr>cc_state_of = SlowStart, cc_validator = [],
     cc_rtt = rtt_new (ccp_rtt p), cc_alg = AVegas v\<rparr>" "v_cwnd v = cwnd_new (ccp_cwnd p)"
     "v_params v = vp" "num_inflight v = 0" "num_cell_until_sendme v = sendme_inc_param (ccp_cwnd p)"
    using cc_new_vegas [OF a] by blast
  then show ?case
    using link_init vegas_start_ok [OF ok a v(2,3,5)]
    by (auto simp: link_new_def vegas_link.link_inv_def vegas_link.sender_good_def rtt_new_def
        simp del: vegas_ok.simps vegas_pending.simps)
next
  case (link_step l ev res l')
  then show ?case using vegas_link.step_keeps [of "inc_of p" l ev] by auto
qed

section \<open>Properties\<close>



text \<open>The values a circuit gets from the defaults of \<open>tor-netdir/src/params.rs\<close>, for either algorithm.\<close>

definition default_fixed :: fixed_window_params where
  "default_fixed = \<lparr>circ_window_start = 1000, circ_window_min = 100, circ_window_max = 1000\<rparr>"

definition default_vegas :: vegas_params where
  "default_vegas = \<lparr>cell_in_queue_params = \<lparr>vq_alpha = 186, vq_beta = 248, vq_delta = 310, vq_gamma = 186,
     vq_ss_cwnd_cap = 600\<rparr>, ss_cwnd_max = 5000, cwnd_full_gap = 4444, cwnd_full_min_pct = 25,
     cwnd_full_per_cwnd = 1\<rparr>"

definition default_params :: "algorithm_params \<Rightarrow> cc_params" where
  "default_params a = \<lparr>alg = a, ccp_fixed_window = default_fixed,
     ccp_cwnd = \<lparr>cwnd_init = 124, cwnd_inc_pct_ss = 50, cwnd_inc = 31, cwnd_inc_rate = 1, cwnd_min = 31,
       cwnd_max = 0x7fffffff, sendme_inc_param = 31\<rparr>,
     ccp_rtt = \<lparr>ewma_cwnd_pct = 50, ewma_max = 10, ewma_ss_max = 2, rtt_reset_pct = 100\<rparr>\<rparr>"

lemma default_params_ok:
  "cc_params_ok (default_params (FixedWindowAlg default_fixed))"
  "cc_params_ok (default_params (VegasAlg default_vegas))"
  by (simp_all add: cc_params_ok_def default_params_def default_fixed_def default_vegas_def
      vegas_params_ok_def cwnd_params_ok_def)

lemma params_cases:
  obtains (fixed) fp where "alg p = FixedWindowAlg fp" | (vegas) vp where "alg p = VegasAlg vp"
  by (cases "alg p")



lemma link_stuck:
  assumes "cc_params_ok p" and "link_run p l"
    and "\<not> cc_can_send (l_sender l)" and "l_data l = []" and "l_acks l = []"
  shows "\<exists>v. cc_alg (l_sender l) = AVegas v \<and> cw_value (v_cwnd v) < sendme_inc (v_cwnd v)"
proof (cases p rule: params_cases)
  case (fixed fp)
  have inv: "fixed_link.link_inv l" using link_run_fixed assms fixed by blast
  then obtain f where f: "cc_alg (l_sender l) = AFixed f" "fixed_ok (AFixed f)"
    by (cases "cc_alg (l_sender l)") (auto simp: fixed_link.link_inv_def fixed_link.sender_good_def)
  have "fixed_inflight (AFixed f) < 100" using fixed_link.not_stuck [OF inv] assms(4,5) f by simp
  moreover have "unat (fw_sendwindow f) = 0"
    using assms(3) f by (simp add: cc_can_send_def alg_can_send_def fixed_can_send_def word_less_nat_alt)
  ultimately show ?thesis using f(2) by (auto dest: dvd_imp_le)
next
  case (vegas vp)
  have inv: "vegas_link.link_inv (inc_of p) l" using link_run_vegas assms vegas by blast
  then obtain v where v: "cc_alg (l_sender l) = AVegas v" "unat (sendme_inc (v_cwnd v)) = inc_of p"
    by (cases "cc_alg (l_sender l)") (auto simp: vegas_link.link_inv_def vegas_link.sender_good_def)
  have "unat (num_inflight v) < inc_of p" using vegas_link.not_stuck [OF inv] assms(4,5) v by simp
  moreover have "cw_value (v_cwnd v) \<le> num_inflight v"
    using assms(3) v by (simp add: cc_can_send_def alg_can_send_def vegas_can_send_def not_less)
  ultimately show ?thesis using v by (simp add: word_less_nat_alt word_le_nat_alt)
qed

text \<open>C12: the two ends do not deadlock. In every reachable state the sender may send, or a cell or
  a SENDME is under way, or the algorithm is Vegas and its congestion window has fallen below
  the number of cells a SENDME acknowledges.\<close>

theorem link_not_stuck:
  assumes "cc_params_ok p" and "link_run p l"
  shows "enabled (SendData now tag) l \<or> enabled DeliverData l \<or> enabled (DeliverSendme now sig) l \<or>
    (\<exists>v. cc_alg (l_sender l) = AVegas v \<and> cw_value (v_cwnd v) < sendme_inc (v_cwnd v))"
  using link_stuck [OF assms] by auto


theorem link_not_stuck_witness:
  "\<exists>l. link_new (default_params (FixedWindowAlg default_fixed)) = Inr l \<and> enabled (SendData 0 (sendme_tag_from20 [])) l"
proof -
  let ?p = "default_params (FixedWindowAlg default_fixed)"
  let ?s = "\<lparr>cc_state_of = SlowStart, cc_validator = [], cc_rtt = rtt_new (ccp_rtt ?p),
    cc_alg = AFixed (fixed_new default_fixed)\<rparr>"
  let ?l = "\<lparr>l_sender = ?s, l_receiver = ?s, l_data = [], l_acks = []\<rparr>"
  have "alg ?p = FixedWindowAlg default_fixed" by (simp add: default_params_def)
  then have l: "link_new ?p = Inr ?l" by (simp add: link_new_def cc_new_fixed)
  then have "enabled (SendData 0 (sendme_tag_from20 [])) ?l"
    using link_not_stuck [OF default_params_ok(1) link_init [OF l], of 0 "sendme_tag_from20 []"
        "signals_new False 0"] by auto
  then show ?thesis using l by blast
qed









text \<open>C35: a smoothed round-trip time below one microsecond makes Vegas divide by zero: the next SENDME
  on such a circuit panics.\<close>

theorem vegas_panics_below_one_microsecond:
  assumes "\<not> clock_stalled rtt" and "ewma_rtt rtt = Some d" and "as_micros d = 0"
  shows "vegas_sendme_received rtt sig st v = Inl (Panic ''attempt to divide by zero'')"
  using assms by (simp add: vegas_sendme_received_def vegas_note_sendme_def bdp_update_def
      ewma_rtt_usec_def u32_or_max_def udiv_def Let_def)

text \<open>The estimator gets there by itself: a SENDME 500 nanoseconds after the cell.\<close>

theorem vegas_panics_below_one_microsecond_witness:
  "\<exists>rtt v. rtt_update 1500 SlowStart (cwnd_new (ccp_cwnd (default_params (VegasAlg default_vegas))))
       (expect_sendme 1000 (rtt_new (ccp_rtt (default_params (VegasAlg default_vegas))))) = (Inr (), rtt) \<and>
     vegas_sendme_received rtt (signals_new False 0) SlowStart v = Inl (Panic ''attempt to divide by zero'')"
proof -
  let ?p = "default_params (VegasAlg default_vegas)"
  obtain rtt where r: "rtt_update 1500 SlowStart (cwnd_new (ccp_cwnd ?p))
      (expect_sendme 1000 (rtt_new (ccp_rtt ?p))) = (Inr (), rtt)"
      "\<not> clock_stalled rtt" "ewma_rtt rtt = Some 0"
    by (simp add: rtt_update_def expect_sendme_def rtt_new_def is_clock_stalled_def in_slow_start_def
        can_crosscheck_with_current_estimate_def rtt_ewma_n_def new_ewma_rtt_usec_def as_micros_def
        update_min_rtt_def from_micros_def Let_def)
  have "as_micros 0 = 0" by (simp add: as_micros_def)
  then show ?thesis using r vegas_panics_below_one_microsecond [OF r(2,3)] by blast
qed


end
