(* ===== verification/Stream_Queue.thy ===== *)
theory Stream_Queue
  imports Sendme
begin

text \<open>
  The queue of incoming messages of a stream (\<open>tor-proto/src/stream/queue.rs\<close>) and the peeking
  adapter it and the stream map are built on (\<open>tor-async-utils/src/stream_peek.rs\<close>). The
  stream or channel underneath is a parameter: \<open>inner_next w s\<close> polls it with waker \<open>w\<close>
  (\<open>None\<close> is the no-op waker), \<open>chan_send\<close> is the sending side of a channel. Wakers are values
  of a type parameter; an operation that wakes returns the wakers it wakes.
\<close>

section \<open>The peeking adapter\<close>

datatype 'a poll = Pending | Ready 'a

record ('a, 's, 'w) peeker =
  buffered :: "'a option"
  poll_waker :: "'w option"
  inner :: "'s option"

definition peeker_new :: "'s \<Rightarrow> ('a, 's, 'w) peeker" where
  "peeker_new s = \<lparr>buffered = None, poll_waker = None, inner = Some s\<rparr>"

type_synonym ('a, 's, 'w) inner_next = "'w option \<Rightarrow> 's \<Rightarrow> 'a option poll \<times> 's"

definition next_or_peek_inner ::
  "('a, 's, 'w) inner_next \<Rightarrow> 'w \<Rightarrow> ('a, 's, 'w) peeker \<Rightarrow> unit poll \<times> ('a, 's, 'w) peeker" where
  "next_or_peek_inner inner_next cx p =
     (case buffered p of
        Some _ \<Rightarrow> (Ready (), p)
      | None \<Rightarrow>
          (case inner p of
             None \<Rightarrow> (Ready (), p)
           | Some s \<Rightarrow>
               (case inner_next (Some cx) s of
                  (Ready None, s') \<Rightarrow> (Ready (), p\<lparr>inner := None\<rparr>)
                | (Ready (Some item), s') \<Rightarrow> (Ready (), p\<lparr>inner := Some s', buffered := Some item\<rparr>)
                | (Pending, s') \<Rightarrow> (Pending, p\<lparr>inner := Some s'\<rparr>))))"

definition return_from_poll :: "'w \<Rightarrow> 'r poll \<Rightarrow> ('a, 's, 'w) peeker \<Rightarrow> 'r poll \<times> ('a, 's, 'w) peeker" where
  "return_from_poll cx r p =
     (r, p\<lparr>poll_waker := (case r of Ready _ \<Rightarrow> None | Pending \<Rightarrow> Some cx)\<rparr>)"

definition impl_poll_next_or_peek ::
  "('a, 's, 'w) inner_next \<Rightarrow> 'w \<Rightarrow> ('a option \<Rightarrow> 'a option) \<Rightarrow> ('a, 's, 'w) peeker \<Rightarrow>
     'a option poll \<times> ('a, 's, 'w) peeker" where
  "impl_poll_next_or_peek inner_next cx leave p =
     (case next_or_peek_inner inner_next cx p of
        (Pending, p) \<Rightarrow> return_from_poll cx Pending p
      | (Ready _, p) \<Rightarrow>
          return_from_poll cx (Ready (buffered p)) (p\<lparr>buffered := leave (buffered p)\<rparr>))"

definition poll_peek ::
  "('a, 's, 'w) inner_next \<Rightarrow> 'w \<Rightarrow> ('a, 's, 'w) peeker \<Rightarrow> 'a option poll \<times> ('a, 's, 'w) peeker" where
  "poll_peek inner_next cx = impl_poll_next_or_peek inner_next cx (\<lambda>b. b)"

definition peeker_poll_next ::
  "('a, 's, 'w) inner_next \<Rightarrow> 'w \<Rightarrow> ('a, 's, 'w) peeker \<Rightarrow> 'a option poll \<times> ('a, 's, 'w) peeker" where
  "peeker_poll_next inner_next cx = impl_poll_next_or_peek inner_next cx (\<lambda>b. None)"

text \<open>The result, the waker that is woken, and the adapter left behind.\<close>

definition unobtrusive_peek ::
  "('a, 's, 'w) inner_next \<Rightarrow> ('a, 's, 'w) peeker \<Rightarrow> 'a option \<times> 'w option \<times> ('a, 's, 'w) peeker" where
  "unobtrusive_peek inner_next p =
     (case buffered p of
        Some x \<Rightarrow> (Some x, None, p)
      | None \<Rightarrow>
          (case inner p of
             None \<Rightarrow> (None, None, p)
           | Some s \<Rightarrow>
               (case inner_next (poll_waker p) s of
                  (Pending, s') \<Rightarrow> (None, None, p\<lparr>inner := Some s'\<rparr>)
                | (Ready None, s') \<Rightarrow> (None, poll_waker p, p\<lparr>poll_waker := None, inner := None\<rparr>)
                | (Ready (Some item), s') \<Rightarrow>
                    (Some item, poll_waker p,
                     p\<lparr>poll_waker := None, inner := Some s', buffered := Some item\<rparr>))))"

definition peeker_is_terminated :: "('a, 's, 'w) peeker \<Rightarrow> bool" where
  "peeker_is_terminated p \<longleftrightarrow> buffered p = None \<and> inner p = None"

section \<open>The queue of a stream\<close>

datatype send_error = SinkFull | SinkDisconnected

type_synonym 'c chan_send = "unparsed_relay_msg \<Rightarrow> 'c \<Rightarrow> (send_error + unit) \<times> 'c"

text \<open>
  Sender, receiver and the counter they share. The channel is the adapter's inner stream; it is
  gone once the receiver has seen its end.
\<close>

record ('c, 'w) stream_queue =
  q_receiver :: "(unparsed_relay_msg, 'c, 'w) peeker"
  q_counter :: nat

definition queue_new :: "'c \<Rightarrow> ('c, 'w) stream_queue" where
  "queue_new c = \<lparr>q_receiver = peeker_new c, q_counter = 0\<rparr>"

definition queue_data_len :: "unparsed_relay_msg \<Rightarrow> nat" where
  "queue_data_len item = (case data_len item of Inl _ \<Rightarrow> 0 | Inr n \<Rightarrow> unat n)"

definition queue_try_send ::
  "'c chan_send \<Rightarrow> unparsed_relay_msg \<Rightarrow> ('c, 'w) stream_queue \<Rightarrow>
     (string + (send_error + unit)) \<times> ('c, 'w) stream_queue" where
  "queue_try_send chan_send item q =
     (case inner (q_receiver q) of
        None \<Rightarrow> (Inr (Inl SinkDisconnected), q)
      | Some c \<Rightarrow>
          (case chan_send item c of
             (Inl e, c') \<Rightarrow> (Inr (Inl e), q\<lparr>q_receiver := (q_receiver q)\<lparr>inner := Some c'\<rparr>\<rparr>)
           | (Inr _, c') \<Rightarrow>
               (let q = q\<lparr>q_receiver := (q_receiver q)\<lparr>inner := Some c'\<rparr>\<rparr> in
                if q_counter q + queue_data_len item > usize_max
                then (Inl ''queue has more than `usize::MAX` bytes?!'', q)
                else (Inr (Inr ()), q\<lparr>q_counter := q_counter q + queue_data_len item\<rparr>))))"

definition queue_poll_next ::
  "(unparsed_relay_msg, 'c, 'w) inner_next \<Rightarrow> 'w \<Rightarrow> ('c, 'w) stream_queue \<Rightarrow>
     (string + unparsed_relay_msg option poll) \<times> ('c, 'w) stream_queue" where
  "queue_poll_next chan_next cx q =
     (case peeker_poll_next chan_next cx (q_receiver q) of
        (Ready None, p) \<Rightarrow> (Inr (Ready None), q\<lparr>q_receiver := p\<rparr>)
      | (Pending, p) \<Rightarrow> (Inr Pending, q\<lparr>q_receiver := p\<rparr>)
      | (Ready (Some item), p) \<Rightarrow>
          (let q = q\<lparr>q_receiver := p\<rparr> in
           if queue_data_len item = 0 then (Inr (Ready (Some item)), q)
           else if queue_data_len item \<le> q_counter q
           then (Inr (Ready (Some item)), q\<lparr>q_counter := q_counter q - queue_data_len item\<rparr>)
           else (Inl ''we've removed more bytes than we've added?!'', q)))"

definition queue_peek ::
  "(unparsed_relay_msg, 'c, 'w) inner_next \<Rightarrow> ('c, 'w) stream_queue \<Rightarrow>
     unparsed_relay_msg option \<times> 'w option \<times> ('c, 'w) stream_queue" where
  "queue_peek chan_next q =
     (case unobtrusive_peek chan_next (q_receiver q) of
        (r, w, p) \<Rightarrow> (r, w, q\<lparr>q_receiver := p\<rparr>))"

definition approx_stream_bytes :: "('c, 'w) stream_queue \<Rightarrow> nat" where
  "approx_stream_bytes q = q_counter q"

section \<open>Stability of a peeked item\<close>

lemma poll_peek_ready:
  "poll_peek n cx p = (Ready r, p') \<Longrightarrow> buffered p' = r \<and> poll_waker p' = None \<and> (r = None \<longrightarrow> inner p' = None)"
  by (auto simp: poll_peek_def impl_poll_next_or_peek_def next_or_peek_inner_def return_from_poll_def
      split: option.splits prod.splits poll.splits)

lemma peeked_stays:
  assumes "poll_peek n cx p = (Ready r, p')"
  shows "poll_peek n cx' p' = (Ready r, p')" "fst (unobtrusive_peek n p') = r"
    "fst (peeker_poll_next n cx' p') = Ready r"
proof -
  note f = poll_peek_ready [OF assms]
  then have "p'\<lparr>poll_waker := None\<rparr> = p'" "p'\<lparr>buffered := buffered p'\<rparr> = p'" by (cases p'; simp)+
  with f show "poll_peek n cx' p' = (Ready r, p')" "fst (unobtrusive_peek n p') = r"
    "fst (peeker_poll_next n cx' p') = Ready r"
    by (cases r; simp add: poll_peek_def peeker_poll_next_def impl_poll_next_or_peek_def
        next_or_peek_inner_def return_from_poll_def unobtrusive_peek_def)+
qed

text \<open>An item that has been peeked stays at the head. After \<open>poll_peek\<close> was ready, peeking again
  (with any waker), peeking unobtrusively and polling for the next item all give the same
  answer, whatever the stream underneath does.\<close>

theorem peek_is_stable:
  assumes "poll_peek n cx p = (Ready r, p')"
  shows "fst (poll_peek n cx' p') = Ready r \<and> fst (unobtrusive_peek n p') = r \<and>
    fst (peeker_poll_next n cx' p') = Ready r"
  using peeked_stays [OF assms] by simp

theorem peek_is_stable_witness:
  "fst (peeker_poll_next (\<lambda>(_ :: nat option) s. (Ready (Some s), Suc s)) 2
     (snd (poll_peek (\<lambda>_ s. (Ready (Some s), Suc s)) 1 (peeker_new (7 :: nat))))) = Ready (Some 7)"
proof -
  let ?n = "\<lambda>(_ :: nat option) s. (Ready (Some s), Suc s)"
  have "poll_peek ?n 1 (peeker_new 7) = (Ready (Some 7), snd (poll_peek ?n 1 (peeker_new 7)))"
    by (simp add: poll_peek_def impl_poll_next_or_peek_def next_or_peek_inner_def return_from_poll_def
        peeker_new_def)
  from peek_is_stable [OF this, of 2] show ?thesis by simp
qed

text \<open>No wakeup is lost. Polling that returns \<open>Pending\<close> remembers the caller's waker; an
  unobtrusive peek after it wakes exactly that waker when the stream underneath has become
  ready (with an item or at its end), and wakes nobody when it has not.\<close>

theorem peeker_wakes:
  assumes "poll_peek n cx p = (Pending, p')"
  shows "\<exists>s. inner p' = Some s \<and> poll_waker p' = Some cx \<and>
    fst (snd (unobtrusive_peek n p')) = (if fst (n (Some cx) s) = Pending then None else Some cx)"
proof -
  obtain s where "poll_waker p' = Some cx" "buffered p' = None" "inner p' = Some s"
    using assms
    by (auto simp: poll_peek_def impl_poll_next_or_peek_def next_or_peek_inner_def return_from_poll_def
        split: option.splits prod.splits poll.splits)
  then show ?thesis
    by (cases "n (Some cx) s") (auto simp: unobtrusive_peek_def split: poll.splits option.splits)
qed

theorem peeker_wakes_witness:
  "\<exists>s. inner (snd (poll_peek (\<lambda>_ s. (if s then Ready (Some True) else Pending, True)) (3 :: nat) (peeker_new False))) = Some s \<and>
    fst (snd (unobtrusive_peek (\<lambda>_ s. (if s then Ready (Some True) else Pending, True))
      (snd (poll_peek (\<lambda>_ s. (if s then Ready (Some True) else Pending, True)) (3 :: nat) (peeker_new False))))) = Some 3"
proof -
  let ?n = "\<lambda>(_ :: nat option) s. (if s then Ready (Some True) else Pending, True)"
  have p: "poll_peek ?n 3 (peeker_new False) = (Pending, \<lparr>buffered = None, poll_waker = Some 3, inner = Some True\<rparr>)"
    by (simp add: poll_peek_def impl_poll_next_or_peek_def next_or_peek_inner_def return_from_poll_def
        peeker_new_def)
  from peeker_wakes [OF p] show ?thesis unfolding p snd_conv by auto
qed

section \<open>The counter of the queue\<close>

text \<open>What the queue relies on of the channel: it delivers what was sent, in order.\<close>

definition fifo_channel ::
  "('c \<Rightarrow> unparsed_relay_msg list) \<Rightarrow> 'c chan_send \<Rightarrow> (unparsed_relay_msg, 'c, 'w) inner_next \<Rightarrow> bool" where
  "fifo_channel items chan_send chan_next \<longleftrightarrow>
     (\<forall>x c. items (snd (chan_send x c)) = items c @ (case fst (chan_send x c) of Inl _ \<Rightarrow> [] | Inr _ \<Rightarrow> [x])) \<and>
     (\<forall>w c. case chan_next w c of
        (Ready (Some x), c') \<Rightarrow> items c = x # items c'
      | (Ready None, c') \<Rightarrow> items c = []
      | (Pending, c') \<Rightarrow> items c' = items c)"

definition peeker_contents :: "('c \<Rightarrow> 'a list) \<Rightarrow> ('a, 'c, 'w) peeker \<Rightarrow> 'a list" where
  "peeker_contents items p =
     (case buffered p of None \<Rightarrow> [] | Some x \<Rightarrow> [x]) @ (case inner p of None \<Rightarrow> [] | Some c \<Rightarrow> items c)"

abbreviation queue_contents :: "('c \<Rightarrow> unparsed_relay_msg list) \<Rightarrow> ('c, 'w) stream_queue \<Rightarrow> unparsed_relay_msg list" where
  "queue_contents items q \<equiv> peeker_contents items (q_receiver q)"

abbreviation bytes_in :: "unparsed_relay_msg list \<Rightarrow> nat" where
  "bytes_in ms \<equiv> sum_list (map queue_data_len ms)"

definition queue_inv :: "('c \<Rightarrow> unparsed_relay_msg list) \<Rightarrow> ('c, 'w) stream_queue \<Rightarrow> bool" where
  "queue_inv items q \<longleftrightarrow> q_counter q = bytes_in (queue_contents items q)"

datatype 'w queue_op = QSend unparsed_relay_msg | QNext 'w | QPeek

text \<open>A sequence of operations from either end: the messages sent, and the messages received.\<close>

fun queue_exec ::
  "'c chan_send \<Rightarrow> (unparsed_relay_msg, 'c, 'w) inner_next \<Rightarrow> 'w queue_op list \<Rightarrow> ('c, 'w) stream_queue \<Rightarrow>
     string + (('c, 'w) stream_queue \<times> unparsed_relay_msg list \<times> unparsed_relay_msg list)" where
  "queue_exec chan_send chan_next [] q = Inr (q, [], [])"
| "queue_exec chan_send chan_next (QSend x # ops) q =
     (case queue_try_send chan_send x q of
        (Inl e, _) \<Rightarrow> Inl e
      | (Inr r, q') \<Rightarrow> res_bind (queue_exec chan_send chan_next ops q') (\<lambda>(q'', sent, got).
          Inr (q'', (case r of Inl _ \<Rightarrow> sent | Inr _ \<Rightarrow> x # sent), got)))"
| "queue_exec chan_send chan_next (QNext cx # ops) q =
     (case queue_poll_next chan_next cx q of
        (Inl e, _) \<Rightarrow> Inl e
      | (Inr r, q') \<Rightarrow> res_bind (queue_exec chan_send chan_next ops q') (\<lambda>(q'', sent, got).
          Inr (q'', sent, (case r of Ready (Some x) \<Rightarrow> x # got | _ \<Rightarrow> got))))"
| "queue_exec chan_send chan_next (QPeek # ops) q =
     queue_exec chan_send chan_next ops (snd (snd (queue_peek chan_next q)))"

lemma peeker_poll_next_contents:
  assumes "fifo_channel items sends nxt" and "peeker_poll_next nxt cx p = (r, p')"
  shows "peeker_contents items p = (case r of Ready (Some x) \<Rightarrow> [x] | _ \<Rightarrow> []) @ peeker_contents items p'"
proof -
  have n: "case nxt w c of (Ready (Some x), c') \<Rightarrow> items c = x # items c'
      | (Ready None, c') \<Rightarrow> items c = [] | (Pending, c') \<Rightarrow> items c' = items c" for w c
    using assms(1) by (simp add: fifo_channel_def)
  show ?thesis
  proof (cases "buffered p")
    case (Some x)
    then show ?thesis using assms(2)
      by (auto simp: peeker_poll_next_def impl_poll_next_or_peek_def next_or_peek_inner_def
          return_from_poll_def peeker_contents_def)
  next
    case None
    show ?thesis
    proof (cases "inner p")
      case None
      then show ?thesis using assms(2) \<open>buffered p = None\<close>
        by (auto simp: peeker_poll_next_def impl_poll_next_or_peek_def next_or_peek_inner_def
            return_from_poll_def peeker_contents_def)
    next
      case (Some c)
      then show ?thesis using assms(2) \<open>buffered p = None\<close> n [where w = "Some cx" and c = c]
        by (auto simp: peeker_poll_next_def impl_poll_next_or_peek_def next_or_peek_inner_def
            return_from_poll_def peeker_contents_def split: prod.splits poll.splits option.splits)
    qed
  qed
qed

lemma unobtrusive_peek_contents:
  assumes "fifo_channel items sends nxt" and "unobtrusive_peek nxt p = (r, w, p')"
  shows "peeker_contents items p' = peeker_contents items p"
proof (cases "buffered p")
  case (Some x)
  then show ?thesis using assms(2) by (simp add: unobtrusive_peek_def)
next
  case None
  show ?thesis
  proof (cases "inner p")
    case None
    then show ?thesis using assms(2) \<open>buffered p = None\<close> by (simp add: unobtrusive_peek_def)
  next
    case (Some c)
    moreover have "case nxt (poll_waker p) c of (Ready (Some x), c') \<Rightarrow> items c = x # items c'
      | (Ready None, c') \<Rightarrow> items c = [] | (Pending, c') \<Rightarrow> items c' = items c"
      using assms(1) by (simp add: fifo_channel_def)
    ultimately show ?thesis using assms(2) \<open>buffered p = None\<close>
      by (auto simp: unobtrusive_peek_def peeker_contents_def split: prod.splits poll.splits option.splits)
  qed
qed

lemma queue_try_send_step:
  assumes fifo: "fifo_channel items chan_send chan_next" and inv: "queue_inv items q"
    and room: "q_counter q + queue_data_len x \<le> usize_max"
  shows "\<exists>r q'. queue_try_send chan_send x q = (Inr r, q') \<and> queue_inv items q' \<and>
           queue_contents items q' = queue_contents items q @ (case r of Inl _ \<Rightarrow> [] | Inr _ \<Rightarrow> [x])"
proof (cases "inner (q_receiver q)")
  case None
  then show ?thesis using inv by (simp add: queue_try_send_def)
next
  case (Some c)
  have f: "items (snd (chan_send x c)) = items c @ (case fst (chan_send x c) of Inl _ \<Rightarrow> [] | Inr _ \<Rightarrow> [x])"
    using fifo by (simp add: fifo_channel_def)
  then show ?thesis using Some inv room
    by (cases "chan_send x c"; cases "fst (chan_send x c)")
      (auto simp: queue_try_send_def queue_inv_def peeker_contents_def Let_def)
qed

lemma queue_poll_next_step:
  assumes fifo: "fifo_channel items chan_send chan_next" and inv: "queue_inv items q"
  shows "\<exists>r q'. queue_poll_next chan_next cx q = (Inr r, q') \<and> queue_inv items q' \<and>
           queue_contents items q = (case r of Ready (Some x) \<Rightarrow> [x] | _ \<Rightarrow> []) @ queue_contents items q'"
proof -
  obtain r p' where p: "peeker_poll_next chan_next cx (q_receiver q) = (r, p')" by fastforce
  consider "r = Pending" | "r = Ready None" | x where "r = Ready (Some x)"
    by (metis option.exhaust poll.exhaust)
  then show ?thesis
    using peeker_poll_next_contents [OF fifo p] inv p
    by cases (simp_all add: queue_poll_next_def queue_inv_def Let_def)
qed

lemma queue_new_empty:
  "queue_contents items (queue_new c) = items c" "q_counter (queue_new c) = 0"
  by (simp_all add: queue_new_def peeker_new_def peeker_contents_def)

fun sent_bytes :: "'w queue_op list \<Rightarrow> nat" where
  "sent_bytes [] = 0"
| "sent_bytes (QSend x # ops) = queue_data_len x + sent_bytes ops"
| "sent_bytes (_ # ops) = sent_bytes ops"

lemma queue_exec_keeps:
  assumes fifo: "fifo_channel items chan_send chan_next"
  shows "queue_inv items q \<Longrightarrow> q_counter q + sent_bytes ops \<le> usize_max \<Longrightarrow>
    \<exists>q' sent got. queue_exec chan_send chan_next ops q = Inr (q', sent, got) \<and> queue_inv items q' \<and>
      queue_contents items q @ sent = got @ queue_contents items q'"
proof (induction ops arbitrary: q)
  case Nil
  then show ?case by simp
next
  case (Cons op ops)
  show ?case
  proof (cases op)
    case (QSend x)
    have "q_counter q + queue_data_len x \<le> usize_max" using Cons.prems QSend by simp
    then obtain r q1 where s: "queue_try_send chan_send x q = (Inr r, q1)" "queue_inv items q1"
        "queue_contents items q1 = queue_contents items q @ (case r of Inl _ \<Rightarrow> [] | Inr _ \<Rightarrow> [x])"
      using queue_try_send_step [OF fifo Cons.prems(1)] by blast
    have "q_counter q1 \<le> q_counter q + queue_data_len x"
      using s(2,3) Cons.prems(1) by (auto simp: queue_inv_def split: sum.splits)
    then obtain q' sent got where "queue_exec chan_send chan_next ops q1 = Inr (q', sent, got)"
        "queue_inv items q'" "queue_contents items q1 @ sent = got @ queue_contents items q'"
      using Cons.IH [OF s(2)] Cons.prems(2) QSend by auto
    then show ?thesis using QSend s by (auto split: sum.splits)
  next
    case (QNext cx)
    obtain r q1 where s: "queue_poll_next chan_next cx q = (Inr r, q1)" "queue_inv items q1"
        "queue_contents items q = (case r of Ready (Some x) \<Rightarrow> [x] | _ \<Rightarrow> []) @ queue_contents items q1"
      using queue_poll_next_step [OF fifo Cons.prems(1)] by blast
    have "q_counter q1 \<le> q_counter q"
      using s(2,3) Cons.prems(1) by (simp add: queue_inv_def)
    then obtain q' sent got where "queue_exec chan_send chan_next ops q1 = Inr (q', sent, got)"
        "queue_inv items q'" "queue_contents items q1 @ sent = got @ queue_contents items q'"
      using Cons.IH [OF s(2)] Cons.prems(2) QNext by auto
    then show ?thesis using QNext s by (auto split: poll.splits option.splits)
  next
    case QPeek
    obtain r w p' where p: "unobtrusive_peek chan_next (q_receiver q) = (r, w, p')"
      by (cases "unobtrusive_peek chan_next (q_receiver q)") auto
    then show ?thesis
      using unobtrusive_peek_contents [OF fifo p] Cons.IH [of "q\<lparr>q_receiver := p'\<rparr>"] Cons.prems QPeek
      by (simp add: queue_peek_def queue_inv_def)
  qed
qed

text \<open>C24: the queue of a stream over any first-in first-out channel. Whatever order sends, receives and
  peeks come in, no operation panics as long as less than \<open>usize::MAX\<close> bytes are sent, the
  messages received and those still queued are the messages accepted, in order, and the byte
  counter is exactly the number of data bytes still queued.\<close>

theorem queue_counts_exactly:
  assumes "fifo_channel items chan_send chan_next" and "items c = []" and "sent_bytes ops \<le> usize_max"
  shows "\<exists>q sent got. queue_exec chan_send chan_next ops (queue_new c) = Inr (q, sent, got) \<and>
    sent = got @ queue_contents items q \<and> approx_stream_bytes q = bytes_in (queue_contents items q)"
  using queue_exec_keeps [OF assms(1), of "queue_new c" ops] assms(2,3)
  by (auto simp: queue_inv_def approx_stream_bytes_def queue_new_empty)

theorem queue_counts_exactly_witness:
  "\<exists>q sent got. queue_exec (\<lambda>x c. (Inr (), c @ [x])) (\<lambda>(_ :: nat option) c. case c of [] \<Rightarrow> (Pending, []) | x # xs \<Rightarrow> (Ready (Some x), xs))
      [QSend (UnparsedV0 (2 # replicate 508 0)), QPeek, QNext 0] (queue_new []) = Inr (q, sent, got) \<and>
    sent = got @ queue_contents (\<lambda>c. c) q \<and> approx_stream_bytes q = bytes_in (queue_contents (\<lambda>c. c) q)"
proof (rule queue_counts_exactly)
  show "fifo_channel (\<lambda>c. c) (\<lambda>x c. (Inr (), c @ [x])) (\<lambda>(_ :: nat option) c. case c of [] \<Rightarrow> (Pending, []) | x # xs \<Rightarrow> (Ready (Some x), xs))"
    by (auto simp: fifo_channel_def split: list.splits)
  show "sent_bytes [QSend (UnparsedV0 (2 # replicate 508 0)), QPeek, QNext (0 :: nat)] \<le> usize_max"
  proof -
    have "queue_data_len x \<le> 65535" for x
      by (auto simp: queue_data_len_def split: sum.splits)
    then have "queue_data_len (UnparsedV0 (2 # replicate 508 0)) \<le> 65535" by blast
    then show ?thesis by simp
  qed
qed simp

end
