(* ===== verification/Stream_Flow.thy ===== *)
theory Stream_Flow
  imports Stream_Queue
begin

text \<open>
  Flow control of a stream (\<open>tor-proto/src/stream/flow_control.rs\<close>), the checkers that decide which
  messages a stream may receive (\<open>stream/cmdcheck.rs\<close>, \<open>stream/data.rs\<close>, \<open>stream/resolve.rs\<close>,
  \<open>stream/incoming.rs\<close>), and half-closed streams (\<open>tunnel/halfstream.rs\<close>), with the feature
  \<open>flowctl-cc\<close>. The watch channel that carries the rate limit to the writer is its current
  value; the notification channel for drain rates counts the notifications. A boxed checker,
  a trait object, is a datatype of the implementations.
\<close>

section \<open>Flow control\<close>

text \<open>Decoding a message as one given type, or as one of a restricted set.\<close>

definition decode_as :: "relay_cmd \<Rightarrow> 'm rd \<Rightarrow> relay_cmd \<Rightarrow> 'm rd" where
  "decode_as expected body cmd =
     (if cmd \<noteq> expected then rfail (InvalidMessage ''Expected another command'') else body)"

definition decode_restricted :: "relay_cmd list \<Rightarrow> relay_cmd \<Rightarrow> any_relay_msg rd" where
  "decode_restricted allowed cmd =
     (if cmd \<in> set allowed then any_relay_decode cmd
      else rfail (InvalidMessage ''Unexpected command''))"

abbreviation CC_XOFF_CLIENT :: nat where "CC_XOFF_CLIENT \<equiv> 250000"

datatype last_sent_xon_xoff = SentXon xon_kbps_ewma | SentXoff

record xon_xoff_control =
  rate_limit :: u64
  drain_requests :: nat
  last_sent :: "last_sent_xon_xoff option"

datatype stream_flow_control = WindowBased send_window | XonXoffBased xon_xoff_control

definition new_window_based :: "send_window \<Rightarrow> stream_flow_control" where
  "new_window_based w = WindowBased w"

definition new_xon_xoff_based :: "u64 \<Rightarrow> nat \<Rightarrow> stream_flow_control" where
  "new_xon_xoff_based rate drains =
     XonXoffBased \<lparr>rate_limit = rate, drain_requests = drains, last_sent = None\<rparr>"

definition RateLimit_MAX :: u64 where "RateLimit_MAX = - 1"

definition RateLimit_ZERO :: u64 where "RateLimit_ZERO = 0"

definition flow_can_send :: "relay_cmd \<Rightarrow> stream_flow_control \<Rightarrow> bool" where
  "flow_can_send cmd f =
     (case f of
        WindowBased w \<Rightarrow> \<not> cmd_counts_towards_windows cmd \<or> w > 0
      | XonXoffBased _ \<Rightarrow> True)"

definition take_capacity_to_send :: "relay_cmd \<Rightarrow> (stream_flow_control, unit) op" where
  "take_capacity_to_send cmd f =
     (case f of
        WindowBased w \<Rightarrow>
          (if cmd_counts_towards_windows cmd
           then (case send_window_take w of (r, w') \<Rightarrow> (r, WindowBased w'))
           else (Inr (), f))
      | XonXoffBased _ \<Rightarrow> (Inr (), f))"

definition put_for_incoming_sendme :: "unparsed_relay_msg \<Rightarrow> (stream_flow_control, unit) op" where
  "put_for_incoming_sendme m f =
     (case f of
        WindowBased w \<Rightarrow>
          (case unparsed_decode (decode_as RelayCmd_SENDME sendme_decode) m of
             Inl e \<Rightarrow> (Inl (BytesErr e ''failed to decode stream sendme message''), f)
           | Inr _ \<Rightarrow> (case send_window_put StreamParams w of (r, w') \<Rightarrow> (r, WindowBased w')))
      | XonXoffBased _ \<Rightarrow>
          (Inl (CircProto ''Stream level SENDME not allowed due to congestion control''), f))"

definition xon_rate_limit :: "xon_kbps_ewma \<Rightarrow> u64" where
  "xon_rate_limit k = (case k of Limited rate_kbps \<Rightarrow> ucast rate_kbps * 1000 div 8 | Unlimited \<Rightarrow> RateLimit_MAX)"

definition handle_incoming_xon :: "unparsed_relay_msg \<Rightarrow> (stream_flow_control, unit) op" where
  "handle_incoming_xon m f =
     (case f of
        WindowBased _ \<Rightarrow> (Inl (CircProto ''XON messages not allowed with window flow control''), f)
      | XonXoffBased control \<Rightarrow>
          (case unparsed_decode (decode_as RelayCmd_XON xon_decode) m of
             Inl e \<Rightarrow> (Inl (BytesErr e ''failed to decode XON message''), f)
           | Inr outer \<Rightarrow>
               (let xon = rmsg outer in
                if xon_version xon \<noteq> 0 then (Inl (CircProto ''Unrecognized XON version''), f)
                else (Inr (), XonXoffBased (control\<lparr>rate_limit := xon_rate_limit (xon_rate xon)\<rparr>)))))"

definition handle_incoming_xoff :: "unparsed_relay_msg \<Rightarrow> (stream_flow_control, unit) op" where
  "handle_incoming_xoff m f =
     (case f of
        WindowBased _ \<Rightarrow> (Inl (CircProto ''XOFF messages not allowed with window flow control''), f)
      | XonXoffBased control \<Rightarrow>
          (case unparsed_decode (decode_as RelayCmd_XOFF xoff_decode) m of
             Inl e \<Rightarrow> (Inl (BytesErr e ''failed to decode XOFF message''), f)
           | Inr outer \<Rightarrow>
               (if rmsg outer \<noteq> 0 then (Inl (CircProto ''Unrecognized XOFF version''), f)
                else (Inr (), XonXoffBased (control\<lparr>rate_limit := RateLimit_ZERO\<rparr>)))))"

definition maybe_send_xon :: "xon_kbps_ewma \<Rightarrow> nat \<Rightarrow> (stream_flow_control, xon_msg option) op" where
  "maybe_send_xon rate buffer_len f =
     (case f of
        WindowBased _ \<Rightarrow> (Inl (CircProto ''XON messages cannot be sent with window flow control''), f)
      | XonXoffBased control \<Rightarrow>
          (if buffer_len > CC_XOFF_CLIENT
           then (Inr None, XonXoffBased (control\<lparr>drain_requests := Suc (drain_requests control)\<rparr>))
           else (Inr (Some \<lparr>xon_version = 0, xon_rate = rate\<rparr>),
                 XonXoffBased (control\<lparr>last_sent := Some (SentXon rate)\<rparr>))))"

definition maybe_send_xoff :: "nat \<Rightarrow> (stream_flow_control, u8 option) op" where
  "maybe_send_xoff buffer_len f =
     (case f of
        WindowBased _ \<Rightarrow> (Inl (CircProto ''XOFF messages cannot be sent with window flow control''), f)
      | XonXoffBased control \<Rightarrow>
          (if last_sent control = Some SentXoff then (Inr None, f)
           else if buffer_len \<le> CC_XOFF_CLIENT then (Inr None, f)
           else (Inr (Some 0),
                 XonXoffBased (control\<lparr>last_sent := Some SentXoff,
                   drain_requests := Suc (drain_requests control)\<rparr>))))"

section \<open>Command checkers\<close>

datatype stream_status = StreamOpen | StreamClosed

datatype cmd_checker =
    DataCmdChecker bool
  | ResolveCmdChecker
  | IncomingCmdChecker "relay_cmd \<Rightarrow> bool"

definition data_checker_new :: cmd_checker where
  "data_checker_new = DataCmdChecker True"

definition data_checker_connected :: cmd_checker where
  "data_checker_connected = DataCmdChecker False"

definition incoming_checker_new :: "relay_cmd list \<Rightarrow> cmd_checker" where
  "incoming_checker_new allow_commands =
     IncomingCmdChecker (fold (\<lambda>c a. a(c := True)) allow_commands (\<lambda>_. False))"

definition data_check_msg :: "bool \<Rightarrow> relay_cmd \<Rightarrow> (proto_error + stream_status) \<times> bool" where
  "data_check_msg expecting cmd =
     (if cmd = RelayCmd_CONNECTED then
        (if \<not> expecting then (Inl (StreamProto ''Received CONNECTED twice on a stream.''), expecting)
         else (Inr StreamOpen, False))
      else if cmd = RelayCmd_DATA then
        (if \<not> expecting then (Inr StreamOpen, expecting)
         else (Inl (StreamProto ''Received DATA before CONNECTED on a stream''), expecting))
      else if cmd = RelayCmd_END then (Inr StreamClosed, expecting)
      else (Inl (StreamProto ''Unexpected message on a data stream!''), expecting))"

definition resolve_check_msg :: "relay_cmd \<Rightarrow> proto_error + stream_status" where
  "resolve_check_msg cmd =
     (if cmd = RelayCmd_RESOLVED then Inr StreamClosed
      else if cmd = RelayCmd_END then Inr StreamClosed
      else Inl (StreamProto ''Unexpected message on resolve stream''))"

definition incoming_check_msg :: "(relay_cmd \<Rightarrow> bool) \<Rightarrow> relay_cmd \<Rightarrow> proto_error + stream_status" where
  "incoming_check_msg allow cmd =
     (if allow cmd then Inr StreamOpen else Inl (StreamProto ''Unexpected message on incoming stream''))"

definition check_cmd :: "relay_cmd \<Rightarrow> (cmd_checker, stream_status) op" where
  "check_cmd cmd c =
     (case c of
        DataCmdChecker e \<Rightarrow> (case data_check_msg e cmd of (r, e') \<Rightarrow> (r, DataCmdChecker e'))
      | ResolveCmdChecker \<Rightarrow> (resolve_check_msg cmd, c)
      | IncomingCmdChecker allow \<Rightarrow> (incoming_check_msg allow cmd, c))"

definition check_msg :: "unparsed_relay_msg \<Rightarrow> (cmd_checker, stream_status) op" where
  "check_msg m = check_cmd (unparsed_cmd m)"

definition consume_checked_msg :: "unparsed_relay_msg \<Rightarrow> (cmd_checker, unit) op" where
  "consume_checked_msg m c =
     (case c of
        DataCmdChecker _ \<Rightarrow>
          (case unparsed_decode (decode_restricted [RelayCmd_DATA, RelayCmd_END, RelayCmd_CONNECTED]) m of
             Inl e \<Rightarrow> (Inl (BytesErr e ''cell on half-closed stream''), c)
           | Inr _ \<Rightarrow> (Inr (), c))
      | ResolveCmdChecker \<Rightarrow>
          (case unparsed_decode (decode_restricted [RelayCmd_END, RelayCmd_RESOLVED]) m of
             Inl e \<Rightarrow> (Inl (BytesErr e ''message on resolve stream.''), c)
           | Inr _ \<Rightarrow> (Inr (), c))
      | IncomingCmdChecker _ \<Rightarrow>
          (case unparsed_decode (decode_restricted [RelayCmd_BEGIN, RelayCmd_BEGIN_DIR, RelayCmd_RESOLVE]) m of
             Inl e \<Rightarrow> (Inl (BytesErr e ''invalid message on incoming stream''), c)
           | Inr _ \<Rightarrow> (Inr (), c)))"

section \<open>Half-closed streams\<close>

record half_stream =
  hs_flow_control :: stream_flow_control
  hs_recvw :: recv_window
  hs_cmd_checker :: cmd_checker

abbreviation hs_flow :: "(stream_flow_control, 'a) op \<Rightarrow> (half_stream, 'a) op" where
  "hs_flow \<equiv> op_field hs_flow_control (\<lambda>f h. h\<lparr>hs_flow_control := f\<rparr>)"

abbreviation hs_checker :: "(cmd_checker, 'a) op \<Rightarrow> (half_stream, 'a) op" where
  "hs_checker \<equiv> op_field hs_cmd_checker (\<lambda>c h. h\<lparr>hs_cmd_checker := c\<rparr>)"

abbreviation hs_window :: "(recv_window, 'a) op \<Rightarrow> (half_stream, 'a) op" where
  "hs_window \<equiv> op_field hs_recvw (\<lambda>w h. h\<lparr>hs_recvw := w\<rparr>)"

definition half_stream_new :: "stream_flow_control \<Rightarrow> recv_window \<Rightarrow> cmd_checker \<Rightarrow> half_stream" where
  "half_stream_new f w c = \<lparr>hs_flow_control = f, hs_recvw = w, hs_cmd_checker = c\<rparr>"

definition half_handle_msg :: "unparsed_relay_msg \<Rightarrow> (half_stream, stream_status) op" where
  "half_handle_msg m =
     (let cmd = unparsed_cmd m in
      if cmd = RelayCmd_SENDME then op_bind (hs_flow (put_for_incoming_sendme m)) (\<lambda>_. op_ret StreamOpen)
      else if cmd = RelayCmd_XON then op_bind (hs_flow (handle_incoming_xon m)) (\<lambda>_. op_ret StreamOpen)
      else if cmd = RelayCmd_XOFF then op_bind (hs_flow (handle_incoming_xoff m)) (\<lambda>_. op_ret StreamOpen)
      else
        op_bind (if cmd_counts_towards_windows cmd
                 then op_bind (hs_window (recv_window_take StreamParams)) (\<lambda>_. op_ret ())
                 else op_ret ()) (\<lambda>_.
        op_bind (hs_checker (check_msg m)) (\<lambda>status.
        op_bind (hs_checker (consume_checked_msg m)) (\<lambda>_.
        op_ret status))))"

section \<open>What a checker accepts\<close>

text \<open>Commands a stream receives one after the other, until one of them closes it.\<close>

fun accepts :: "relay_cmd list \<Rightarrow> cmd_checker \<Rightarrow> bool" where
  "accepts [] c = True"
| "accepts (cmd # cmds) c =
     (case check_cmd cmd c of
        (Inl _, _) \<Rightarrow> False
      | (Inr StreamOpen, c') \<Rightarrow> accepts cmds c'
      | (Inr StreamClosed, _) \<Rightarrow> cmds = [])"

lemma accepts_connected:
  "accepts cmds (DataCmdChecker False) \<longleftrightarrow>
     (\<exists>n. cmds = replicate n RelayCmd_DATA \<or> cmds = replicate n RelayCmd_DATA @ [RelayCmd_END])"
proof (induction cmds)
  case Nil
  then show ?case by (auto intro: exI [of _ 0])
next
  case (Cons cmd cmds)
  have step: "(\<exists>n. cmd # cmds = replicate n RelayCmd_DATA \<or> cmd # cmds = replicate n RelayCmd_DATA @ [RelayCmd_END]) \<longleftrightarrow>
      (cmd = RelayCmd_DATA \<and> (\<exists>n. cmds = replicate n RelayCmd_DATA \<or> cmds = replicate n RelayCmd_DATA @ [RelayCmd_END])) \<or>
      (cmd = RelayCmd_END \<and> cmds = [])" (is "?l \<longleftrightarrow> ?r")
  proof
    assume ?l
    then obtain n where "cmd # cmds = replicate n RelayCmd_DATA \<or> cmd # cmds = replicate n RelayCmd_DATA @ [RelayCmd_END]"
      by blast
    then show ?r by (cases n) auto
  next
    assume ?r
    then show ?l
    proof (elim disjE conjE exE)
      fix n assume "cmd = RelayCmd_DATA" "cmds = replicate n RelayCmd_DATA"
      then show ?l by (intro exI [of _ "Suc n"]) simp
    next
      fix n assume "cmd = RelayCmd_DATA" "cmds = replicate n RelayCmd_DATA @ [RelayCmd_END]"
      then show ?l by (intro exI [of _ "Suc n"]) simp
    next
      assume "cmd = RelayCmd_END" "cmds = []"
      then show ?l by (intro exI [of _ 0]) simp
    qed
  qed
  show ?case unfolding step using Cons.IH by (auto simp: check_cmd_def data_check_msg_def)
qed

text \<open>C19: the messages a data stream accepts, from its creation on (flow control aside): nothing, or
  END at once, or CONNECTED followed by any number of DATA messages and at most one END, with
  nothing after it. Every other sequence is a protocol violation.\<close>

theorem data_stream_language:
  "accepts cmds data_checker_new \<longleftrightarrow>
     cmds = [] \<or> cmds = [RelayCmd_END] \<or>
     (\<exists>n. cmds = RelayCmd_CONNECTED # replicate n RelayCmd_DATA \<or>
          cmds = RelayCmd_CONNECTED # replicate n RelayCmd_DATA @ [RelayCmd_END])"
  by (cases cmds) (auto simp: data_checker_new_def check_cmd_def data_check_msg_def accepts_connected)

section \<open>Bounds\<close>

lemma op_bind_ok_cases:
  assumes "op_bind m f s = (Inr y, s')"
  obtains x t where "m s = (Inr x, t)" "f x t = (Inr y, s')"
  using assms by (auto simp: op_bind_Inr_iff)

lemma op_field_ok_cases:
  assumes "op_field get upd m s = (r, s')"
  obtains t where "m (get s) = (r, t)" "s' = upd t s"
  using assms by (auto simp: op_field_def split: prod.splits)

lemma half_handle_window:
  assumes "half_handle_msg m h = (Inr st, h')"
  shows "unat (hs_recvw h) = unat (hs_recvw h') + (if unparsed_cmd m = RelayCmd_DATA then 1 else 0)"
proof (cases "unparsed_cmd m = RelayCmd_DATA")
  case True
  obtain x h1 h2 where h1: "hs_window (recv_window_take StreamParams) h = (Inr x, h1)"
    and rest: "hs_checker (check_msg m) h1 = (Inr st, h2)"
      "hs_checker (consume_checked_msg m) h2 = (Inr (), h')"
    using assms True
    by (auto simp: half_handle_msg_def Let_def cmd_counts_towards_windows_def elim!: op_bind_ok_cases)
  have "hs_recvw h' = hs_recvw h1"
    using rest by (auto elim!: op_field_ok_cases)
  moreover have "hs_recvw h \<noteq> 0 \<and> hs_recvw h1 = hs_recvw h - 1"
    using h1 by (auto simp: op_field_def recv_window_take_spec split: if_splits)
  ultimately show ?thesis using True by (simp add: unat_minus_one_w unat_gt_0 Suc_leI)
next
  case False
  then have "hs_recvw h' = hs_recvw h"
    using assms by (auto simp: half_handle_msg_def Let_def cmd_counts_towards_windows_def split: if_splits
        elim!: op_bind_ok_cases op_field_ok_cases)
  then show ?thesis using False by simp
qed

text \<open>A half-closed stream receiving messages until one is refused or closes it.\<close>

fun half_run :: "unparsed_relay_msg list \<Rightarrow> half_stream \<Rightarrow> half_stream option" where
  "half_run [] h = Some h"
| "half_run (m # ms) h =
     (case half_handle_msg m h of
        (Inr StreamOpen, h') \<Rightarrow> half_run ms h'
      | (Inr StreamClosed, h') \<Rightarrow> (if ms = [] then Some h' else None)
      | (Inl _, _) \<Rightarrow> None)"

abbreviation data_msgs :: "unparsed_relay_msg list \<Rightarrow> unparsed_relay_msg list" where
  "data_msgs ms \<equiv> filter cell_counts_towards_windows ms"

text \<open>C20: a stream we have closed takes in only as many DATA messages as its receive window has room
  for: whatever sequence of messages it accepts, the window and the DATA messages accepted add
  up to the window at the time it was closed.\<close>

theorem half_stream_bounded:
  assumes "half_run ms h = Some h'"
  shows "length (data_msgs ms) + unat (hs_recvw h') = unat (hs_recvw h)"
  using assms
proof (induction ms arbitrary: h)
  case (Cons m ms)
  obtain st h1 where s: "half_handle_msg m h = (Inr st, h1)"
    using Cons.prems by (auto split: prod.splits sum.splits)
  have w: "unat (hs_recvw h) = unat (hs_recvw h1) + (if cell_counts_towards_windows m then 1 else 0)"
    using half_handle_window [OF s]
    by (simp add: cell_counts_towards_windows_def cmd_counts_towards_windows_def)
  show ?case
  proof (cases st)
    case StreamOpen
    then have "length (data_msgs ms) + unat (hs_recvw h') = unat (hs_recvw h1)"
      using Cons s by auto
    then show ?thesis using w by simp
  next
    case StreamClosed
    then have "ms = []" "h' = h1" using Cons.prems s by (auto split: if_splits)
    then show ?thesis using w by simp
  qed
qed simp

theorem half_stream_bounded_witness:
  "length (data_msgs [UnparsedV0 [2, 0, 0, 0, 1, 0, 0, 0, 0, 0, 1, 9]]) +
     unat (hs_recvw (half_stream_new (WindowBased 500) 499 (DataCmdChecker False))) =
   unat (hs_recvw (half_stream_new (WindowBased 500) 500 (DataCmdChecker False)))"
proof (rule half_stream_bounded)
  have "unparsed_decode (decode_restricted [RelayCmd_DATA, RelayCmd_END, RelayCmd_CONNECTED])
      (UnparsedV0 [2, 0, 0, 0, 1, 0, 0, 0, 0, 0, 1, 9]) = Inr \<lparr>streamid = Some 1, rmsg = Data [9]\<rparr>"
    by code_simp
  then show "half_run [UnparsedV0 [2, 0, 0, 0, 1, 0, 0, 0, 0, 0, 1, 9]] (half_stream_new (WindowBased 500) 500 (DataCmdChecker False)) =
      Some (half_stream_new (WindowBased 500) 499 (DataCmdChecker False))"
    by (simp add: half_handle_msg_def half_stream_new_def Let_def unparsed_cmd_def cmd_counts_towards_windows_def
        op_bind_def op_field_def recv_window_take_spec check_msg_def check_cmd_def data_check_msg_def
        consume_checked_msg_def)
qed

text \<open>What a stream with window flow control sends and receives; an error closes the circuit.\<close>

datatype flow_event = FlowSend relay_cmd | FlowSendme unparsed_relay_msg

fun flow_run :: "flow_event list \<Rightarrow> stream_flow_control \<Rightarrow> stream_flow_control option" where
  "flow_run [] f = Some f"
| "flow_run (FlowSend cmd # evs) f =
     (if \<not> flow_can_send cmd f then None
      else case take_capacity_to_send cmd f of (Inl _, _) \<Rightarrow> None | (Inr _, f') \<Rightarrow> flow_run evs f')"
| "flow_run (FlowSendme m # evs) f =
     (case put_for_incoming_sendme m f of (Inl _, _) \<Rightarrow> None | (Inr _, f') \<Rightarrow> flow_run evs f')"

fun data_count :: "flow_event list \<Rightarrow> nat" where
  "data_count [] = 0"
| "data_count (FlowSend cmd # evs) = (if cmd_counts_towards_windows cmd then 1 else 0) + data_count evs"
| "data_count (FlowSendme m # evs) = data_count evs"

fun sendme_count :: "flow_event list \<Rightarrow> nat" where
  "sendme_count [] = 0"
| "sendme_count (FlowSend cmd # evs) = sendme_count evs"
| "sendme_count (FlowSendme m # evs) = Suc (sendme_count evs)"

lemma send_window_put_stream:
  assumes "send_window_put StreamParams w = (Inr u, w')"
  shows "unat w' = unat w + 50 \<and> unat w' \<le> 500"
proof -
  have c: "checked_add_w w 50 = Some w'" "w' \<le> 500"
    using assms by (auto simp: send_window_put_def StreamParams_def split: option.splits if_splits)
  then have "unat w + 50 < 2 ^ 16" "w' = w + 50"
    by (auto simp: checked_add_w_def split: if_splits)
  then have "unat w' = unat w + 50" by (simp add: unat_word_ariths)
  then show ?thesis using c(2) by (simp add: word_le_nat_alt)
qed

lemma flow_run_window:
  "flow_run evs (WindowBased w) = Some f \<Longrightarrow> unat w \<le> 500 \<Longrightarrow>
     \<exists>w'. f = WindowBased w' \<and> unat w' \<le> 500 \<and>
       unat w' + data_count evs = unat w + 50 * sendme_count evs"
proof (induction evs arbitrary: w)
  case (Cons ev evs)
  show ?case
  proof (cases ev)
    case (FlowSend cmd)
    show ?thesis
    proof (cases "cmd_counts_towards_windows cmd")
      case True
      then have w: "w \<noteq> 0" and r: "flow_run evs (WindowBased (w - 1)) = Some f"
        using Cons.prems FlowSend
        by (auto simp: flow_can_send_def take_capacity_to_send_def send_window_take_spec split: if_splits)
      have u: "unat w = Suc (unat (w - 1))" using w by (simp add: unat_minus_one_w unat_gt_0)
      then have "unat (w - 1) \<le> 500" using Cons.prems(2) by simp
      from Cons.IH [OF r this] show ?thesis using u True FlowSend by auto
    next
      case False
      then show ?thesis using Cons FlowSend
        by (auto simp: flow_can_send_def take_capacity_to_send_def)
    qed
  next
    case (FlowSendme m)
    then obtain u w1 where p: "send_window_put StreamParams w = (Inr u, w1)"
      and r: "flow_run evs (WindowBased w1) = Some f"
      using Cons.prems(1)
      by (auto simp: put_for_incoming_sendme_def split: sum.splits prod.splits)
    show ?thesis using Cons.IH [OF r] send_window_put_stream [OF p] FlowSendme by auto
  qed
qed auto

text \<open>C21: the window of a stream. Starting from the initial window of 500, after any messages sent and
  SENDMEs accepted the window is at most 500 and accounts for every DATA message and every
  SENDME, so at most 500 DATA messages are ever outstanding beyond the acknowledged ones.\<close>

theorem stream_window_exact:
  assumes "flow_run evs (new_window_based (start StreamParams)) = Some f"
  shows "\<exists>w. f = WindowBased w \<and> unat w \<le> 500 \<and> unat w + data_count evs = 500 + 50 * sendme_count evs"
  using flow_run_window [of evs 500 f] assms by (simp add: new_window_based_def StreamParams_def)

theorem stream_window_exact_witness:
  "\<exists>w. WindowBased 499 = WindowBased w \<and> unat w \<le> 500 \<and>
     unat w + data_count [FlowSend RelayCmd_DATA] = 500 + 50 * sendme_count [FlowSend RelayCmd_DATA]"
  by (rule stream_window_exact)
    (simp add: new_window_based_def StreamParams_def flow_can_send_def take_capacity_to_send_def
      cmd_counts_towards_windows_def send_window_take_spec)

section \<open>XON and XOFF\<close>

datatype xonoff_event = TryXon xon_kbps_ewma nat | TryXoff nat

text \<open>The XON and XOFF messages sent in the course of a sequence of attempts, with the fill of the buffer.\<close>

fun xonoff_run :: "xonoff_event list \<Rightarrow> stream_flow_control \<Rightarrow> (last_sent_xon_xoff \<times> nat) list" where
  "xonoff_run [] f = []"
| "xonoff_run (TryXon rate n # evs) f =
     (case maybe_send_xon rate n f of
        (Inr (Some xon), f') \<Rightarrow> (SentXon (xon_rate xon), n) # xonoff_run evs f'
      | (_, f') \<Rightarrow> xonoff_run evs f')"
| "xonoff_run (TryXoff n # evs) f =
     (case maybe_send_xoff n f of
        (Inr (Some _), f') \<Rightarrow> (SentXoff, n) # xonoff_run evs f'
      | (_, f') \<Rightarrow> xonoff_run evs f')"

definition not_both_xoff :: "last_sent_xon_xoff \<times> nat \<Rightarrow> last_sent_xon_xoff \<times> nat \<Rightarrow> bool" where
  "not_both_xoff a b \<longleftrightarrow> \<not> (fst a = SentXoff \<and> fst b = SentXoff)"

lemma xonoff_run_ok:
  "successively not_both_xoff (xonoff_run evs (XonXoffBased c)) \<and>
   (last_sent c = Some SentXoff \<longrightarrow> xonoff_run evs (XonXoffBased c) = [] \<or>
      fst (hd (xonoff_run evs (XonXoffBased c))) \<noteq> SentXoff) \<and>
   list_all (\<lambda>(m, n). m = SentXoff \<longleftrightarrow> n > CC_XOFF_CLIENT) (xonoff_run evs (XonXoffBased c))"
proof (induction evs arbitrary: c)
  case (Cons ev evs)
  show ?case
  proof (cases ev)
    case (TryXon rate n)
    then show ?thesis
      using Cons.IH [of "c\<lparr>last_sent := Some (SentXon rate)\<rparr>"]
        Cons.IH [of "c\<lparr>drain_requests := Suc (drain_requests c)\<rparr>"]
      by (cases "xonoff_run evs (XonXoffBased (c\<lparr>last_sent := Some (SentXon rate)\<rparr>))")
        (auto simp: maybe_send_xon_def not_both_xoff_def)
  next
    case (TryXoff n)
    let ?c = "c\<lparr>last_sent := Some SentXoff, drain_requests := Suc (drain_requests c)\<rparr>"
    show ?thesis
      using TryXoff Cons.IH [of c] Cons.IH [of ?c]
      by (cases "xonoff_run evs (XonXoffBased ?c)") (auto simp: maybe_send_xoff_def not_both_xoff_def)
  qed
qed simp

text \<open>C22: the XON and XOFF messages of a stream. However often it is asked, a stream never sends two
  XOFFs without an XON between them, it sends XOFF only while more than 250000 bytes are
  buffered and XON only while no more are.\<close>

theorem xon_xoff_alternate:
  "successively not_both_xoff (xonoff_run evs (new_xon_xoff_based rate drains)) \<and>
   list_all (\<lambda>(m, n). m = SentXoff \<longleftrightarrow> n > CC_XOFF_CLIENT) (xonoff_run evs (new_xon_xoff_based rate drains))"
  using xonoff_run_ok by (simp add: new_xon_xoff_based_def)

end
