(* ===== verification/Poll_Set.thy ===== *)
theory Poll_Set
  imports Stream_Queue "HOL-Library.AList" "HOL-Library.Product_Lexorder"
begin

text \<open>
  The set of streams a circuit hop polls (\<open>tor-proto/src/util/stream_poll_set.rs\<close>) on top of the
  keyed set of futures (\<open>util/keyed_futures_unordered.rs\<close>). A hash map is an association list
  with distinct keys, a \<open>BTreeMap\<close> an association list sorted by key. A stream is a parameter
  given by its \<open>peek\<close> and \<open>next\<close>, both taking a waker (\<open>Some k\<close> is the waker that notifies the
  set about key \<open>k\<close>, \<open>None\<close> the no-op waker). The channel on which wakers report keys is the
  list \<open>notified\<close>; a waker that fires is the operation \<open>kfu_wake\<close>. A panic is the error \<open>Panic\<close>.
\<close>

section \<open>Sorted association lists\<close>

fun bt_insert :: "'k::linorder \<Rightarrow> 'v \<Rightarrow> ('k \<times> 'v) list \<Rightarrow> ('k \<times> 'v) list" where
  "bt_insert k v [] = [(k, v)]"
| "bt_insert k v ((k', v') # m) =
     (if k < k' then (k, v) # (k', v') # m
      else if k = k' then (k, v) # m
      else (k', v') # bt_insert k v m)"

definition bt_remove :: "'k \<Rightarrow> ('k \<times> 'v) list \<Rightarrow> ('k \<times> 'v) list" where
  "bt_remove k m = filter (\<lambda>(k', _). k' \<noteq> k) m"

definition bt_update :: "'k \<Rightarrow> 'v \<Rightarrow> ('k \<times> 'v) list \<Rightarrow> ('k \<times> 'v) list" where
  "bt_update k v m = map (\<lambda>(k', v'). (k', if k' = k then v else v')) m"

section \<open>Futures with keys\<close>

type_synonym ('k, 's, 'a) stream_poll = "'k option \<Rightarrow> 's \<Rightarrow> 'a option poll \<times> 's"

record ('k, 's) keyed_futures =
  notified :: "'k list"
  futures :: "('k \<times> 's) list"

definition kfu_new :: "('k, 's) keyed_futures" where
  "kfu_new = \<lparr>notified = [], futures = []\<rparr>"

text \<open>What the waker of a key does, and what follows every insertion.\<close>

definition kfu_wake :: "'k \<Rightarrow> ('k, 's) keyed_futures \<Rightarrow> ('k, 's) keyed_futures" where
  "kfu_wake k kf = kf\<lparr>notified := notified kf @ [k]\<rparr>"

definition kfu_try_insert :: "'k \<Rightarrow> 's \<Rightarrow> ('k, 's) keyed_futures \<Rightarrow> ('k, 's) keyed_futures option" where
  "kfu_try_insert k s kf =
     (case map_of (futures kf) k of
        Some _ \<Rightarrow> None
      | None \<Rightarrow> Some (kfu_wake k (kf\<lparr>futures := AList.update k s (futures kf)\<rparr>)))"

definition kfu_remove :: "'k \<Rightarrow> ('k, 's) keyed_futures \<Rightarrow> ('k \<times> 's) option \<times> ('k, 's) keyed_futures" where
  "kfu_remove k kf =
     (case map_of (futures kf) k of
        None \<Rightarrow> (None, kf)
      | Some s \<Rightarrow> (Some (k, s), kf\<lparr>futures := AList.delete k (futures kf)\<rparr>))"

text \<open>
  \<open>poll_next\<close> with the futures that wait for a stream to have something to peek at
  (\<open>PeekableReady\<close>): the loop over the keys in the channel, returning those it did not read.
\<close>

fun kfu_loop ::
  "('k, 's, 'a) stream_poll \<Rightarrow> 'k list \<Rightarrow> ('k \<times> 's) list \<Rightarrow>
     ('k \<times> 's) option poll \<times> 'k list \<times> ('k \<times> 's) list" where
  "kfu_loop pk [] futs = (Pending, [], futs)"
| "kfu_loop pk (key # keys) futs =
     (case map_of futs key of
        None \<Rightarrow> kfu_loop pk keys futs
      | Some s \<Rightarrow>
          (case pk (Some key) s of
             (Ready _, s') \<Rightarrow> (Ready (Some (key, s')), keys, AList.delete key futs)
           | (Pending, s') \<Rightarrow> kfu_loop pk keys (AList.update key s' futs)))"

definition kfu_poll_next ::
  "('k, 's, 'a) stream_poll \<Rightarrow> ('k, 's) keyed_futures \<Rightarrow>
     ('k \<times> 's) option poll \<times> ('k, 's) keyed_futures" where
  "kfu_poll_next pk kf =
     (if futures kf = [] then (Ready None, kf)
      else case kfu_loop pk (notified kf) (futures kf) of
             (r, keys, futs) \<Rightarrow> (r, kf\<lparr>notified := keys, futures := futs\<rparr>))"

section \<open>The set of streams\<close>

record ('k, 'p, 's) poll_set =
  priorities :: "('k \<times> 'p) list"
  ready_streams :: "(('p \<times> 'k) \<times> 's) list"
  pending_streams :: "('k, 's) keyed_futures"

definition ps_new :: "('k, 'p, 's) poll_set" where
  "ps_new = \<lparr>priorities = [], ready_streams = [], pending_streams = kfu_new\<rparr>"

text \<open>The stream comes back when the key is already in use.\<close>

definition ps_try_insert :: "'k \<Rightarrow> 'p \<Rightarrow> 's \<Rightarrow> (('k, 'p, 's) poll_set, 's option) op" where
  "ps_try_insert key priority stream ps =
     (case map_of (priorities ps) key of
        Some _ \<Rightarrow> (Inr (Some stream), ps)
      | None \<Rightarrow>
          (case kfu_try_insert key stream (pending_streams ps) of
             None \<Rightarrow> (Inl (Panic ''Unexpected duplicate key''), ps)
           | Some pend \<Rightarrow>
               (Inr None, ps\<lparr>pending_streams := pend,
                             priorities := AList.update key priority (priorities ps)\<rparr>)))"

definition ps_remove :: "'k \<Rightarrow> (('k, 'p, 's) poll_set, ('k \<times> 'p \<times> 's) option) op" where
  "ps_remove key ps =
     (case map_of (priorities ps) key of
        None \<Rightarrow> (Inr None, ps)
      | Some priority \<Rightarrow>
          (let ps = ps\<lparr>priorities := AList.delete key (priorities ps)\<rparr> in
           case kfu_remove key (pending_streams ps) of
             (Some (key, stream), pend) \<Rightarrow>
               (Inr (Some (key, priority, stream)), ps\<lparr>pending_streams := pend\<rparr>)
           | (None, _) \<Rightarrow>
               (case map_of (ready_streams ps) (priority, key) of
                  None \<Rightarrow> (Inl (Panic ''Unexpectedly no value for key''), ps)
                | Some stream \<Rightarrow>
                    (Inr (Some (key, priority, stream)),
                     ps\<lparr>ready_streams := bt_remove (priority, key) (ready_streams ps)\<rparr>))))"

lemma kfu_loop_shrinks:
  "kfu_loop pk keys futs = (Ready r, keys', futs') \<Longrightarrow> length keys' < length keys"
  by (induction pk keys futs rule: kfu_loop.induct)
    (auto split: option.splits prod.splits poll.splits intro: less_SucI)

lemma kfu_poll_next_shrinks:
  "kfu_poll_next pk kf = (Ready (Some ks), kf') \<Longrightarrow> length (notified kf') < length (notified kf)"
  by (auto simp: kfu_poll_next_def split: if_splits prod.splits dest: kfu_loop_shrinks)

text \<open>The loop of \<open>poll_ready_iter_mut\<close>; the iterator it returns runs over \<open>ready_streams\<close> in order.\<close>

function ps_poll_ready ::
  "('k::linorder, 's, 'a) stream_poll \<Rightarrow> (('k, 'p::linorder, 's) poll_set, unit) op" where
  "ps_poll_ready pk ps =
     (case kfu_poll_next pk (pending_streams ps) of
        (Ready (Some (key, stream)), pend) \<Rightarrow>
          (let ps = ps\<lparr>pending_streams := pend\<rparr> in
           case map_of (priorities ps) key of
             None \<Rightarrow> (Inl (Panic ''Missing priority''), ps)
           | Some priority \<Rightarrow>
               (if map_of (ready_streams ps) (priority, key) \<noteq> None
                then (Inl (Panic ''assertion failed: prev.is_none()''), ps)
                else ps_poll_ready pk
                       (ps\<lparr>ready_streams := bt_insert (priority, key) stream (ready_streams ps)\<rparr>)))
      | (_, pend) \<Rightarrow> (Inr (), ps\<lparr>pending_streams := pend\<rparr>))"
  by pat_completeness auto
termination
  by (relation "measure (\<lambda>(pk, ps). length (notified (pending_streams ps)))")
    (auto dest: kfu_poll_next_shrinks [OF sym])

definition ps_iter :: "('k, 'p, 's) poll_set \<Rightarrow> ('k \<times> 'p \<times> 's) list" where
  "ps_iter ps = map (\<lambda>((p, k), s). (k, p, s)) (ready_streams ps)"

definition ps_take_ready_value_and_reprioritize ::
  "('k, 's, 'a) stream_poll \<Rightarrow> ('k, 's, 'a) stream_poll \<Rightarrow> 'k \<Rightarrow> 'p \<Rightarrow>
     (('k, 'p, 's) poll_set, ('p \<times> 'a) option) op" where
  "ps_take_ready_value_and_reprioritize pk nxt key new_priority ps =
     (case map_of (priorities ps) key of
        None \<Rightarrow> (Inr None, ps)
      | Some priority \<Rightarrow>
          (case map_of (ready_streams ps) (priority, key) of
             None \<Rightarrow> (Inr None, ps)
           | Some stream \<Rightarrow>
               (let ps = ps\<lparr>ready_streams := bt_remove (priority, key) (ready_streams ps)\<rparr> in
                case pk None stream of
                  (Ready None, stream) \<Rightarrow> (Inr None, ps)
                | (Pending, stream) \<Rightarrow>
                    (case kfu_try_insert key stream (pending_streams ps) of
                       None \<Rightarrow> (Inl (Panic ''Key unexpectedly in both ready and unready list''), ps)
                     | Some pend \<Rightarrow> (Inr None, ps\<lparr>pending_streams := pend\<rparr>))
                | (Ready (Some _), stream) \<Rightarrow>
                    (case nxt None stream of
                       (Ready (Some val), stream) \<Rightarrow>
                         (let ps = ps\<lparr>priorities := AList.update key new_priority (priorities ps)\<rparr> in
                          case kfu_try_insert key stream (pending_streams ps) of
                            None \<Rightarrow> (Inl (Panic ''Unexpected pending stream entry''), ps)
                          | Some pend \<Rightarrow> (Inr (Some (priority, val)), ps\<lparr>pending_streams := pend\<rparr>))
                     | _ \<Rightarrow> (Inl (Panic ''Polling stream returned a different result than peeking''), ps)))))"

definition ps_peek ::
  "('k, 's, 'a) stream_poll \<Rightarrow> 'k \<Rightarrow> ('k, 'p, 's) poll_set \<Rightarrow>
     'a option poll option \<times> ('k, 'p, 's) poll_set" where
  "ps_peek pk key ps =
     (case map_of (priorities ps) key of
        None \<Rightarrow> (None, ps)
      | Some priority \<Rightarrow>
          (case map_of (ready_streams ps) (priority, key) of
             None \<Rightarrow> (Some Pending, ps)
           | Some s \<Rightarrow>
               (case pk None s of
                  (r, s') \<Rightarrow> (Some r, ps\<lparr>ready_streams := bt_update (priority, key) s' (ready_streams ps)\<rparr>))))"

definition ps_stream :: "'k \<Rightarrow> ('k, 'p, 's) poll_set \<Rightarrow> 's option" where
  "ps_stream key ps =
     (case map_of (futures (pending_streams ps)) key of
        Some s \<Rightarrow> Some s
      | None \<Rightarrow>
          (case map_of (priorities ps) key of
             None \<Rightarrow> None
           | Some priority \<Rightarrow> map_of (ready_streams ps) (priority, key)))"

text \<open>Writing through the reference \<open>stream_mut\<close> returns.\<close>

definition ps_set_stream :: "'k \<Rightarrow> 's \<Rightarrow> ('k, 'p, 's) poll_set \<Rightarrow> ('k, 'p, 's) poll_set" where
  "ps_set_stream key s ps =
     (case map_of (futures (pending_streams ps)) key of
        Some _ \<Rightarrow> ps\<lparr>pending_streams := (pending_streams ps)\<lparr>futures := AList.update key s (futures (pending_streams ps))\<rparr>\<rparr>
      | None \<Rightarrow>
          (case map_of (priorities ps) key of
             None \<Rightarrow> ps
           | Some priority \<Rightarrow> ps\<lparr>ready_streams := bt_update (priority, key) s (ready_streams ps)\<rparr>))"

definition ps_len :: "('k, 'p, 's) poll_set \<Rightarrow> nat" where
  "ps_len ps = length (priorities ps)"

declare ps_poll_ready.simps [simp del]

section \<open>Sorted association lists, continued\<close>

abbreviation bt_ok :: "('k::linorder \<times> 'v) list \<Rightarrow> bool" where
  "bt_ok m \<equiv> sorted_wrt (<) (map fst m)"

lemma bt_insert_keys: "fst ` set (bt_insert k v m) = insert k (fst ` set m)"
  by (induction k v m rule: bt_insert.induct) auto

lemma bt_insert_ok: "bt_ok m \<Longrightarrow> bt_ok (bt_insert k v m)"
proof (induction k v m rule: bt_insert.induct)
  case (2 k v k' v' m)
  have "\<forall>x \<in> fst ` set (bt_insert k v m). k' < x" if "\<not> k < k'" "k \<noteq> k'"
    using that 2 by (auto simp: bt_insert_keys)
  then show ?case using 2 by auto
qed simp

lemma bt_insert_lookup: "bt_ok m \<Longrightarrow> map_of (bt_insert k v m) = (map_of m)(k \<mapsto> v)"
proof (induction k v m rule: bt_insert.induct)
  case (2 k v k' v' m)
  have "map_of m k = None" if "k < k'"
    using that 2(2) by (auto simp: map_of_eq_None_iff)
  then show ?case using 2 by (auto simp: fun_eq_iff)
qed auto

lemma bt_remove_ok: "bt_ok m \<Longrightarrow> bt_ok (bt_remove k m)"
  by (simp add: bt_remove_def sorted_wrt_filter sorted_wrt_map)

lemma bt_remove_lookup: "map_of (bt_remove k m) = (map_of m)(k := None)"
  by (induction m) (auto simp: bt_remove_def fun_eq_iff)

lemma bt_update_keys [simp]: "map fst (bt_update k v m) = map fst m"
  by (simp add: bt_update_def case_prod_beta)

lemma bt_update_lookup: "map_of m k \<noteq> None \<Longrightarrow> map_of (bt_update k v m) = (map_of m)(k \<mapsto> v)"
proof (rule ext)
  fix x
  have "map_of (bt_update k v m) x = map_option (\<lambda>y. if x = k then v else y) (map_of m x)"
    by (induction m) (auto simp: bt_update_def)
  then show "map_of m k \<noteq> None \<Longrightarrow> map_of (bt_update k v m) x = ((map_of m)(k \<mapsto> v)) x"
    by (cases "map_of m x") auto
qed

section \<open>The invariant\<close>

text \<open>Every key is in exactly one of the pending and the ready streams, the latter under its priority.\<close>

definition key_ok :: "('k \<rightharpoonup> 'p) \<Rightarrow> ('p \<times> 'k \<rightharpoonup> 's) \<Rightarrow> ('k \<rightharpoonup> 's) \<Rightarrow> 'k \<Rightarrow> bool" where
  "key_ok P R Q k =
     (case P k of
        None \<Rightarrow> Q k = None \<and> (\<forall>p. R (p, k) = None)
      | Some p \<Rightarrow> (Q k = None \<longleftrightarrow> R (p, k) \<noteq> None) \<and> (\<forall>p'. p' \<noteq> p \<longrightarrow> R (p', k) = None))"

definition ps_inv :: "('k::linorder, 'p::linorder, 's) poll_set \<Rightarrow> bool" where
  "ps_inv ps \<longleftrightarrow>
     distinct (map fst (priorities ps)) \<and> distinct (map fst (futures (pending_streams ps))) \<and>
     bt_ok (ready_streams ps) \<and>
     (\<forall>k. key_ok (map_of (priorities ps)) (map_of (ready_streams ps)) (map_of (futures (pending_streams ps))) k)"

text \<open>What the set holds, seen from outside: a priority and a stream for each key.\<close>

definition ps_abs :: "('k, 'p, 's) poll_set \<Rightarrow> 'k \<Rightarrow> ('p \<times> 's) option" where
  "ps_abs ps k =
     (case map_of (priorities ps) k of
        None \<Rightarrow> None
      | Some p \<Rightarrow> map_option (Pair p) (ps_stream k ps))"

declare map_of_eq_Some_iff [simp del] Some_eq_map_of_iff [simp del]

lemmas alist_simps = update_conv' delete_conv' distinct_update distinct_delete

lemma kfu_wake_simps [simp]:
  "futures (kfu_wake k kf) = futures kf" "notified (kfu_wake k kf) = notified kf @ [k]"
  by (simp_all add: kfu_wake_def)

lemma ps_inv_new: "ps_inv ps_new" "ps_abs ps_new = Map.empty"
  by (auto simp: ps_inv_def key_ok_def ps_new_def ps_abs_def kfu_new_def)

lemma ps_inv_key:
  "ps_inv ps \<Longrightarrow> key_ok (map_of (priorities ps)) (map_of (ready_streams ps)) (map_of (futures (pending_streams ps))) k"
  by (simp add: ps_inv_def)

lemma ps_key_cases:
  assumes "ps_inv ps"
  obtains (absent) "map_of (priorities ps) k = None" "map_of (futures (pending_streams ps)) k = None"
      "\<And>p. map_of (ready_streams ps) (p, k) = None" "ps_abs ps k = None"
  | (pending) p s where "map_of (priorities ps) k = Some p" "map_of (futures (pending_streams ps)) k = Some s"
      "\<And>p. map_of (ready_streams ps) (p, k) = None" "ps_abs ps k = Some (p, s)"
  | (ready) p s where "map_of (priorities ps) k = Some p" "map_of (futures (pending_streams ps)) k = None"
      "map_of (ready_streams ps) (p, k) = Some s" "\<And>p'. p' \<noteq> p \<Longrightarrow> map_of (ready_streams ps) (p', k) = None"
      "ps_abs ps k = Some (p, s)"
proof (cases "map_of (priorities ps) k")
  case None
  then show ?thesis using absent ps_inv_key [OF assms, of k] by (simp add: key_ok_def ps_abs_def)
next
  case (Some p)
  show ?thesis
  proof (cases "map_of (futures (pending_streams ps)) k")
    case None
    then show ?thesis using Some ready ps_inv_key [OF assms, of k]
      by (fastforce simp: key_ok_def ps_abs_def ps_stream_def)
  next
    case (Some s)
    have "map_of (ready_streams ps) (p', k) = None" for p'
      using \<open>map_of (priorities ps) k = Some p\<close> Some ps_inv_key [OF assms, of k]
      by (cases "p' = p") (auto simp: key_ok_def)
    then show ?thesis using \<open>map_of (priorities ps) k = Some p\<close> Some pending
      by (simp add: ps_abs_def ps_stream_def)
  qed
qed

text \<open>Only the maps matter to the view from outside.\<close>

lemma ps_abs_maps:
  "ps_abs ps k = (case map_of (priorities ps) k of None \<Rightarrow> None
     | Some p \<Rightarrow> map_option (Pair p) (case map_of (futures (pending_streams ps)) k of Some s \<Rightarrow> Some s
         | None \<Rightarrow> map_of (ready_streams ps) (p, k)))"
  by (simp add: ps_abs_def ps_stream_def split: option.split)

lemma key_ok_cong:
  assumes "P k = P' k" and "Q k = Q' k" and "\<And>p. R (p, k) = R' (p, k)"
  shows "key_ok P R Q k = key_ok P' R' Q' k"
  using assms by (simp add: key_ok_def split: option.split)

text \<open>An operation that touches one key only.\<close>

lemma ps_one_key:
  assumes inv: "ps_inv ps"
    and ok: "distinct (map fst (priorities ps'))" "distinct (map fst (futures (pending_streams ps')))" "bt_ok (ready_streams ps')"
    and other: "\<And>k'. k' \<noteq> k \<Longrightarrow> map_of (priorities ps') k' = map_of (priorities ps) k'"
      "\<And>k'. k' \<noteq> k \<Longrightarrow> map_of (futures (pending_streams ps')) k' = map_of (futures (pending_streams ps)) k'"
      "\<And>k' p. k' \<noteq> k \<Longrightarrow> map_of (ready_streams ps') (p, k') = map_of (ready_streams ps) (p, k')"
    and key: "key_ok (map_of (priorities ps')) (map_of (ready_streams ps')) (map_of (futures (pending_streams ps'))) k"
  shows "ps_inv ps' \<and> ps_abs ps' = (ps_abs ps)(k := ps_abs ps' k)"
proof -
  have "key_ok (map_of (priorities ps')) (map_of (ready_streams ps')) (map_of (futures (pending_streams ps'))) k'" for k'
  proof (cases "k' = k")
    case False
    then have "key_ok (map_of (priorities ps')) (map_of (ready_streams ps')) (map_of (futures (pending_streams ps'))) k' =
        key_ok (map_of (priorities ps)) (map_of (ready_streams ps)) (map_of (futures (pending_streams ps))) k'"
      by (intro key_ok_cong other)
    then show ?thesis using ps_inv_key [OF inv] by simp
  qed (use key in simp)
  moreover have "ps_abs ps' k' = ps_abs ps k'" if "k' \<noteq> k" for k'
    using other that by (simp add: ps_abs_maps split: option.split)
  ultimately show ?thesis using ok by (auto simp: ps_inv_def)
qed

lemma ps_try_insert_ok:
  assumes "ps_inv ps"
  shows "\<exists>ps'. ps_try_insert k p s ps = (Inr (if ps_abs ps k = None then None else Some s), ps') \<and> ps_inv ps' \<and>
    ps_abs ps' = (if ps_abs ps k = None then (ps_abs ps)(k \<mapsto> (p, s)) else ps_abs ps)"
proof (cases k rule: ps_key_cases [OF assms])
  case (1)
  let ?ps = "ps\<lparr>pending_streams := kfu_wake k ((pending_streams ps)\<lparr>futures := AList.update k s (futures (pending_streams ps))\<rparr>),
               priorities := AList.update k p (priorities ps)\<rparr>"
  have "ps_inv ?ps \<and> ps_abs ?ps = (ps_abs ps)(k := ps_abs ?ps k)"
    using assms 1 by (intro ps_one_key) (auto simp: ps_inv_def key_ok_def alist_simps)
  moreover have "ps_abs ?ps k = Some (p, s)" by (simp add: ps_abs_maps alist_simps)
  ultimately show ?thesis using 1 by (simp add: ps_try_insert_def kfu_try_insert_def)
qed (use assms in \<open>simp_all add: ps_try_insert_def\<close>)

lemma ps_remove_ok:
  assumes "ps_inv ps"
  shows "\<exists>ps'. ps_remove k ps = (Inr (map_option (Pair k) (ps_abs ps k)), ps') \<and> ps_inv ps' \<and>
    ps_abs ps' = (ps_abs ps)(k := None)"
proof (cases k rule: ps_key_cases [OF assms])
  case 1
  then show ?thesis using assms by (auto simp: ps_remove_def fun_upd_idem)
next
  case (2 p s)
  let ?ps = "ps\<lparr>priorities := AList.delete k (priorities ps), pending_streams := (pending_streams ps)\<lparr>futures := AList.delete k (futures (pending_streams ps))\<rparr>\<rparr>"
  have "ps_inv ?ps \<and> ps_abs ?ps = (ps_abs ps)(k := ps_abs ?ps k)"
    using assms 2 by (intro ps_one_key) (auto simp: ps_inv_def key_ok_def alist_simps)
  moreover have "ps_abs ?ps k = None" by (simp add: ps_abs_maps alist_simps)
  ultimately show ?thesis using 2 by (simp add: ps_remove_def kfu_remove_def Let_def)
next
  case (3 p s)
  let ?ps = "ps\<lparr>priorities := AList.delete k (priorities ps), ready_streams := bt_remove (p, k) (ready_streams ps)\<rparr>"
  have "ps_inv ?ps \<and> ps_abs ?ps = (ps_abs ps)(k := ps_abs ?ps k)"
    using assms 3 by (intro ps_one_key)
      (auto simp: ps_inv_def key_ok_def alist_simps bt_remove_ok bt_remove_lookup)
  moreover have "ps_abs ?ps k = None" by (simp add: ps_abs_maps alist_simps)
  ultimately show ?thesis using 3 by (simp add: ps_remove_def kfu_remove_def Let_def)
qed

lemma ps_stream_abs: "ps_inv ps \<Longrightarrow> ps_stream k ps = map_option snd (ps_abs ps k)"
  by (cases rule: ps_key_cases [of ps k]) (auto simp: ps_stream_def)

lemma ps_set_stream_ok:
  assumes "ps_inv ps" and "ps_abs ps k = Some (p, s0)"
  shows "ps_inv (ps_set_stream k s ps) \<and> ps_abs (ps_set_stream k s ps) = (ps_abs ps)(k \<mapsto> (p, s))"
proof (cases k rule: ps_key_cases [OF assms(1)])
  case 1
  then show ?thesis using assms(2) by simp
next
  case (2 q t)
  let ?ps = "ps\<lparr>pending_streams := (pending_streams ps)\<lparr>futures := AList.update k s (futures (pending_streams ps))\<rparr>\<rparr>"
  have "ps_inv ?ps \<and> ps_abs ?ps = (ps_abs ps)(k := ps_abs ?ps k)"
    using assms 2 by (intro ps_one_key) (auto simp: ps_inv_def key_ok_def alist_simps)
  moreover have "ps_abs ?ps k = Some (p, s)" using 2 assms(2) by (simp add: ps_abs_maps alist_simps)
  ultimately show ?thesis using 2 by (simp add: ps_set_stream_def)
next
  case (3 q t)
  then have r: "map_of (ready_streams ps) (p, k) = Some s0" "map_of (priorities ps) k = Some p"
      "map_of (futures (pending_streams ps)) k = None"
      "\<And>p'. p' \<noteq> p \<Longrightarrow> map_of (ready_streams ps) (p', k) = None"
    using assms(2) by auto
  let ?ps = "ps\<lparr>ready_streams := bt_update (p, k) s (ready_streams ps)\<rparr>"
  have l: "map_of (bt_update (p, k) s (ready_streams ps)) = (map_of (ready_streams ps))((p, k) \<mapsto> s)"
    using r by (intro bt_update_lookup) simp
  have "ps_inv ?ps \<and> ps_abs ?ps = (ps_abs ps)(k := ps_abs ?ps k)"
    using assms(1) r by (intro ps_one_key) (auto simp: ps_inv_def key_ok_def l)
  moreover have "ps_abs ?ps k = Some (p, s)" using r by (simp add: ps_abs_maps l)
  ultimately show ?thesis using r by (simp add: ps_set_stream_def)
qed

section \<open>Polling\<close>

text \<open>
  One round of polling: it leaves the streams whose keys it did not read, takes out at most the
  one it returns, and every other stream it read has just answered \<open>Pending\<close> to its own waker.
\<close>

definition armed :: "('k, 's, 'a) stream_poll \<Rightarrow> 'k \<Rightarrow> 's \<Rightarrow> bool" where
  "armed pk k s \<longleftrightarrow> (\<exists>s0. pk (Some k) s0 = (Pending, s))"

lemmas kfu_splits = option.splits prod.splits poll.splits

lemma kfu_loop_shape:
  "kfu_loop pk keys futs = (r, keys', futs') \<Longrightarrow> distinct (map fst futs) \<Longrightarrow>
     distinct (map fst futs') \<and> (r = Pending \<longrightarrow> keys' = []) \<and> r \<noteq> Ready None"
  by (induction pk keys futs rule: kfu_loop.induct) (auto simp: alist_simps split: kfu_splits)

lemma kfu_loop_ready:
  "kfu_loop pk keys futs = (Ready (Some (k, s)), keys', futs') \<Longrightarrow>
     (\<exists>s0 x. pk (Some k) s0 = (Ready x, s)) \<and> map_of futs' k = None"
  by (induction pk keys futs rule: kfu_loop.induct) (auto simp: alist_simps split: kfu_splits)

lemma kfu_loop_returns:
  "kfu_loop pk keys futs = (Ready (Some (k, s)), keys', futs') \<Longrightarrow> map_of futs k \<noteq> None"
proof (induction pk keys futs rule: kfu_loop.induct)
  case (2 pk key keys futs)
  then show ?case by (cases "k = key") (auto simp: alist_simps split: kfu_splits)
qed simp

lemma kfu_loop_dom:
  "kfu_loop pk keys futs = (r, keys', futs') \<Longrightarrow>
     map_of futs' k = None \<longleftrightarrow> map_of futs k = None \<or> (\<exists>s. r = Ready (Some (k, s)))"
proof (induction pk keys futs rule: kfu_loop.induct)
  case (2 pk key keys futs)
  show ?case
  proof (cases "map_of futs key")
    case (Some t)
    obtain a t' where t': "pk (Some key) t = (a, t')" by fastforce
    show ?thesis
    proof (cases a)
      case Pending
      then show ?thesis using 2(2) [OF Some t'[symmetric] Pending] 2(3) Some t'
        by (auto simp: alist_simps split: if_splits)
    next
      case (Ready x)
      then show ?thesis using 2(3) Some t' by (auto simp: alist_simps split: if_splits)
    qed
  qed (use 2 in auto)
qed auto

lemma kfu_loop_armed:
  "kfu_loop pk keys futs = (r, keys', futs') \<Longrightarrow> map_of futs' k = Some s \<Longrightarrow>
     armed pk k s \<or> map_of futs k = Some s \<and> (k \<in> set keys \<longrightarrow> k \<in> set keys')"
proof (induction pk keys futs rule: kfu_loop.induct)
  case (2 pk key keys futs)
  show ?case
  proof (cases "map_of futs key")
    case None
    then show ?thesis using 2 by auto
  next
    case (Some t)
    obtain a t' where t': "pk (Some key) t = (a, t')" by fastforce
    show ?thesis
    proof (cases a)
      case Pending
      with t' have "armed pk key t'" by (auto simp: armed_def)
      then show ?thesis using 2(2) [OF Some t'[symmetric] Pending] 2(3,4) Some t' Pending
        by (auto simp: alist_simps split: if_splits)
    next
      case (Ready x)
      then show ?thesis using 2(3,4) Some t' by (auto simp: alist_simps split: if_splits)
    qed
  qed
qed auto

text \<open>
  The state of a set whose streams all answer to \<open>pk\<close>: no pending stream is forgotten (its key
  is waiting to be read, or its last poll answered \<open>Pending\<close> to its own waker), and every ready
  stream has its answer at hand.
\<close>

definition none_forgotten :: "('k, 's, 'a) stream_poll \<Rightarrow> ('k, 's) keyed_futures \<Rightarrow> bool" where
  "none_forgotten pk kf \<longleftrightarrow>
     (\<forall>k s. map_of (futures kf) k = Some s \<longrightarrow> k \<in> set (notified kf) \<or> armed pk k s)"

definition answers_at_hand :: "('k, 's, 'a) stream_poll \<Rightarrow> ('p \<times> 'k \<rightharpoonup> 's) \<Rightarrow> bool" where
  "answers_at_hand pk R \<longleftrightarrow> (\<forall>pr s. R pr = Some s \<longrightarrow> (\<exists>r. \<forall>w. pk w s = (Ready r, s)))"

definition ps_good :: "('k::linorder, 's, 'a) stream_poll \<Rightarrow> ('k, 'p::linorder, 's) poll_set \<Rightarrow> bool" where
  "ps_good pk ps \<longleftrightarrow>
     ps_inv ps \<and> none_forgotten pk (pending_streams ps) \<and> answers_at_hand pk (map_of (ready_streams ps))"

lemma ps_good_new: "ps_good pk ps_new"
  using ps_inv_new
  by (simp add: ps_good_def none_forgotten_def answers_at_hand_def ps_new_def kfu_new_def)

lemma kfu_poll_next_forgets_none:
  assumes "kfu_poll_next pk kf = (r, kf')" and "none_forgotten pk kf"
  shows "none_forgotten pk kf'"
  using assms kfu_loop_armed [of pk "notified kf" "futures kf"]
  by (fastforce simp: kfu_poll_next_def none_forgotten_def split: if_splits prod.splits)

lemma kfu_poll_next_last:
  assumes "kfu_poll_next pk kf = (r, kf')" and "none_forgotten pk kf" and "\<forall>ks. r \<noteq> Ready (Some ks)"
    and "distinct (map fst (futures kf))"
  shows "\<forall>k s. map_of (futures kf') k = Some s \<longrightarrow> armed pk k s"
proof (cases "futures kf = []")
  case True
  then show ?thesis using assms(1) by (auto simp: kfu_poll_next_def)
next
  case False
  then obtain keys futs where l: "kfu_loop pk (notified kf) (futures kf) = (r, keys, futs)"
      "kf' = kf\<lparr>notified := keys, futures := futs\<rparr>"
    using assms(1) by (auto simp: kfu_poll_next_def split: prod.splits)
  have "r = Pending"
    using kfu_loop_shape [OF l(1) assms(4)] assms(3) by (metis option.exhaust poll.exhaust)
  then have "notified kf' = []" using kfu_loop_shape [OF l(1) assms(4)] l(2) by simp
  then show ?thesis using kfu_poll_next_forgets_none [OF assms(1,2)] by (simp add: none_forgotten_def)
qed

text \<open>Moving a stream that has become ready.\<close>

lemma ps_move_ready:
  assumes inv: "ps_inv ps" and q: "kfu_poll_next pk (pending_streams ps) = (Ready (Some (k, s)), kf)"
  shows "\<exists>p. map_of (priorities ps) k = Some p \<and> map_of (ready_streams ps) (p, k) = None \<and>
    ps_inv (ps\<lparr>pending_streams := kf, ready_streams := bt_insert (p, k) s (ready_streams ps)\<rparr>)"
proof -
  obtain keys futs where l: "kfu_loop pk (notified (pending_streams ps)) (futures (pending_streams ps)) =
        (Ready (Some (k, s)), keys, futs)"
      and kf: "kf = (pending_streams ps)\<lparr>notified := keys, futures := futs\<rparr>"
    using q by (auto simp: kfu_poll_next_def split: prod.splits if_splits)
  note k = kfu_loop_ready [OF l] kfu_loop_returns [OF l] and other = kfu_loop_dom [OF l]
  obtain p where p: "map_of (priorities ps) k = Some p" "\<And>q. map_of (ready_streams ps) (q, k) = None"
    using k by (cases rule: ps_key_cases [OF inv, of k]) auto
  let ?ps = "ps\<lparr>pending_streams := kf, ready_streams := bt_insert (p, k) s (ready_streams ps)\<rparr>"
  have ok: "bt_ok (ready_streams ps)" using inv by (simp add: ps_inv_def)
  have "key_ok (map_of (priorities ?ps)) (map_of (ready_streams ?ps)) (map_of (futures (pending_streams ?ps))) k'" for k'
  proof (cases "k' = k")
    case True
    then show ?thesis using p k by (simp add: key_ok_def kf bt_insert_lookup [OF ok])
  next
    case False
    then have "map_of futs k' = None \<longleftrightarrow> map_of (futures (pending_streams ps)) k' = None"
      using other by simp
    then show ?thesis using ps_inv_key [OF inv, of k'] False
      by (simp add: key_ok_def kf bt_insert_lookup [OF ok] split: option.splits)
  qed
  moreover have "distinct (map fst futs)"
    using kfu_loop_shape [OF l] inv by (simp add: ps_inv_def)
  ultimately have "ps_inv ?ps" using inv by (simp add: ps_inv_def kf bt_insert_ok)
  then show ?thesis using p by blast
qed

lemma ps_inv_pending:
  assumes inv: "ps_inv ps" and q: "kfu_poll_next pk (pending_streams ps) = (r, kf)"
    and r: "\<forall>ks. r \<noteq> Ready (Some ks)"
  shows "ps_inv (ps\<lparr>pending_streams := kf\<rparr>)"
proof (cases "futures (pending_streams ps) = []")
  case True
  then show ?thesis using q inv by (auto simp: kfu_poll_next_def)
next
  case False
  then obtain keys futs where l: "kfu_loop pk (notified (pending_streams ps)) (futures (pending_streams ps)) = (r, keys, futs)"
      and kf: "kf = (pending_streams ps)\<lparr>notified := keys, futures := futs\<rparr>"
    using q by (auto simp: kfu_poll_next_def split: prod.splits)
  have "map_of futs k' = None \<longleftrightarrow> map_of (futures (pending_streams ps)) k' = None" for k'
    using kfu_loop_dom [OF l] r by simp
  then have "key_ok (map_of (priorities ps)) (map_of (ready_streams ps)) (map_of futs) k'" for k'
    using ps_inv_key [OF inv, of k'] by (simp add: key_ok_def split: option.splits)
  moreover have "distinct (map fst futs)" using kfu_loop_shape [OF l] inv by (simp add: ps_inv_def)
  ultimately show ?thesis using inv by (simp add: ps_inv_def kf)
qed

section \<open>Streams that can be peeked at\<close>

text \<open>
  The contract of \<open>PeekableStream\<close>: an answer stays the same until it is taken, and taking gives
  what peeking gave.
\<close>

locale peekable_stream =
  fixes pk nxt :: "('k::linorder, 's, 'a) stream_poll"
  assumes peek_stable: "pk w s = (Ready r, s') \<Longrightarrow> pk w' s' = (Ready r, s')"
    and next_agrees: "pk w s = (Ready r, s') \<Longrightarrow> fst (nxt w' s') = Ready r"
begin

lemma move_good:
  assumes g: "ps_good pk ps" and q: "kfu_poll_next pk (pending_streams ps) = (Ready (Some (k, s)), kf)"
    and p: "map_of (priorities ps) k = Some p"
  shows "ps_good pk (ps\<lparr>pending_streams := kf, ready_streams := bt_insert (p, k) s (ready_streams ps)\<rparr>)"
proof -
  have inv: "ps_inv ps" and nf: "none_forgotten pk (pending_streams ps)"
    and ah: "answers_at_hand pk (map_of (ready_streams ps))"
    using g by (auto simp: ps_good_def)
  have "bt_ok (ready_streams ps)" using inv by (simp add: ps_inv_def)
  note lookup = bt_insert_lookup [OF this]
  obtain s0 x where "pk (Some k) s0 = (Ready x, s)"
    using q kfu_loop_ready by (fastforce simp: kfu_poll_next_def split: prod.splits if_splits)
  then have "\<forall>w. pk w s = (Ready x, s)" using peek_stable by blast
  then have "answers_at_hand pk (map_of (bt_insert (p, k) s (ready_streams ps)))"
    using ah by (auto simp: answers_at_hand_def lookup)
  then show ?thesis
    using ps_move_ready [OF inv q] p kfu_poll_next_forgets_none [OF q nf] by (simp add: ps_good_def)
qed

text \<open>Polling: it never panics, keeps the set, and leaves no pending stream that was not polled.\<close>

lemma poll_ready_ok:
  assumes "ps_good pk ps"
  shows "\<exists>ps'. ps_poll_ready pk ps = (Inr (), ps') \<and> ps_good pk ps' \<and> priorities ps' = priorities ps \<and>
    (\<forall>k s. map_of (futures (pending_streams ps')) k = Some s \<longrightarrow> armed pk k s) \<and>
    (\<forall>pr s. map_of (ready_streams ps) pr = Some s \<longrightarrow> map_of (ready_streams ps') pr = Some s)"
  using assms
proof (induction ps rule: measure_induct_rule [of "\<lambda>ps. length (notified (pending_streams ps))"])
  case (less ps)
  obtain r kf where q: "kfu_poll_next pk (pending_streams ps) = (r, kf)" by fastforce
  have inv: "ps_inv ps" and nf: "none_forgotten pk (pending_streams ps)"
    using less.prems by (auto simp: ps_good_def)
  show ?case
  proof (cases "\<exists>ks. r = Ready (Some ks)")
    case True
    then obtain k s where r: "r = Ready (Some (k, s))" by auto
    obtain p where p: "map_of (priorities ps) k = Some p" "map_of (ready_streams ps) (p, k) = None"
      using ps_move_ready [OF inv] q r by blast
    let ?ps = "ps\<lparr>pending_streams := kf, ready_streams := bt_insert (p, k) s (ready_streams ps)\<rparr>"
    have e: "ps_poll_ready pk ps = ps_poll_ready pk ?ps"
      using q r p by (subst ps_poll_ready.simps) (simp add: Let_def)
    have lookup: "map_of (ready_streams ?ps) = (map_of (ready_streams ps))((p, k) \<mapsto> s)"
      using inv by (simp add: ps_inv_def bt_insert_lookup)
    have "length (notified (pending_streams ?ps)) < length (notified (pending_streams ps))"
      using kfu_poll_next_shrinks q r by fastforce
    moreover have "ps_good pk ?ps" using move_good [OF less.prems] q r p(1) by simp
    ultimately obtain ps' where ps': "ps_poll_ready pk ?ps = (Inr (), ps')" "ps_good pk ps'"
        "priorities ps' = priorities ?ps" "\<forall>k s. map_of (futures (pending_streams ps')) k = Some s \<longrightarrow> armed pk k s"
        "\<forall>pr s. map_of (ready_streams ?ps) pr = Some s \<longrightarrow> map_of (ready_streams ps') pr = Some s"
      using less.IH by blast
    have "map_of (ready_streams ps') pr = Some t" if "map_of (ready_streams ps) pr = Some t" for pr t
    proof -
      have "pr \<noteq> (p, k)" using that p(2) by auto
      then have "map_of (ready_streams ?ps) pr = Some t" unfolding lookup using that by simp
      then show ?thesis using ps'(5) by blast
    qed
    then show ?thesis using ps' by (auto simp: e)
  next
    case False
    then have "ps_poll_ready pk ps = (Inr (), ps\<lparr>pending_streams := kf\<rparr>)"
      using q by (subst ps_poll_ready.simps) (auto split: poll.split option.split)
    moreover have "distinct (map fst (futures (pending_streams ps)))" using inv by (simp add: ps_inv_def)
    moreover have "ps_good pk (ps\<lparr>pending_streams := kf\<rparr>)"
      using less.prems ps_inv_pending [OF inv q] False kfu_poll_next_forgets_none [OF q nf]
      by (simp add: ps_good_def)
    ultimately show ?thesis using kfu_poll_next_last [OF q nf] False by auto
  qed
qed

text \<open>Taking the value of a ready stream sends the stream to the back, to be polled again.\<close>

lemma take_ready_ok:
  assumes g: "ps_good pk ps" and p: "map_of (priorities ps) k = Some p"
    and s: "map_of (ready_streams ps) (p, k) = Some s" and v: "pk None s = (Ready (Some v), s1)"
  shows "\<exists>ps' s'. nxt None s = (Ready (Some v), s') \<and>
    ps_take_ready_value_and_reprioritize pk nxt k np ps = (Inr (Some (p, v)), ps') \<and> ps_good pk ps' \<and>
    ps_abs ps' = (ps_abs ps)(k \<mapsto> (np, s')) \<and> map_of (futures (pending_streams ps')) k \<noteq> None \<and>
    k \<in> set (notified (pending_streams ps')) \<and>
    map_of (priorities ps') = (map_of (priorities ps))(k \<mapsto> np) \<and>
    map_of (ready_streams ps') = (map_of (ready_streams ps))((p, k) := None)"
proof -
  have inv: "ps_inv ps" and nf: "none_forgotten pk (pending_streams ps)"
    and ah: "answers_at_hand pk (map_of (ready_streams ps))"
    using g by (auto simp: ps_good_def)
  have "s1 = s" using ah s v by (fastforce simp: answers_at_hand_def)
  obtain s' where s': "nxt None s = (Ready (Some v), s')"
    using next_agrees [OF v, of None] \<open>s1 = s\<close> by (cases "nxt None s") auto
  have k: "map_of (futures (pending_streams ps)) k = None" "\<And>q. q \<noteq> p \<Longrightarrow> map_of (ready_streams ps) (q, k) = None"
    using p s by (cases rule: ps_key_cases [OF inv, of k]; auto)+
  let ?kf = "kfu_wake k ((pending_streams ps)\<lparr>futures := AList.update k s' (futures (pending_streams ps))\<rparr>)"
  let ?ps = "ps\<lparr>ready_streams := bt_remove (p, k) (ready_streams ps),
               priorities := AList.update k np (priorities ps), pending_streams := ?kf\<rparr>"
  have "ps_inv ?ps \<and> ps_abs ?ps = (ps_abs ps)(k := ps_abs ?ps k)"
    using inv k by (intro ps_one_key)
      (auto simp: ps_inv_def key_ok_def alist_simps bt_remove_ok bt_remove_lookup)
  moreover have "ps_abs ?ps k = Some (np, s')" by (simp add: ps_abs_maps alist_simps)
  moreover have "none_forgotten pk ?kf" using nf by (auto simp: none_forgotten_def alist_simps)
  moreover have "answers_at_hand pk (map_of (bt_remove (p, k) (ready_streams ps)))"
    using ah by (auto simp: answers_at_hand_def bt_remove_lookup)
  moreover have "ps_take_ready_value_and_reprioritize pk nxt k np ps = (Inr (Some (p, v)), ?ps)"
    using p s v s' k \<open>s1 = s\<close>
    by (simp add: ps_take_ready_value_and_reprioritize_def kfu_try_insert_def Let_def)
  ultimately show ?thesis using s'
    by (intro exI [of _ ?ps] exI [of _ s']) (simp add: ps_good_def alist_simps bt_remove_lookup)
qed

end

text \<open>The peeking adapter keeps the contract, whatever the stream underneath.\<close>

interpretation peeker_peekable: peekable_stream "poll_peek n" "peeker_poll_next n"
  for n :: "('a, 's, 'k::linorder option) inner_next"
  by unfold_locales (auto dest: peeked_stays)

section \<open>The operations keep the set\<close>

lemma none_forgotten_insert:
  "none_forgotten pk kf \<Longrightarrow> none_forgotten pk (kfu_wake k (kf\<lparr>futures := AList.update k s (futures kf)\<rparr>))"
  unfolding none_forgotten_def by (simp add: alist_simps)

lemma none_forgotten_delete:
  "none_forgotten pk kf \<Longrightarrow> none_forgotten pk (kf\<lparr>futures := AList.delete k (futures kf)\<rparr>)"
  unfolding none_forgotten_def by (simp add: alist_simps)

lemma none_forgotten_wake: "none_forgotten pk kf \<Longrightarrow> none_forgotten pk (kfu_wake k kf)"
  unfolding none_forgotten_def by fastforce

lemma answers_at_hand_remove:
  "answers_at_hand pk (map_of m) \<Longrightarrow> answers_at_hand pk (map_of (bt_remove pr m))"
  by (simp add: answers_at_hand_def bt_remove_lookup)

lemma ps_try_insert_good:
  assumes "ps_good pk ps" and "ps_try_insert k p s ps = (r, ps')"
  shows "ps_good pk ps'"
proof -
  have inv: "ps_inv ps" using assms by (simp add: ps_good_def)
  then have "ps_inv ps'" using ps_try_insert_ok [OF inv, of k p s] assms(2) by auto
  then show ?thesis using assms
    by (auto simp: ps_good_def ps_try_insert_def kfu_try_insert_def none_forgotten_insert
        split: option.splits if_splits)
qed

lemma ps_remove_good:
  assumes "ps_good pk ps" and "ps_remove k ps = (r, ps')"
  shows "ps_good pk ps'"
proof -
  have inv: "ps_inv ps" using assms by (simp add: ps_good_def)
  then have "ps_inv ps'" using ps_remove_ok [OF inv, of k] assms(2) by auto
  then show ?thesis using assms
    by (auto simp: ps_good_def ps_remove_def kfu_remove_def Let_def none_forgotten_delete answers_at_hand_remove
        split: option.splits prod.splits if_splits)
qed

text \<open>The waker of a key fires.\<close>

definition ps_wake :: "'k \<Rightarrow> ('k, 'p, 's) poll_set \<Rightarrow> ('k, 'p, 's) poll_set" where
  "ps_wake k ps = ps\<lparr>pending_streams := kfu_wake k (pending_streams ps)\<rparr>"

lemma ps_wake_good: "ps_good pk ps \<Longrightarrow> ps_good pk (ps_wake k ps)"
  by (auto simp: ps_good_def ps_wake_def ps_inv_def none_forgotten_wake)

lemma ps_wake_abs: "ps_abs (ps_wake k ps) = ps_abs ps"
  by (simp add: fun_eq_iff ps_abs_maps ps_wake_def split: option.split)

text \<open>
  Changing a stream in place: a ready stream must keep an answer at hand, and a stream that
  waits for its waker must still be waiting, unless its key is reported.
\<close>

lemma ps_set_stream_lookup:
  assumes "ps_inv ps" and "ps_abs ps i = Some (p, e)"
  shows "priorities (ps_set_stream i e' ps) = priorities ps"
    "notified (pending_streams (ps_set_stream i e' ps)) = notified (pending_streams ps)"
    "map_of (futures (pending_streams (ps_set_stream i e' ps))) k =
       (if k = i \<and> map_of (futures (pending_streams ps)) i \<noteq> None then Some e'
        else map_of (futures (pending_streams ps)) k)"
    "map_of (ready_streams (ps_set_stream i e' ps)) (q, k) =
       (if k = i \<and> map_of (ready_streams ps) (q, k) \<noteq> None then Some e' else map_of (ready_streams ps) (q, k))"
  using assms(2)
  by (cases rule: ps_key_cases [OF assms(1), of i]; force simp: ps_set_stream_def alist_simps bt_update_lookup)+

lemma ps_set_stream_good:
  assumes g: "ps_good pk ps" and a: "ps_abs ps i = Some (p, e)"
    and ready: "map_of (ready_streams ps) (p, i) = Some e \<Longrightarrow> \<forall>r. (\<forall>w. pk w e = (Ready r, e)) \<longrightarrow> (\<exists>r. \<forall>w. pk w e' = (Ready r, e'))"
    and pend: "armed pk i e \<Longrightarrow> armed pk i e' \<or> woken \<or> i \<in> set (notified (pending_streams ps))"
  shows "ps_good pk (if woken then ps_wake i (ps_set_stream i e' ps) else ps_set_stream i e' ps)"
proof -
  have inv: "ps_inv ps" and nf: "none_forgotten pk (pending_streams ps)"
    and ah: "answers_at_hand pk (map_of (ready_streams ps))"
    using g by (auto simp: ps_good_def)
  note l = ps_set_stream_lookup [OF inv a, of e']
  have "ps_inv (ps_set_stream i e' ps)" using ps_set_stream_ok [OF inv a] by blast
  moreover have "answers_at_hand pk (map_of (ready_streams (ps_set_stream i e' ps)))"
    unfolding answers_at_hand_def
  proof (intro allI impI)
    fix pr s assume s: "map_of (ready_streams (ps_set_stream i e' ps)) pr = Some s"
    obtain q k where pr: "pr = (q, k)" by (cases pr)
    show "\<exists>r. \<forall>w. pk w s = (Ready r, s)"
    proof (cases "k = i \<and> map_of (ready_streams ps) (q, k) \<noteq> None")
      case True
      then have "s = e'" using s pr l(4) [of q k] by auto
      moreover have "map_of (ready_streams ps) (p, i) = Some e"
        using a True by (cases rule: ps_key_cases [OF inv, of i]) auto
      ultimately show ?thesis using ready ah unfolding answers_at_hand_def by blast
    next
      case False
      then have "map_of (ready_streams ps) pr = Some s" using s pr l(4) [of q k] by (auto split: if_splits)
      then show ?thesis using ah unfolding answers_at_hand_def by blast
    qed
  qed
  moreover have "k \<in> set (notified (pending_streams ps)) \<or> woken \<and> k = i \<or> armed pk k s"
    if "map_of (futures (pending_streams (ps_set_stream i e' ps))) k = Some s" for k s
  proof (cases "k = i \<and> map_of (futures (pending_streams ps)) i \<noteq> None")
    case True
    then have "s = e'" "map_of (futures (pending_streams ps)) i = Some e"
      using a that l(3) [of i] by (cases rule: ps_key_cases [OF inv, of i]; auto)+
    then show ?thesis using nf pend True by (auto simp: none_forgotten_def)
  next
    case False
    then have "map_of (futures (pending_streams ps)) k = Some s" using that l(3) [of k] by (auto split: if_splits)
    then show ?thesis using nf by (auto simp: none_forgotten_def)
  qed
  ultimately show ?thesis
    by (auto simp: ps_good_def none_forgotten_def l(2) ps_wake_def ps_inv_def)
qed

text \<open>Streams come out in ascending order of priority.\<close>

lemma ps_iter_sorted: "ps_inv ps \<Longrightarrow> sorted (map (\<lambda>(k, p, s). p) (ps_iter ps))"
proof -
  assume "ps_inv ps"
  then have "sorted_wrt (\<lambda>x y. fst (fst x) \<le> fst (fst y)) (ready_streams ps)"
    by (auto simp: ps_inv_def sorted_wrt_map less_prod_def' elim!: sorted_wrt_mono_rel [rotated])
  then show ?thesis by (simp add: ps_iter_def sorted_map case_prod_beta comp_def)
qed

lemma ps_abs_dom: "ps_inv ps \<Longrightarrow> dom (ps_abs ps) = dom (map_of (priorities ps))"
proof -
  assume inv: "ps_inv ps"
  have "ps_abs ps k = None \<longleftrightarrow> map_of (priorities ps) k = None" for k
    by (cases rule: ps_key_cases [OF inv, of k]) auto
  then show ?thesis by (auto simp: dom_def)
qed

section \<open>A stream that has ended\<close>

lemma ps_take_ended:
  assumes inv: "ps_inv ps" and p: "map_of (priorities ps) k = Some p"
    and s: "map_of (ready_streams ps) (p, k) = Some s" and e: "pk None s = (Ready None, s')"
  shows "\<exists>ps'. ps_take_ready_value_and_reprioritize pk nxt k np ps = (Inr None, ps') \<and>
    ps_abs ps' k = None \<and> fst (ps_remove k ps') = Inl (Panic ''Unexpectedly no value for key'')"
proof -
  have "map_of (futures (pending_streams ps)) k = None"
    using p s by (cases rule: ps_key_cases [OF inv, of k]) auto
  then show ?thesis using p s e
    by (simp add: ps_take_ready_value_and_reprioritize_def Let_def ps_abs_maps bt_remove_lookup
        ps_remove_def kfu_remove_def)
qed

section \<open>Using the set\<close>

text \<open>
  What a client does with the set: it takes a value only from a stream it has peeked a value on,
  as the documentation of \<open>poll_ready_iter_mut\<close> shows. Wakers fire at any time.
\<close>

datatype ('k, 'p, 's) ps_event = PsInsert 'k 'p 's | PsRemove 'k | PsWake 'k | PsPoll | PsTake 'k 'p

definition ps_step ::
  "('k::linorder, 's, 'a) stream_poll \<Rightarrow> ('k, 's, 'a) stream_poll \<Rightarrow> ('k, 'p::linorder, 's) ps_event \<Rightarrow>
     (('k, 'p, 's) poll_set, unit) op" where
  "ps_step pk nxt ev =
     (case ev of
        PsInsert k p s \<Rightarrow> op_bind (ps_try_insert k p s) (\<lambda>_. op_ret ())
      | PsRemove k \<Rightarrow> op_bind (ps_remove k) (\<lambda>_. op_ret ())
      | PsWake k \<Rightarrow> (\<lambda>ps. (Inr (), ps_wake k ps))
      | PsPoll \<Rightarrow> ps_poll_ready pk
      | PsTake k p \<Rightarrow> (\<lambda>ps.
          case fst (ps_peek pk k ps) of
            Some (Ready (Some _)) \<Rightarrow>
              op_bind (ps_take_ready_value_and_reprioritize pk nxt k p) (\<lambda>_. op_ret ()) ps
          | _ \<Rightarrow> (Inr (), ps)))"

fun ps_run ::
  "('k::linorder, 's, 'a) stream_poll \<Rightarrow> ('k, 's, 'a) stream_poll \<Rightarrow> ('k, 'p::linorder, 's) ps_event list \<Rightarrow>
     (('k, 'p, 's) poll_set, unit) op" where
  "ps_run pk nxt [] = op_ret ()"
| "ps_run pk nxt (ev # evs) = op_bind (ps_step pk nxt ev) (\<lambda>_. ps_run pk nxt evs)"

context peekable_stream
begin

lemma step_good:
  assumes g: "ps_good pk ps"
  shows "\<exists>ps'. ps_step pk nxt ev ps = (Inr (), ps') \<and> ps_good pk ps'"
proof (cases ev)
  case (PsInsert k p s)
  then show ?thesis using ps_try_insert_ok [of ps k p s] ps_try_insert_good [OF g, of k p s] g
    by (fastforce simp: ps_step_def op_bind_def op_ret_def ps_good_def)
next
  case (PsRemove k)
  then show ?thesis using ps_remove_ok [of ps k] ps_remove_good [OF g, of k] g
    by (fastforce simp: ps_step_def op_bind_def op_ret_def ps_good_def)
next
  case (PsWake k)
  then show ?thesis using ps_wake_good [OF g] by (simp add: ps_step_def)
next
  case PsPoll
  then show ?thesis using poll_ready_ok [OF g] by (auto simp: ps_step_def)
next
  case (PsTake k np)
  show ?thesis
  proof (cases "\<exists>v. fst (ps_peek pk k ps) = Some (Ready (Some v))")
    case True
    then obtain v where v: "fst (ps_peek pk k ps) = Some (Ready (Some v))" by blast
    obtain p s s1 where f: "map_of (priorities ps) k = Some p" "map_of (ready_streams ps) (p, k) = Some s"
        "pk None s = (Ready (Some v), s1)"
      using v by (auto simp: ps_peek_def split: option.splits prod.splits)
    then show ?thesis using take_ready_ok [OF g f, of np] PsTake v
      by (auto simp: ps_step_def op_bind_def op_ret_def)
  next
    case False
    then have "ps_step pk nxt ev ps = (Inr (), ps)"
      using PsTake by (auto simp: ps_step_def split: option.split poll.split)
    then show ?thesis using g by simp
  qed
qed

lemma run_good: "ps_good pk ps \<Longrightarrow> \<exists>ps'. ps_run pk nxt evs ps = (Inr (), ps') \<and> ps_good pk ps'"
proof (induction evs arbitrary: ps)
  case (Cons ev evs)
  then show ?case using step_good [OF Cons.prems, of ev] by (fastforce simp: op_bind_def)
qed (simp add: op_ret_def)

lemma ready_or_armed:
  assumes "ps_good pk ps" and "ps_poll_ready pk ps = (r, ps')" and "ps_abs ps' k = Some (p, s)"
  shows "(k, p, s) \<in> set (ps_iter ps') \<or> armed pk k s"
proof -
  have g: "ps_good pk ps'" and a: "\<forall>k s. map_of (futures (pending_streams ps')) k = Some s \<longrightarrow> armed pk k s"
    using poll_ready_ok [OF assms(1)] assms(2) by auto
  then have inv: "ps_inv ps'" by (simp add: ps_good_def)
  show ?thesis
  proof (cases rule: ps_key_cases [OF inv, of k])
    case (3 q t)
    then have "((p, k), s) \<in> set (ready_streams ps')" using assms(3) by (auto dest: map_of_SomeD)
    then show ?thesis by (force simp: ps_iter_def)
  qed (use a assms(3) in auto)
qed

end

text \<open>C17: the set of streams seen from outside is a finite map. As long as each key is in exactly one
  of the pending and the ready streams, inserting, removing and looking up act on that map as
  on any map, an insertion under a key in use gives the stream back, no operation panics, and
  the same holds afterwards.\<close>

theorem poll_set_refines_map:
  assumes "ps_inv ps"
  shows "\<exists>ps1 ps2.
    ps_try_insert k p s ps = (Inr (if ps_abs ps k = None then None else Some s), ps1) \<and> ps_inv ps1 \<and>
    ps_abs ps1 = (if ps_abs ps k = None then (ps_abs ps)(k \<mapsto> (p, s)) else ps_abs ps) \<and>
    ps_remove k ps = (Inr (map_option (Pair k) (ps_abs ps k)), ps2) \<and> ps_inv ps2 \<and>
    ps_abs ps2 = (ps_abs ps)(k := None) \<and>
    ps_stream k ps = map_option snd (ps_abs ps k)"
  using ps_try_insert_ok [OF assms, of k p s] ps_remove_ok [OF assms, of k] ps_stream_abs [OF assms, of k]
  by blast

theorem poll_set_refines_map_witness:
  "\<exists>ps1 :: (nat, nat, string) poll_set. ps_try_insert 3 0 ''s'' ps_new = (Inr None, ps1) \<and> ps_inv ps1 \<and>
     ps_abs ps1 = [3 \<mapsto> (0, ''s'')]"
proof -
  have n: "ps_inv (ps_new :: (nat, nat, string) poll_set)" "ps_abs (ps_new :: (nat, nat, string) poll_set) = Map.empty"
    by (rule ps_inv_new)+
  show ?thesis using poll_set_refines_map [OF n(1), of 3 0 "''s''"] by (auto simp: n(2))
qed

text \<open>C15: no stream is forgotten. Whatever the streams underneath do and in whatever order streams are
  inserted, removed, polled, read from (after a value was peeked) and woken, no operation
  panics; and once the set is polled, each of its streams either is among the ready ones,
  listed in order of priority, or has just answered \<open>Pending\<close> to the waker that reports its
  key.\<close>

theorem no_stream_forgotten:
  "\<exists>ps ps'. ps_run (poll_peek n) (peeker_poll_next n) evs ps_new = (Inr (), ps) \<and>
     ps_poll_ready (poll_peek n) ps = (Inr (), ps') \<and> dom (ps_abs ps') = dom (ps_abs ps) \<and>
     sorted (map (\<lambda>(k, p, s). p) (ps_iter ps')) \<and>
     (\<forall>k p s. ps_abs ps' k = Some (p, s) \<longrightarrow> (k, p, s) \<in> set (ps_iter ps') \<or> armed (poll_peek n) k s)"
proof -
  obtain ps where r: "ps_run (poll_peek n) (peeker_poll_next n) evs ps_new = (Inr (), ps)"
      and g: "ps_good (poll_peek n) ps"
    using peeker_peekable.run_good [OF ps_good_new] by blast
  obtain ps' where p: "ps_poll_ready (poll_peek n) ps = (Inr (), ps')" and g': "ps_good (poll_peek n) ps'"
      and pr: "priorities ps' = priorities ps"
    using peeker_peekable.poll_ready_ok [OF g] by blast
  have "ps_inv ps" "ps_inv ps'" using g g' by (auto simp: ps_good_def)
  then have "dom (ps_abs ps') = dom (ps_abs ps)" by (simp add: ps_abs_dom pr)
  then show ?thesis
    using r p ps_iter_sorted [OF \<open>ps_inv ps'\<close>] peeker_peekable.ready_or_armed [OF g p] by blast
qed

theorem no_stream_forgotten_witness:
  "\<exists>ps ps' :: (nat, nat, (nat, nat, nat option) peeker) poll_set.
     ps_run (poll_peek (\<lambda>_ s. (Ready (Some s), Suc s))) (peeker_poll_next (\<lambda>_ s. (Ready (Some s), Suc s)))
       [PsInsert 1 5 (peeker_new 7)] ps_new = (Inr (), ps) \<and>
     ps_poll_ready (poll_peek (\<lambda>_ s. (Ready (Some s), Suc s))) ps = (Inr (), ps') \<and>
     dom (ps_abs ps') = dom (ps_abs ps)"
  using no_stream_forgotten [of "\<lambda>_ s. (Ready (Some s), Suc s)" "[PsInsert 1 5 (peeker_new 7)]"] by blast

text \<open>C40: a stream that has ended. Taking from it gives nothing, as documented, but the stream is not
  left in place: the set keeps its priority and loses the stream itself, and removing it
  afterwards panics.\<close>

theorem ended_stream_is_lost:
  assumes "ps_inv ps" and "map_of (priorities ps) k = Some p" and "map_of (ready_streams ps) (p, k) = Some s"
    and "pk None s = (Ready None, s')"
  shows "\<exists>ps'. ps_take_ready_value_and_reprioritize pk nxt k np ps = (Inr None, ps') \<and>
    ps_abs ps' k = None \<and> fst (ps_remove k ps') = Inl (Panic ''Unexpectedly no value for key'')"
  using ps_take_ended [where pk = pk] assms by blast

theorem ended_stream_is_lost_witness:
  "\<exists>ps'. ps_take_ready_value_and_reprioritize (poll_peek (\<lambda>_ _. (Ready (None :: nat option), ())))
       (peeker_poll_next (\<lambda>_ _. (Ready None, ()))) (1 :: nat) (6 :: nat)
       \<lparr>priorities = [(1, 5)], ready_streams = [((5, 1), peeker_new ())], pending_streams = kfu_new\<rparr> = (Inr None, ps') \<and>
     ps_abs ps' 1 = None \<and> fst (ps_remove 1 ps') = Inl (Panic ''Unexpectedly no value for key'')"
proof (rule ended_stream_is_lost)
  show "ps_inv \<lparr>priorities = [(1 :: nat, 5 :: nat)], ready_streams = [((5, 1), peeker_new ())], pending_streams = kfu_new\<rparr>"
    by (auto simp: ps_inv_def key_ok_def kfu_new_def)
  show "poll_peek (\<lambda>_ _. (Ready (None :: nat option), ())) None (peeker_new ()) =
      (Ready None, \<lparr>buffered = None, poll_waker = None, inner = None\<rparr>)"
    by (simp add: poll_peek_def impl_poll_next_or_peek_def next_or_peek_inner_def return_from_poll_def
        peeker_new_def)
qed simp_all

end
