(* ===== verification/Stream_Map.thy ===== *)
theory Stream_Map
  imports Stream_Flow Poll_Set
begin

text \<open>
  The streams of a circuit hop (\<open>tor-proto/src/tunnel/streammap.rs\<close>): open streams, which are
  polled in turn for messages to send, and streams closed by one side. The channel into a
  stream (\<open>'c\<close>, with the waker \<open>'v\<close> of its reader) and the channel of messages to send (\<open>'r\<close>)
  are parameters. A waker of the set of open streams is the identifier of the stream it
  reports, or \<open>None\<close> for the no-op waker. Feature \<open>hs-service\<close> is on.
\<close>

section \<open>Open streams\<close>

record ('c, 'v, 'r) open_stream_ent =
  sink :: "('c, 'v) stream_queue"
  ent_dropped :: u16
  ent_checker :: cmd_checker
  flow_ctrl :: stream_flow_control
  rx :: "(any_relay_msg, 'r, stream_id option) peeker"
  flow_ctrl_waker :: "stream_id option option"

type_synonym 'r rx_next = "(any_relay_msg, 'r, stream_id option) inner_next"

definition ent_new ::
  "('c, 'v) stream_queue \<Rightarrow> 'r \<Rightarrow> stream_flow_control \<Rightarrow> cmd_checker \<Rightarrow> ('c, 'v, 'r) open_stream_ent" where
  "ent_new snk r f c =
     \<lparr>sink = snk, ent_dropped = 0, ent_checker = c, flow_ctrl = f, rx = peeker_new r, flow_ctrl_waker = None\<rparr>"

definition ent_can_send :: "any_relay_msg \<Rightarrow> ('c, 'v, 'r) open_stream_ent \<Rightarrow> bool" where
  "ent_can_send m e = flow_can_send (any_relay_cmd m) (flow_ctrl e)"

abbreviation ent_flow :: "(stream_flow_control, 'a) op \<Rightarrow> (('c, 'v, 'r) open_stream_ent, 'a) op" where
  "ent_flow \<equiv> op_field flow_ctrl (\<lambda>f e. e\<lparr>flow_ctrl := f\<rparr>)"

text \<open>Besides the result, the waker that is woken.\<close>

definition ent_put_for_incoming_sendme ::
  "unparsed_relay_msg \<Rightarrow> (('c, 'v, 'r) open_stream_ent, stream_id option option) op" where
  "ent_put_for_incoming_sendme m =
     op_bind (ent_flow (put_for_incoming_sendme m)) (\<lambda>_ e.
     (Inr (flow_ctrl_waker e), e\<lparr>flow_ctrl_waker := None\<rparr>))"

definition ent_maybe_send_xon :: "xon_kbps_ewma \<Rightarrow> (('c, 'v, 'r) open_stream_ent, xon_msg option) op" where
  "ent_maybe_send_xon rate e = ent_flow (maybe_send_xon rate (approx_stream_bytes (sink e))) e"

definition ent_maybe_send_xoff :: "(('c, 'v, 'r) open_stream_ent, u8 option) op" where
  "ent_maybe_send_xoff e = ent_flow (maybe_send_xoff (approx_stream_bytes (sink e))) e"

definition ent_take_capacity_to_send :: "any_relay_msg \<Rightarrow> (('c, 'v, 'r) open_stream_ent, unit) op" where
  "ent_take_capacity_to_send m = ent_flow (take_capacity_to_send (any_relay_cmd m))"

definition ent_poll_peek ::
  "'r rx_next \<Rightarrow> (stream_id, ('c, 'v, 'r) open_stream_ent, any_relay_msg) stream_poll" where
  "ent_poll_peek n cx e =
     (case poll_peek n cx (rx e) of
        (Ready (Some m), p) \<Rightarrow>
          (let e = e\<lparr>rx := p\<rparr> in
           if \<not> flow_can_send (any_relay_cmd m) (flow_ctrl e)
           then (Pending, e\<lparr>flow_ctrl_waker := Some cx\<rparr>)
           else (Ready (Some m), e))
      | (Ready None, p) \<Rightarrow> (Ready None, e\<lparr>rx := p\<rparr>)
      | (Pending, p) \<Rightarrow> (Pending, e\<lparr>rx := p\<rparr>))"

definition ent_poll_next ::
  "'r rx_next \<Rightarrow> (stream_id, ('c, 'v, 'r) open_stream_ent, any_relay_msg) stream_poll" where
  "ent_poll_next n cx e =
     (case ent_poll_peek n cx e of
        (Pending, e) \<Rightarrow> (Pending, e)
      | (Ready _, e) \<Rightarrow> (case peeker_poll_next n cx (rx e) of (r, p) \<Rightarrow> (r, e\<lparr>rx := p\<rparr>)))"

definition ent_unobtrusive_peek ::
  "'r rx_next \<Rightarrow> ('c, 'v, 'r) open_stream_ent \<Rightarrow>
     any_relay_msg option \<times> stream_id option option \<times> ('c, 'v, 'r) open_stream_ent" where
  "ent_unobtrusive_peek n e =
     (case unobtrusive_peek n (rx e) of
        (None, w, p) \<Rightarrow> (None, w, e\<lparr>rx := p\<rparr>)
      | (Some m, w, p) \<Rightarrow>
          (if flow_can_send (any_relay_cmd m) (flow_ctrl e) then Some m else None, w, e\<lparr>rx := p\<rparr>))"

section \<open>The stream map\<close>

record end_sent_stream_ent =
  half_stream_of :: half_stream
  explicitly_dropped :: bool

datatype closed_stream_ent = EndReceived | EndSent end_sent_stream_ent

datatype ('c, 'v, 'r) stream_ent_mut =
    OpenEnt "('c, 'v, 'r) open_stream_ent"
  | EndReceivedEnt
  | EndSentEnt end_sent_stream_ent

datatype should_send_end = SendEndMsg | DontSendEnd

datatype terminate_reason = StreamTargetClosed | ExplicitEnd

record ('c, 'v, 'r) stream_map =
  open_streams :: "(stream_id, u64, ('c, 'v, 'r) open_stream_ent) poll_set"
  closed_streams :: "(stream_id \<times> closed_stream_ent) list"
  next_stream_id :: stream_id
  next_priority :: u64

text \<open>The first identifier is drawn at random.\<close>

definition sm_new :: "stream_id \<Rightarrow> ('c, 'v, 'r) stream_map" where
  "sm_new first = \<lparr>open_streams = ps_new, closed_streams = [], next_stream_id = first, next_priority = 0\<rparr>"

definition n_open_streams :: "('c, 'v, 'r) stream_map \<Rightarrow> nat" where
  "n_open_streams m = ps_len (open_streams m)"

definition take_next_priority :: "('c, 'v, 'r) stream_map \<Rightarrow> u64 \<times> ('c, 'v, 'r) stream_map" where
  "take_next_priority m = (next_priority m, m\<lparr>next_priority := next_priority m + 1\<rparr>)"

definition wrapping_next_stream_id :: "stream_id \<Rightarrow> stream_id" where
  "wrapping_next_stream_id i = (case checked_add_w i 1 of Some j \<Rightarrow> j | None \<Rightarrow> 1)"

text \<open>
  The loop of \<open>add_ent\<close>, over the insertion of the set of streams: at most \<open>n\<close> identifiers are
  tried, starting with the next one.
\<close>

fun alloc_loop ::
  "(stream_id \<Rightarrow> 's \<Rightarrow> ('o, 's option) op) \<Rightarrow> nat \<Rightarrow> 's \<Rightarrow> ('o \<times> stream_id, stream_id) op" where
  "alloc_loop try_insert 0 ent (opn, nxt) = (Inl IdRangeFull, opn, nxt)"
| "alloc_loop try_insert (Suc n) ent (opn, nxt) =
     (case try_insert nxt ent opn of
        (Inl e, opn) \<Rightarrow> (Inl e, opn, wrapping_next_stream_id nxt)
      | (Inr None, opn) \<Rightarrow> (Inr nxt, opn, wrapping_next_stream_id nxt)
      | (Inr (Some ent), opn) \<Rightarrow> alloc_loop try_insert n ent (opn, wrapping_next_stream_id nxt))"

definition add_ent ::
  "('c, 'v) stream_queue \<Rightarrow> 'r \<Rightarrow> stream_flow_control \<Rightarrow> cmd_checker \<Rightarrow>
     (('c, 'v, 'r) stream_map, stream_id) op" where
  "add_ent snk r f c m =
     (case take_next_priority m of
        (priority, m) \<Rightarrow>
          (case alloc_loop (\<lambda>i. ps_try_insert i priority) 65536 (ent_new snk r f c)
                  (open_streams m, next_stream_id m) of
             (res, opn, nxt) \<Rightarrow> (res, m\<lparr>open_streams := opn, next_stream_id := nxt\<rparr>)))"

definition add_ent_with_id ::
  "('c, 'v) stream_queue \<Rightarrow> 'r \<Rightarrow> stream_flow_control \<Rightarrow> stream_id \<Rightarrow> cmd_checker \<Rightarrow>
     (('c, 'v, 'r) stream_map, unit) op" where
  "add_ent_with_id snk r f i c m =
     (case take_next_priority m of
        (priority, m) \<Rightarrow>
          (case ps_try_insert i priority (ent_new snk r f c) (open_streams m) of
             (Inl e, opn) \<Rightarrow> (Inl e, m\<lparr>open_streams := opn\<rparr>)
           | (Inr None, opn) \<Rightarrow> (Inr (), m\<lparr>open_streams := opn\<rparr>)
           | (Inr (Some _), opn) \<Rightarrow> (Inl (IdUnavailable i), m\<lparr>open_streams := opn\<rparr>)))"

definition sm_get :: "stream_id \<Rightarrow> ('c, 'v, 'r) stream_map \<Rightarrow> ('c, 'v, 'r) stream_ent_mut option" where
  "sm_get i m =
     (case ps_stream i (open_streams m) of
        Some e \<Rightarrow> Some (OpenEnt e)
      | None \<Rightarrow>
          (case map_of (closed_streams m) i of
             Some EndReceived \<Rightarrow> Some EndReceivedEnt
           | Some (EndSent e) \<Rightarrow> Some (EndSentEnt e)
           | None \<Rightarrow> None))"

text \<open>Writing through the references in what \<open>get_mut\<close> returns.\<close>

definition sm_set_open :: "stream_id \<Rightarrow> ('c, 'v, 'r) open_stream_ent \<Rightarrow> ('c, 'v, 'r) stream_map \<Rightarrow> ('c, 'v, 'r) stream_map" where
  "sm_set_open i e m = m\<lparr>open_streams := ps_set_stream i e (open_streams m)\<rparr>"

definition sm_set_end_sent :: "stream_id \<Rightarrow> end_sent_stream_ent \<Rightarrow> ('c, 'v, 'r) stream_map \<Rightarrow> ('c, 'v, 'r) stream_map" where
  "sm_set_end_sent i e m = m\<lparr>closed_streams := AList.update i (EndSent e) (closed_streams m)\<rparr>"

definition ending_msg_received :: "stream_id \<Rightarrow> (('c, 'v, 'r) stream_map, unit) op" where
  "ending_msg_received i m =
     (case ps_remove i (open_streams m) of
        (Inl e, opn) \<Rightarrow> (Inl e, m\<lparr>open_streams := opn\<rparr>)
      | (Inr (Some _), opn) \<Rightarrow>
          (Inr (), m\<lparr>open_streams := opn, closed_streams := AList.update i EndReceived (closed_streams m)\<rparr>)
      | (Inr None, opn) \<Rightarrow>
          (let m = m\<lparr>open_streams := opn\<rparr> in
           case map_of (closed_streams m) i of
             None \<Rightarrow> (Inl (CircProto ''Received END cell on nonexistent stream''), m)
           | Some EndReceived \<Rightarrow> (Inl (CircProto ''Received two END cells on same stream''), m)
           | Some (EndSent _) \<Rightarrow> (Inr (), m\<lparr>closed_streams := AList.delete i (closed_streams m)\<rparr>)))"

abbreviation RECV_WINDOW_INIT :: u16 where "RECV_WINDOW_INIT \<equiv> 500"

definition sm_terminate :: "stream_id \<Rightarrow> terminate_reason \<Rightarrow> (('c, 'v, 'r) stream_map, should_send_end) op" where
  "sm_terminate i why m =
     (case ps_remove i (open_streams m) of
        (Inl e, opn) \<Rightarrow> (Inl e, m\<lparr>open_streams := opn\<rparr>)
      | (Inr (Some (_, _, ent)), opn) \<Rightarrow>
          (let m = m\<lparr>open_streams := opn\<rparr> in
           case decrement_n (ent_dropped ent) RECV_WINDOW_INIT of
             (Inl e, _) \<Rightarrow> (Inl e, m)
           | (Inr _, w) \<Rightarrow>
               (Inr SendEndMsg,
                m\<lparr>closed_streams := AList.update i
                     (EndSent \<lparr>half_stream_of = half_stream_new (flow_ctrl ent) w (ent_checker ent),
                               explicitly_dropped = (why = StreamTargetClosed)\<rparr>) (closed_streams m)\<rparr>))
      | (Inr None, opn) \<Rightarrow>
          (let m = m\<lparr>open_streams := opn\<rparr> in
           case map_of (closed_streams m) i of
             None \<Rightarrow> (Inl (ProtoBug ''Somehow we terminated a nonexistent stream?''), m)
           | Some EndReceived \<Rightarrow>
               (Inr DontSendEnd, m\<lparr>closed_streams := AList.delete i (closed_streams m)\<rparr>)
           | Some (EndSent e) \<Rightarrow>
               (let m = m\<lparr>closed_streams := AList.delete i (closed_streams m)\<rparr> in
                case (explicitly_dropped e, why) of
                  (False, StreamTargetClosed) \<Rightarrow> (Inr DontSendEnd, m)
                | (True, StreamTargetClosed) \<Rightarrow> (Inl (ProtoBug ''Tried to close an already closed stream.''), m)
                | (_, ExplicitEnd) \<Rightarrow> (Inl (ProtoBug ''Tried to end an already closed stream.''), m))))"

text \<open>
  Polling: the set of open streams, then an unobtrusive peek at each ready stream. A waker
  that a peek wakes reports its stream to the set.
\<close>

definition wake_set :: "stream_id option option \<Rightarrow> (stream_id, 'p, 's) poll_set \<Rightarrow> (stream_id, 'p, 's) poll_set" where
  "wake_set w ps = (case w of Some (Some i) \<Rightarrow> ps_wake i ps | _ \<Rightarrow> ps)"

fun peek_ready ::
  "'r rx_next \<Rightarrow> ((u64 \<times> stream_id) \<times> ('c, 'v, 'r) open_stream_ent) list \<Rightarrow>
     (stream_id \<times> any_relay_msg option) list \<times> stream_id option option list \<times>
     ((u64 \<times> stream_id) \<times> ('c, 'v, 'r) open_stream_ent) list" where
  "peek_ready n [] = ([], [], [])"
| "peek_ready n (((p, i), e) # es) =
     (case ent_unobtrusive_peek n e of
        (r, w, e') \<Rightarrow>
          (case peek_ready n es of (rs, ws, es') \<Rightarrow> ((i, r) # rs, w # ws, ((p, i), e') # es')))"

definition poll_ready_streams_iter ::
  "'r rx_next \<Rightarrow> (('c, 'v, 'r) stream_map, (stream_id \<times> any_relay_msg option) list) op" where
  "poll_ready_streams_iter n m =
     (case ps_poll_ready (ent_poll_peek n) (open_streams m) of
        (Inl e, opn) \<Rightarrow> (Inl e, m\<lparr>open_streams := opn\<rparr>)
      | (Inr _, opn) \<Rightarrow>
          (case peek_ready n (ready_streams opn) of
             (rs, ws, ready) \<Rightarrow>
               (Inr rs, m\<lparr>open_streams := fold wake_set ws (opn\<lparr>ready_streams := ready\<rparr>)\<rparr>)))"

definition take_ready_msg :: "'r rx_next \<Rightarrow> stream_id \<Rightarrow> (('c, 'v, 'r) stream_map, any_relay_msg option) op" where
  "take_ready_msg n i m =
     (case take_next_priority m of
        (new_priority, m) \<Rightarrow>
          (case ps_take_ready_value_and_reprioritize (ent_poll_peek n) (ent_poll_next n) i new_priority (open_streams m) of
             (Inl e, opn) \<Rightarrow> (Inl e, m\<lparr>open_streams := opn\<rparr>)
           | (Inr v, opn) \<Rightarrow> (Inr (map_option snd v), m\<lparr>open_streams := opn\<rparr>)))"

section \<open>An open stream can be peeked at\<close>

lemma ent_peek_ready:
  assumes "ent_poll_peek n cx e = (Ready r, e')"
  shows "poll_peek n cx (rx e) = (Ready r, rx e') \<and> e' = e\<lparr>rx := rx e'\<rparr> \<and>
    (\<forall>m. r = Some m \<longrightarrow> ent_can_send m e')"
  using assms by (auto simp: ent_poll_peek_def ent_can_send_def Let_def split: prod.splits poll.splits option.splits if_splits)

lemma ent_peek_stays:
  assumes "ent_poll_peek n cx e = (Ready r, e')"
  shows "ent_poll_peek n cx' e' = (Ready r, e')" "fst (ent_poll_next n cx' e') = Ready r"
    "fst (ent_unobtrusive_peek n e') = r"
proof -
  note f = ent_peek_ready [OF assms]
  note s = peeked_stays [of n cx "rx e" r "rx e'"]
  show p: "ent_poll_peek n cx' e' = (Ready r, e')"
    using f s(1) by (cases r) (auto simp: ent_poll_peek_def ent_can_send_def)
  show "fst (ent_poll_next n cx' e') = Ready r"
    using f s(3) by (simp add: ent_poll_next_def p case_prod_beta)
  show "fst (ent_unobtrusive_peek n e') = r"
    using f s(2) by (cases r) (auto simp: ent_unobtrusive_peek_def ent_can_send_def split: prod.splits option.splits)
qed

interpretation ent_peekable: peekable_stream "ent_poll_peek n" "ent_poll_next n"
  for n :: "'r rx_next"
  by unfold_locales (auto dest: ent_peek_stays)

section \<open>Identifiers of new streams\<close>

abbreviation nth_id :: "stream_id \<Rightarrow> nat \<Rightarrow> stream_id" where
  "nth_id i j \<equiv> (wrapping_next_stream_id ^^ j) i"

lemma wrapping_next_unat:
  "i \<noteq> 0 \<Longrightarrow> wrapping_next_stream_id i \<noteq> 0 \<and>
     unat (wrapping_next_stream_id i) = (if unat i = 65535 then 1 else unat i + 1)"
proof -
  assume i: "i \<noteq> 0"
  have b: "unat i < 65536" using unsigned_less [of i, where ?'a = nat] by simp
  show ?thesis
  proof (cases "unat i = 65535")
    case True
    then show ?thesis by (simp add: wrapping_next_stream_id_def checked_add_w_def)
  next
    case False
    then have "unat i + 1 < 65536" using b by linarith
    then have "unat (i + 1) = unat i + 1" by (simp add: unat_word_ariths)
    then show ?thesis using False \<open>unat i + 1 < 65536\<close>
      by (auto simp: wrapping_next_stream_id_def checked_add_w_def simp flip: unat_0_iff)
  qed
qed

text \<open>The identifiers tried one after the other run through all of \<open>1\<close> to \<open>65535\<close> and around.\<close>

lemma nth_id_unat:
  assumes "i \<noteq> 0"
  shows "nth_id i j \<noteq> 0 \<and> unat (nth_id i j) = (unat i - 1 + j) mod 65535 + 1"
proof (induction j)
  case 0
  have "unat i - 1 < 65535" "0 < unat i"
    using unat_u16_lt [of i] assms by (linarith, simp add: unat_gt_0)
  then show ?case using assms by simp
next
  case (Suc j)
  let ?k = "unat i - 1 + j"
  have "unat (wrapping_next_stream_id (nth_id i j)) =
      (if ?k mod 65535 + 1 = 65535 then 1 else ?k mod 65535 + 2)"
    using wrapping_next_unat [of "nth_id i j"] Suc by simp
  also have "\<dots> = Suc ?k mod 65535 + 1" by (auto simp: mod_Suc)
  finally show ?case using wrapping_next_unat [of "nth_id i j"] Suc by simp
qed

lemma nth_id_covers:
  assumes "i \<noteq> 0" and "k \<noteq> 0"
  shows "\<exists>j < 65535. nth_id i j = k"
proof -
  let ?j = "(unat k + 65535 - unat i) mod 65535"
  have b: "0 < unat i" "0 < unat k" "unat i \<le> 65535" "unat k \<le> 65535"
    using assms unsigned_less [of i, where ?'a = nat] unsigned_less [of k, where ?'a = nat] by (auto simp: unat_gt_0)
  have "(unat i - 1 + ?j) mod 65535 = (unat i - 1 + (unat k + 65535 - unat i)) mod 65535"
    by (simp add: mod_add_right_eq)
  also have "unat i - 1 + (unat k + 65535 - unat i) = (unat k - 1) + 65535" using b by linarith
  finally have "(unat i - 1 + ?j) mod 65535 = (unat k - 1) mod 65535" by simp
  moreover have "unat k - 1 < 65535" using b by linarith
  ultimately have "(unat i - 1 + ?j) mod 65535 = unat k - 1" by simp
  then have "unat (nth_id i ?j) = unat k" using nth_id_unat [OF assms(1), of ?j] b by simp
  then show ?thesis by (intro exI [of _ ?j]) (simp add: word_unat_eq_iff)
qed

text \<open>A set in which entries are stored under identifiers, each used once.\<close>

locale keyed_store =
  fixes store :: "stream_id \<Rightarrow> 's \<Rightarrow> ('o, 's option) op"
    and store_ok :: "'o \<Rightarrow> bool" and in_use :: "'o \<Rightarrow> stream_id \<Rightarrow> bool"
  assumes store_used: "store_ok x \<Longrightarrow> in_use x i \<Longrightarrow> store i s x = (Inr (Some s), x)"
    and store_free: "store_ok x \<Longrightarrow> \<not> in_use x i \<Longrightarrow> \<exists>x'. store i s x = (Inr None, x') \<and> store_ok x'"
begin

lemma alloc_full:
  "store_ok x \<Longrightarrow> (\<forall>j < n. in_use x (nth_id i j)) \<Longrightarrow>
     alloc_loop store n s (x, i) = (Inl IdRangeFull, x, nth_id i n)"
proof (induction n arbitrary: i)
  case (Suc n)
  have "in_use x i" using Suc.prems(2) by (auto dest: spec [of _ 0])
  moreover have "\<forall>j < n. in_use x (nth_id (wrapping_next_stream_id i) j)"
    using Suc.prems(2) by (auto dest: spec [of _ "Suc _"] simp: funpow_swap1)
  ultimately show ?case using Suc by (simp add: store_used funpow_swap1)
qed simp

lemma alloc_first_free:
  "store_ok x \<Longrightarrow> k < n \<Longrightarrow> (\<forall>j < k. in_use x (nth_id i j)) \<Longrightarrow> \<not> in_use x (nth_id i k) \<Longrightarrow>
     \<exists>x'. alloc_loop store n s (x, i) = (Inr (nth_id i k), x', nth_id i (Suc k)) \<and>
          store (nth_id i k) s x = (Inr None, x')"
proof (induction k arbitrary: i n)
  case 0
  then show ?case using store_free [of x i s] by (cases n) auto
next
  case (Suc k)
  obtain n' where n: "n = Suc n'" using Suc.prems(2) by (cases n) auto
  have "in_use x i" using Suc.prems(3) by (auto dest: spec [of _ 0])
  moreover have "\<forall>j < k. in_use x (nth_id (wrapping_next_stream_id i) j)"
    using Suc.prems(3) by (auto dest: spec [of _ "Suc _"] simp: funpow_swap1)
  ultimately show ?case using Suc.IH [of n' "wrapping_next_stream_id i"] Suc.prems n
    by (simp add: store_used funpow_swap1)
qed

lemma alloc_stores:
  "store_ok x \<Longrightarrow> alloc_loop store n s (x, i) = (Inr j, x', i') \<Longrightarrow> store j s x = (Inr None, x')"
proof (induction n arbitrary: i)
  case (Suc n)
  then show ?case
    using store_used [of x i s] store_free [of x i s] by (cases "in_use x i") auto
qed simp

end

interpretation open_set: keyed_store "\<lambda>i. ps_try_insert i p" ps_inv "\<lambda>ps i. ps_abs ps i \<noteq> None"
  for p :: "'p::linorder"
proof unfold_locales
  fix ps :: "(stream_id, 'p, 's) poll_set" and i s
  assume inv: "ps_inv ps"
  show "ps_abs ps i \<noteq> None \<Longrightarrow> ps_try_insert i p s ps = (Inr (Some s), ps)"
    by (cases rule: ps_key_cases [OF inv, of i]) (auto simp: ps_try_insert_def)
  show "\<not> ps_abs ps i \<noteq> None \<Longrightarrow> \<exists>ps'. ps_try_insert i p s ps = (Inr None, ps') \<and> ps_inv ps'"
    using ps_try_insert_ok [OF inv, of i p s] by auto
qed

abbreviation is_open :: "('c, 'v, 'r) stream_map \<Rightarrow> stream_id \<Rightarrow> bool" where
  "is_open m i \<equiv> ps_abs (open_streams m) i \<noteq> None"

definition sm_ok :: "('c, 'v, 'r) stream_map \<Rightarrow> bool" where
  "sm_ok m \<longleftrightarrow> ps_inv (open_streams m) \<and> next_stream_id m \<noteq> 0"

lemma sm_ok_new: "first \<noteq> 0 \<Longrightarrow> sm_ok (sm_new first)"
  by (simp add: sm_ok_def sm_new_def ps_inv_new)

lemma add_ent_full:
  assumes "sm_ok m" and "\<forall>i. i \<noteq> 0 \<longrightarrow> is_open m i"
  shows "\<exists>m'. add_ent snk r f c m = (Inl IdRangeFull, m') \<and> open_streams m' = open_streams m \<and>
    closed_streams m' = closed_streams m \<and> sm_ok m'"
proof -
  have ok: "ps_inv (open_streams m)" "next_stream_id m \<noteq> 0" using assms(1) by (auto simp: sm_ok_def)
  then have "\<forall>j < 65536. is_open m (nth_id (next_stream_id m) j)"
    using assms(2) nth_id_unat by blast
  from open_set.alloc_full [OF ok(1) this, where p = "next_priority m"] show ?thesis
    using nth_id_unat [OF ok(2)] ok(1) by (simp add: add_ent_def take_next_priority_def sm_ok_def)
qed

lemma add_ent_free:
  assumes "sm_ok m" and "k \<noteq> 0" and "\<not> is_open m k"
  shows "\<exists>j m'. add_ent snk r f c m = (Inr (nth_id (next_stream_id m) j), m') \<and>
    \<not> is_open m (nth_id (next_stream_id m) j) \<and> (\<forall>j' < j. is_open m (nth_id (next_stream_id m) j')) \<and>
    ps_abs (open_streams m') = (ps_abs (open_streams m))
      (nth_id (next_stream_id m) j \<mapsto> (next_priority m, ent_new snk r f c)) \<and>
    closed_streams m' = closed_streams m \<and> sm_ok m'"
proof -
  have ok: "ps_inv (open_streams m)" "next_stream_id m \<noteq> 0" using assms(1) by (auto simp: sm_ok_def)
  obtain k' where k': "k' < 65535" "\<not> is_open m (nth_id (next_stream_id m) k')"
    using nth_id_covers [OF ok(2) assms(2)] assms(3) by blast
  define j where "j = (LEAST j. \<not> is_open m (nth_id (next_stream_id m) j))"
  have j: "\<not> is_open m (nth_id (next_stream_id m) j)" "j < 65536" "\<forall>j' < j. is_open m (nth_id (next_stream_id m) j')"
    using LeastI [of "\<lambda>j. \<not> is_open m (nth_id (next_stream_id m) j)", OF k'(2)]
      Least_le [of "\<lambda>j. \<not> is_open m (nth_id (next_stream_id m) j)", OF k'(2)] k'(1)
      not_less_Least [of _ "\<lambda>j. \<not> is_open m (nth_id (next_stream_id m) j)"]
    unfolding j_def by auto
  obtain opn where a: "alloc_loop (\<lambda>i. ps_try_insert i (next_priority m)) 65536 (ent_new snk r f c)
        (open_streams m, next_stream_id m) =
        (Inr (nth_id (next_stream_id m) j), opn, nth_id (next_stream_id m) (Suc j))"
      "ps_try_insert (nth_id (next_stream_id m) j) (next_priority m) (ent_new snk r f c) (open_streams m) = (Inr None, opn)"
    using open_set.alloc_first_free [OF ok(1) j(2) j(3) j(1), where p = "next_priority m" and s = "ent_new snk r f c"]
    by auto
  let ?i = "nth_id (next_stream_id m) j"
  have "ps_inv opn" "ps_abs opn = (ps_abs (open_streams m))(?i \<mapsto> (next_priority m, ent_new snk r f c))"
    using ps_try_insert_ok [OF ok(1), of ?i "next_priority m" "ent_new snk r f c"] a(2) j(1) by auto
  moreover have "nth_id (next_stream_id m) (Suc j) \<noteq> 0" using nth_id_unat [OF ok(2)] by blast
  moreover define m' where "m' = m\<lparr>next_priority := next_priority m + 1, open_streams := opn,
      next_stream_id := nth_id (next_stream_id m) (Suc j)\<rparr>"
  moreover have "add_ent snk r f c m = (Inr ?i, m')"
    using a(1) by (simp add: add_ent_def take_next_priority_def m'_def)
  ultimately show ?thesis using j by (intro exI [of _ j] exI [of _ m']) (simp add: sm_ok_def)
qed

text \<open>C18: the identifier of a new stream. Unless every one of the 65535 identifiers is open, \<open>add_ent\<close>
  gives the new stream the first identifier from the next one on, going around, that is not
  open, records it there as last in line, and changes no other open stream; if all are open it
  fails with \<open>IdRangeFull\<close> and opens nothing.\<close>

theorem add_ent_first_free_id:
  assumes "sm_ok m"
  shows "\<exists>m'. sm_ok m' \<and>
    (if \<forall>i. i \<noteq> 0 \<longrightarrow> is_open m i
     then add_ent snk r f c m = (Inl IdRangeFull, m') \<and> open_streams m' = open_streams m
     else \<exists>j. let i = nth_id (next_stream_id m) j in
       add_ent snk r f c m = (Inr i, m') \<and> \<not> is_open m i \<and> i \<noteq> 0 \<and>
       (\<forall>j' < j. is_open m (nth_id (next_stream_id m) j')) \<and>
       ps_abs (open_streams m') = (ps_abs (open_streams m))(i \<mapsto> (next_priority m, ent_new snk r f c)))"
proof (cases "\<forall>i. i \<noteq> 0 \<longrightarrow> is_open m i")
  case True
  then show ?thesis unfolding if_P [OF True] using add_ent_full [OF assms True] by blast
next
  case False
  then obtain k where "k \<noteq> 0" "\<not> is_open m k" by blast
  moreover have "nth_id (next_stream_id m) j \<noteq> 0" for j
    using nth_id_unat assms by (auto simp: sm_ok_def)
  ultimately show ?thesis
    unfolding if_not_P [OF False] Let_def using add_ent_free [OF assms, of k] by blast
qed

theorem add_ent_first_free_id_witness:
  "\<exists>m' j. add_ent (queue_new ()) () (new_window_based 500) data_checker_new (sm_new 65535 :: (unit, unit, unit) stream_map) =
     (Inr (nth_id 65535 j), m') \<and> \<not> is_open (sm_new 65535 :: (unit, unit, unit) stream_map) (nth_id 65535 j)"
proof -
  let ?m = "sm_new 65535 :: (unit, unit, unit) stream_map"
  have ok: "sm_ok ?m" by (rule sm_ok_new) simp
  have n: "next_stream_id ?m = 65535" by (simp add: sm_new_def)
  have "\<not> is_open ?m 1" by (simp add: sm_new_def ps_inv_new)
  then have f: "\<not> (\<forall>i. i \<noteq> 0 \<longrightarrow> is_open ?m i)" by (auto intro: exI [of _ 1])
  show ?thesis
    using add_ent_first_free_id [OF ok, of "queue_new ()" "()" "new_window_based 500" data_checker_new]
    unfolding if_not_P [OF f] Let_def n by blast
qed

section \<open>The life of a stream\<close>

text \<open>
  What the map records of one identifier: whether a stream is open under it, and how a stream
  was closed under it.
\<close>

datatype closed_state = EndReceivedState | EndSentState bool

fun closed_state_of :: "closed_stream_ent \<Rightarrow> closed_state" where
  "closed_state_of EndReceived = EndReceivedState"
| "closed_state_of (EndSent e) = EndSentState (explicitly_dropped e)"

definition id_state :: "('c, 'v, 'r) stream_map \<Rightarrow> stream_id \<Rightarrow> bool \<times> closed_state option" where
  "id_state m i = (is_open m i, map_option closed_state_of (map_of (closed_streams m) i))"

datatype id_event = OpenedEv | EndMsgEv | TerminatedEv terminate_reason should_send_end | RefusedEv

text \<open>The state machine of an identifier.\<close>

inductive id_step :: "bool \<times> closed_state option \<Rightarrow> id_event \<Rightarrow> bool \<times> closed_state option \<Rightarrow> bool" where
  opened: "id_step (False, c) OpenedEv (True, c)"
| end_open: "id_step (True, c) EndMsgEv (False, Some EndReceivedState)"
| end_sent: "id_step (False, Some (EndSentState b)) EndMsgEv (False, None)"
| term_open: "id_step (True, c) (TerminatedEv why SendEndMsg) (False, Some (EndSentState (why = StreamTargetClosed)))"
| term_received: "id_step (False, Some EndReceivedState) (TerminatedEv why DontSendEnd) (False, None)"
| term_dropped: "id_step (False, Some (EndSentState False)) (TerminatedEv StreamTargetClosed DontSendEnd) (False, None)"
| refused: "id_step s RefusedEv s"
| refused_too_many: "id_step (True, c) RefusedEv (False, c)"
| refused_again: "id_step (False, Some (EndSentState b)) RefusedEv (False, None)"

inductive_cases id_step_cases: "id_step s e s'"

definition same_elsewhere :: "stream_id \<Rightarrow> ('c, 'v, 'r) stream_map \<Rightarrow> ('c, 'v, 'r) stream_map \<Rightarrow> bool" where
  "same_elsewhere i m m' \<longleftrightarrow>
     (\<forall>k. k \<noteq> i \<longrightarrow> ps_abs (open_streams m') k = ps_abs (open_streams m) k \<and>
        map_of (closed_streams m') k = map_of (closed_streams m) k)"

lemma id_state_elsewhere: "same_elsewhere i m m' \<Longrightarrow> k \<noteq> i \<Longrightarrow> id_state m' k = id_state m k"
  by (simp add: same_elsewhere_def id_state_def)

abbreviation is_panic :: "proto_error \<Rightarrow> bool" where
  "is_panic e \<equiv> (\<exists>s. e = Panic s)"

lemma ending_msg_step:
  assumes "sm_ok m" and "ending_msg_received i m = (r, m')"
  shows "sm_ok m' \<and> same_elsewhere i m m' \<and>
    id_step (id_state m i) (case r of Inl _ \<Rightarrow> RefusedEv | Inr _ \<Rightarrow> EndMsgEv) (id_state m' i) \<and>
    (\<forall>e. r = Inl e \<longrightarrow> \<not> is_panic e)"
proof -
  have inv: "ps_inv (open_streams m)" and nz: "next_stream_id m \<noteq> 0" using assms(1) by (auto simp: sm_ok_def)
  obtain opn where o: "ps_remove i (open_streams m) = (Inr (map_option (Pair i) (ps_abs (open_streams m) i)), opn)"
      "ps_inv opn" "ps_abs opn = (ps_abs (open_streams m))(i := None)"
    using ps_remove_ok [OF inv, of i] by blast
  then show ?thesis using assms(2) nz
    by (cases "ps_abs (open_streams m) i"; cases "map_of (closed_streams m) i")
      (auto simp: ending_msg_received_def id_state_def sm_ok_def same_elsewhere_def Let_def alist_simps
        split: closed_stream_ent.splits intro: id_step.intros)
qed

lemma terminate_step:
  assumes "sm_ok m" and "sm_terminate i why m = (r, m')"
  shows "sm_ok m' \<and> same_elsewhere i m m' \<and>
    id_step (id_state m i) (case r of Inl _ \<Rightarrow> RefusedEv | Inr a \<Rightarrow> TerminatedEv why a) (id_state m' i) \<and>
    (\<forall>e. r = Inl e \<longrightarrow> \<not> is_panic e)"
proof -
  have inv: "ps_inv (open_streams m)" and nz: "next_stream_id m \<noteq> 0" using assms(1) by (auto simp: sm_ok_def)
  obtain opn where o: "ps_remove i (open_streams m) = (Inr (map_option (Pair i) (ps_abs (open_streams m) i)), opn)"
      "ps_inv opn" "ps_abs opn = (ps_abs (open_streams m))(i := None)"
    using ps_remove_ok [OF inv, of i] by blast
  show ?thesis
  proof (cases "ps_abs (open_streams m) i")
    case None
    then show ?thesis using assms(2) nz o
      by (cases "map_of (closed_streams m) i")
        (auto simp: sm_terminate_def id_state_def sm_ok_def same_elsewhere_def Let_def alist_simps
          split: closed_stream_ent.splits bool.splits terminate_reason.splits intro: id_step.intros)
  next
    case (Some pe)
    then show ?thesis using assms(2) nz o
      by (cases pe) (auto simp: sm_terminate_def decrement_n_def id_state_def sm_ok_def same_elsewhere_def Let_def alist_simps
          split: option.splits sum.splits prod.splits intro: id_step.intros)
  qed
qed

lemma add_ent_with_id_step:
  assumes "sm_ok m" and "add_ent_with_id snk r f i c m = (res, m')"
  shows "sm_ok m' \<and> same_elsewhere i m m' \<and> closed_streams m' = closed_streams m \<and>
    id_step (id_state m i) (case res of Inl _ \<Rightarrow> RefusedEv | Inr _ \<Rightarrow> OpenedEv) (id_state m' i) \<and>
    (\<forall>e. res = Inl e \<longrightarrow> \<not> is_panic e)"
proof -
  have inv: "ps_inv (open_streams m)" and nz: "next_stream_id m \<noteq> 0" using assms(1) by (auto simp: sm_ok_def)
  show ?thesis using ps_try_insert_ok [OF inv, of i "next_priority m" "ent_new snk r f c"] assms(2) nz
    by (cases "ps_abs (open_streams m) i")
      (auto simp: add_ent_with_id_def take_next_priority_def id_state_def sm_ok_def same_elsewhere_def
        id_step.opened id_step.refused)
qed

lemma add_ent_step:
  assumes "sm_ok m" and "add_ent snk r f c m = (res, m')"
  shows "sm_ok m' \<and> closed_streams m' = closed_streams m \<and>
    (case res of
       Inl e \<Rightarrow> e = IdRangeFull \<and> open_streams m' = open_streams m
     | Inr i \<Rightarrow> same_elsewhere i m m' \<and> id_step (id_state m i) OpenedEv (id_state m' i))"
proof (cases "\<forall>i. i \<noteq> 0 \<longrightarrow> is_open m i")
  case True
  then show ?thesis using add_ent_full [OF assms(1) True, of snk r f c] assms(2) by auto
next
  case False
  then obtain k where "k \<noteq> 0" "\<not> is_open m k" by blast
  from add_ent_free [OF assms(1) this, of snk r f c] show ?thesis using assms(2)
    by (auto simp: same_elsewhere_def id_state_def id_step.opened)
qed

lemma id_state_new: "id_state (sm_new first) k = (False, None)"
  by (simp add: id_state_def sm_new_def ps_inv_new)

text \<open>A history of a map: the operations on it, and what happened to each identifier.\<close>

datatype ('c, 'v, 'r) map_event =
    MapAdd "('c, 'v) stream_queue" 'r stream_flow_control cmd_checker
  | MapAddWithId "('c, 'v) stream_queue" 'r stream_flow_control stream_id cmd_checker
  | MapEnd stream_id
  | MapTerminate stream_id terminate_reason

definition map_step :: "('c, 'v, 'r) map_event \<Rightarrow> (('c, 'v, 'r) stream_map, (stream_id \<times> id_event) list) op" where
  "map_step ev m =
     (case ev of
        MapAdd snk r f c \<Rightarrow>
          (case add_ent snk r f c m of
             (Inr i, m') \<Rightarrow> (Inr [(i, OpenedEv)], m')
           | (Inl (Panic e), m') \<Rightarrow> (Inl (Panic e), m')
           | (Inl _, m') \<Rightarrow> (Inr [], m'))
      | MapAddWithId snk r f i c \<Rightarrow>
          (case add_ent_with_id snk r f i c m of
             (Inr _, m') \<Rightarrow> (Inr [(i, OpenedEv)], m')
           | (Inl (Panic e), m') \<Rightarrow> (Inl (Panic e), m')
           | (Inl _, m') \<Rightarrow> (Inr [(i, RefusedEv)], m'))
      | MapEnd i \<Rightarrow>
          (case ending_msg_received i m of
             (Inr _, m') \<Rightarrow> (Inr [(i, EndMsgEv)], m')
           | (Inl (Panic e), m') \<Rightarrow> (Inl (Panic e), m')
           | (Inl _, m') \<Rightarrow> (Inr [(i, RefusedEv)], m'))
      | MapTerminate i why \<Rightarrow>
          (case sm_terminate i why m of
             (Inr a, m') \<Rightarrow> (Inr [(i, TerminatedEv why a)], m')
           | (Inl (Panic e), m') \<Rightarrow> (Inl (Panic e), m')
           | (Inl _, m') \<Rightarrow> (Inr [(i, RefusedEv)], m')))"

fun map_run :: "('c, 'v, 'r) map_event list \<Rightarrow> (('c, 'v, 'r) stream_map, (stream_id \<times> id_event) list) op" where
  "map_run [] = op_ret []"
| "map_run (ev # evs) = op_bind (map_step ev) (\<lambda>tr. op_bind (map_run evs) (\<lambda>tr'. op_ret (tr @ tr')))"

fun id_path :: "bool \<times> closed_state option \<Rightarrow> id_event list \<Rightarrow> bool \<times> closed_state option \<Rightarrow> bool" where
  "id_path s [] s' \<longleftrightarrow> s = s'"
| "id_path s (e # es) s' \<longleftrightarrow> (\<exists>s1. id_step s e s1 \<and> id_path s1 es s')"

abbreviation events_on :: "stream_id \<Rightarrow> (stream_id \<times> id_event) list \<Rightarrow> id_event list" where
  "events_on i tr \<equiv> map snd (filter (\<lambda>e. fst e = i) tr)"

lemma id_path_append: "id_path s es s1 \<Longrightarrow> id_path s1 es' s' \<Longrightarrow> id_path s (es @ es') s'"
  by (induction es arbitrary: s) auto

lemma one_id_path:
  assumes "same_elsewhere i m m'" and "id_step (id_state m i) e (id_state m' i)"
  shows "id_path (id_state m k) (events_on k [(i, e)]) (id_state m' k)"
  using assms id_state_elsewhere [OF assms(1), of k] by (cases "k = i"; cases "id_state m' i") auto

lemma map_step_path:
  assumes "sm_ok m"
  shows "\<exists>tr m'. map_step ev m = (Inr tr, m') \<and> sm_ok m' \<and> (\<forall>k. id_path (id_state m k) (events_on k tr) (id_state m' k))"
proof (cases ev)
  case (MapAdd snk r f c)
  obtain res m' where a: "add_ent snk r f c m = (res, m')" by fastforce
  note st = add_ent_step [OF assms a]
  show ?thesis
  proof (cases res)
    case (Inl e)
    then have "map_step ev m = (Inr [], m')" "\<forall>k. id_state m' k = id_state m k"
      using st a MapAdd by (auto simp: map_step_def id_state_def)
    then show ?thesis using st by auto
  next
    case (Inr i)
    then have "map_step ev m = (Inr [(i, OpenedEv)], m')" using a MapAdd by (simp add: map_step_def)
    moreover have "same_elsewhere i m m'" "id_step (id_state m i) OpenedEv (id_state m' i)"
      using st Inr by auto
    ultimately show ?thesis using st one_id_path by blast
  qed
next
  case (MapAddWithId snk r f i c)
  obtain res m' where a: "add_ent_with_id snk r f i c m = (res, m')" by fastforce
  note st = add_ent_with_id_step [OF assms a]
  have "\<exists>e. map_step ev m = (Inr [(i, e)], m') \<and> id_step (id_state m i) e (id_state m' i)"
    using st a MapAddWithId by (auto simp: map_step_def split: sum.splits proto_error.splits)
  then show ?thesis using st one_id_path by blast
next
  case (MapEnd i)
  obtain res m' where a: "ending_msg_received i m = (res, m')" by fastforce
  note st = ending_msg_step [OF assms a]
  have "\<exists>e. map_step ev m = (Inr [(i, e)], m') \<and> id_step (id_state m i) e (id_state m' i)"
    using st a MapEnd by (auto simp: map_step_def split: sum.splits proto_error.splits)
  then show ?thesis using st one_id_path by blast
next
  case (MapTerminate i why)
  obtain res m' where a: "sm_terminate i why m = (res, m')" by fastforce
  note st = terminate_step [OF assms a]
  have "\<exists>e. map_step ev m = (Inr [(i, e)], m') \<and> id_step (id_state m i) e (id_state m' i)"
    using st a MapTerminate by (auto simp: map_step_def split: sum.splits proto_error.splits)
  then show ?thesis using st one_id_path by blast
qed

lemma map_run_path:
  "sm_ok m \<Longrightarrow> \<exists>tr m'. map_run evs m = (Inr tr, m') \<and> sm_ok m' \<and>
     (\<forall>k. id_path (id_state m k) (events_on k tr) (id_state m' k))"
proof (induction evs arbitrary: m)
  case (Cons ev evs)
  obtain tr m1 where s: "map_step ev m = (Inr tr, m1)" "sm_ok m1"
      "\<forall>k. id_path (id_state m k) (events_on k tr) (id_state m1 k)"
    using map_step_path [OF Cons.prems] by blast
  obtain tr' m' where r: "map_run evs m1 = (Inr tr', m')" "sm_ok m'"
      "\<forall>k. id_path (id_state m1 k) (events_on k tr') (id_state m' k)"
    using Cons.IH [OF s(2)] by blast
  show ?case using s r by (auto simp: op_bind_def op_ret_def intro: id_path_append)
qed (simp add: op_ret_def)

text \<open>C16: the life of every stream follows the state machine. Whatever sequence of openings, END
  messages and terminations a map goes through, nothing panics, and for each identifier the
  events on it are a path of \<open>id_step\<close> from the unused state to the state the map records: an
  END moves an open stream to end-received and forgets one we ended, a termination sends END
  exactly when the stream was open, and what happens to one identifier never affects another.\<close>

theorem stream_life:
  assumes "first \<noteq> 0"
  shows "\<exists>tr m. map_run evs (sm_new first) = (Inr tr, m) \<and>
    (\<forall>k. id_path (False, None) (events_on k tr) (id_state m k))"
  using map_run_path [OF sm_ok_new [OF assms], of evs] unfolding id_state_new by blast

theorem stream_life_witness:
  "\<exists>tr m. map_run [MapAddWithId (queue_new ()) () (new_window_based 500) 5 data_checker_new, MapEnd 5]
       (sm_new 7 :: (unit, unit, unit) stream_map) = (Inr tr, m) \<and>
     (\<forall>k. id_path (False, None) (events_on k tr) (id_state m k))"
  by (rule stream_life) simp

text \<open>C39: an identifier can be reused too early. \<open>add_ent\<close> looks only at the open streams, so it can hand
  out the identifier of a stream that we ended and whose END has not arrived yet. The map then
  holds that identifier as open and closed at once, against the invariant it documents, and the
  END of the old stream closes the new one.\<close>

theorem closed_id_reused:
  assumes "sm_ok m" and "\<not> is_open m (next_stream_id m)"
    and "map_of (closed_streams m) (next_stream_id m) = Some (EndSent old)"
  shows "\<exists>m' m''. add_ent snk r f c m = (Inr (next_stream_id m), m') \<and>
    is_open m' (next_stream_id m) \<and> map_of (closed_streams m') (next_stream_id m) = Some (EndSent old) \<and>
    ending_msg_received (next_stream_id m) m' = (Inr (), m'') \<and> \<not> is_open m'' (next_stream_id m)"
proof -
  let ?i = "next_stream_id m"
  have nz: "?i \<noteq> 0" using assms(1) by (simp add: sm_ok_def)
  obtain j m' where a: "add_ent snk r f c m = (Inr (nth_id ?i j), m')" "\<not> is_open m (nth_id ?i j)"
      "\<forall>j' < j. is_open m (nth_id ?i j')"
      "ps_abs (open_streams m') = (ps_abs (open_streams m))(nth_id ?i j \<mapsto> (next_priority m, ent_new snk r f c))"
      "closed_streams m' = closed_streams m" "sm_ok m'"
    using add_ent_free [OF assms(1) nz assms(2)] by blast
  have "j = 0" using a(3) assms(2) by (cases j) auto
  have "ps_inv (open_streams m')" using a(6) by (simp add: sm_ok_def)
  from ps_remove_ok [OF this, of ?i] show ?thesis using a assms(3) \<open>j = 0\<close>
    by (auto simp: ending_msg_received_def)
qed

theorem closed_id_reused_witness:
  "\<exists>m m' m'' old. snd (map_run [MapAddWithId (queue_new ()) () (new_window_based 500) 5 data_checker_new, MapTerminate 5 ExplicitEnd]
       (sm_new 5 :: (unit, unit, unit) stream_map)) = m \<and> next_stream_id m = 5 \<and>
     add_ent (queue_new ()) () (new_window_based 500) data_checker_new m = (Inr 5, m') \<and>
     is_open m' 5 \<and> map_of (closed_streams m') 5 = Some (EndSent old) \<and>
     ending_msg_received 5 m' = (Inr (), m'') \<and> \<not> is_open m'' 5"
proof -
  let ?evs = "[MapAddWithId (queue_new ()) () (new_window_based 500) 5 data_checker_new, MapTerminate 5 ExplicitEnd]"
  let ?old = "\<lparr>half_stream_of = half_stream_new (new_window_based 500) 500 data_checker_new, explicitly_dropped = False\<rparr>"
  let ?m = "\<lparr>open_streams = \<lparr>priorities = [], ready_streams = [], pending_streams = \<lparr>notified = [5], futures = []\<rparr>\<rparr>,
      closed_streams = [(5, EndSent ?old)], next_stream_id = 5, next_priority = 1\<rparr> :: (unit, unit, unit) stream_map"
  have r: "snd (map_run ?evs (sm_new 5 :: (unit, unit, unit) stream_map)) = ?m"
    by (simp add: op_bind_def op_ret_def map_step_def add_ent_with_id_def take_next_priority_def sm_new_def
        ps_try_insert_def ps_new_def kfu_new_def kfu_try_insert_def kfu_wake_def sm_terminate_def ps_remove_def
        kfu_remove_def ent_new_def decrement_n_def checked_sub_w_def Let_def)
  have "sm_ok ?m" by (simp add: sm_ok_def ps_inv_def key_ok_def)
  moreover have "\<not> is_open ?m (next_stream_id ?m)" by (simp add: ps_abs_def)
  ultimately show ?thesis
    using closed_id_reused [of ?m ?old "queue_new ()" "()" "new_window_based 500" data_checker_new] unfolding r by auto
qed

end
