(* ===== verification/Client_Crypt.thy ===== *)
theory Client_Crypt
  imports Sendme
begin

text \<open>
  Layered encryption of relay cells (\<open>tor-proto/src/crypto/cell.rs\<close>). A client keeps one
  cryptographic layer per hop and direction. The methods of a layer work on the body of a cell
  in place, so they are operations on the pair of the body and the layer. The contract that two
  ends of a layer promise each other is the locale \<open>onion_layer\<close>, in which the delivery of a
  cell through any number of layers is proved once; the theories of the two encryption
  algorithms interpret it.
\<close>

section \<open>Cells and layers\<close>

type_synonym hop_num = u8
type_synonym relay_cell_body = bytes
type_synonym ('l, 'a) layer_op = "(relay_cell_body \<times> 'l, 'a) op"

text \<open>Writing bytes over a part of a cell.\<close>

definition splice :: "nat \<Rightarrow> bytes \<Rightarrow> bytes \<Rightarrow> bytes" where
  "splice pos xs cell = take pos cell @ xs @ drop (pos + length xs) cell"

text \<open>An operation on one layer of a list.\<close>

definition on_layer :: "nat \<Rightarrow> ('l, 'a) layer_op \<Rightarrow> ('l list, 'a) layer_op" where
  "on_layer i m s = (case s of (cell, layers) \<Rightarrow>
     (case m (cell, layers ! i) of (r, cell, l) \<Rightarrow> (r, cell, layers[i := l])))"

section \<open>Sending: \<open>OutboundClientCrypt\<close>\<close>

fun encrypt_rest :: "('l, unit) layer_op \<Rightarrow> nat \<Rightarrow> ('l list, unit) layer_op" where
  "encrypt_rest enc 0 = op_ret ()"
| "encrypt_rest enc (Suc i) = op_bind (on_layer i enc) (\<lambda>_. encrypt_rest enc i)"

definition client_encrypt ::
  "('l, sendme_tag) layer_op \<Rightarrow> ('l, unit) layer_op \<Rightarrow> hop_num \<Rightarrow> ('l list, sendme_tag) layer_op" where
  "client_encrypt orig enc hop s =
     (if unat hop \<ge> length (snd s) then (Inl NoSuchHop, s)
      else op_bind (on_layer (unat hop) orig) (\<lambda>tag.
           op_bind (encrypt_rest enc (unat hop)) (\<lambda>_.
           op_ret tag)) s)"

definition add_layer :: "'l \<Rightarrow> ('l list, unit) op" where
  "add_layer layer layers =
     (if length layers < 255 then (Inr (), layers @ [layer])
      else (Inl (Panic ''assertion failed: self.layers.len() < u8::MAX as usize''), layers))"

section \<open>Receiving: \<open>InboundClientCrypt\<close>\<close>

fun decrypt_loop :: "('l, sendme_tag option) layer_op \<Rightarrow> nat list \<Rightarrow> ('l list, hop_num \<times> sendme_tag) layer_op" where
  "decrypt_loop dec [] = op_fail BadCellAuth"
| "decrypt_loop dec (i # is) =
     op_bind (on_layer i dec) (\<lambda>tag.
       case tag of
         Some tag \<Rightarrow> if i < 256 then op_ret (of_nat i, tag) else op_fail (Panic ''Somehow > 255 hops'')
       | None \<Rightarrow> decrypt_loop dec is)"

definition client_decrypt :: "('l, sendme_tag option) layer_op \<Rightarrow> ('l list, hop_num \<times> sendme_tag) layer_op" where
  "client_decrypt dec s = decrypt_loop dec [0..<length (snd s)] s"

section \<open>Layers in a row\<close>

text \<open>The layers \<open>is\<close> do not recognize the cell; what they leave.\<close>

fun quiet_run :: "('l, sendme_tag option) layer_op \<Rightarrow> nat list \<Rightarrow> relay_cell_body \<times> 'l list \<Rightarrow> (relay_cell_body \<times> 'l list) option" where
  "quiet_run dec [] s = Some s"
| "quiet_run dec (i # is) s =
     (case on_layer i dec s of (Inr None, s') \<Rightarrow> quiet_run dec is s' | _ \<Rightarrow> None)"

lemma quiet_run_append:
  "quiet_run dec (is @ js) s = (case quiet_run dec is s of Some s' \<Rightarrow> quiet_run dec js s' | None \<Rightarrow> None)"
  by (induction "is" arbitrary: s) (auto split: prod.splits sum.splits option.splits)

lemma decrypt_loop_quiet:
  "quiet_run dec is s = Some s' \<Longrightarrow> decrypt_loop dec (is @ js) s = decrypt_loop dec js s'"
  by (induction "is" arbitrary: s) (auto simp: op_bind_def split: prod.splits sum.splits option.splits)

lemma on_layer_eq:
  "m (cell, layers ! i) = (r, cell', l) \<Longrightarrow> on_layer i m (cell, layers) = (r, cell', layers[i := l])"
  by (simp add: on_layer_def)

text \<open>
  The first \<open>n\<close> layers take a cell back to \<open>plain\<close> without recognizing it, and stay in step
  with \<open>cs\<close>; or one of them takes it.
\<close>

definition undone :: "('r, sendme_tag option) layer_op \<Rightarrow> ('c \<Rightarrow> 'r \<Rightarrow> bool) \<Rightarrow> nat \<Rightarrow> relay_cell_body \<Rightarrow> 'c list \<Rightarrow>
    relay_cell_body \<Rightarrow> 'r list \<Rightarrow> 'r list \<Rightarrow> bool" where
  "undone dec sync n plain cs cell rs rs' \<longleftrightarrow>
     quiet_run dec [0..<n] (cell, rs) = Some (plain, rs') \<and> length rs' = length rs \<and>
     (\<forall>i < n. sync (cs ! i) (rs' ! i)) \<and> (\<forall>i. n \<le> i \<longrightarrow> rs' ! i = rs ! i)"

definition caught :: "('r, sendme_tag option) layer_op \<Rightarrow> nat \<Rightarrow> relay_cell_body \<Rightarrow> 'r list \<Rightarrow> bool" where
  "caught dec n cell rs \<longleftrightarrow>
     (\<exists>j < n. \<exists>t s. \<forall>js. decrypt_loop dec ([0..<n] @ js) (cell, rs) = (Inr (of_nat j, t), s))"

lemma caught_Suc: "caught dec n cell rs \<Longrightarrow> caught dec (Suc n) cell rs"
  unfolding caught_def
proof (elim exE conjE)
  fix j t s assume j: "j < n" and d: "\<forall>js. decrypt_loop dec ([0..<n] @ js) (cell, rs) = (Inr (of_nat j, t), s)"
  have "decrypt_loop dec ([0..<Suc n] @ js) (cell, rs) = (Inr (of_nat j, t), s)" for js
    using d [rule_format, of "n # js"] by simp
  then show "\<exists>j<Suc n. \<exists>t s. \<forall>js. decrypt_loop dec ([0..<Suc n] @ js) (cell, rs) = (Inr (of_nat j, t), s)"
    using j less_SucI by blast
qed

lemma undone_layer:
  assumes u: "undone dec sync n c1 cs cell rs rs'" and d: "dec (c1, rs ! n) = (Inr a, plain, r1)"
    and n: "n < length rs" "n < 256" and s: "a = None \<Longrightarrow> sync (cs ! n) r1"
  shows "(a = None \<and> undone dec sync (Suc n) plain cs cell rs (rs'[n := r1])) \<or> caught dec (Suc n) cell rs"
proof -
  have q: "quiet_run dec [0..<n] (cell, rs) = Some (c1, rs')" "length rs' = length rs"
      "\<forall>i < n. sync (cs ! i) (rs' ! i)" "\<forall>i. n \<le> i \<longrightarrow> rs' ! i = rs ! i"
    using u unfolding undone_def by blast+
  have o: "on_layer n dec (c1, rs') = (Inr a, plain, rs'[n := r1])"
    using on_layer_eq [of dec c1 rs' n] q(4) d by simp
  show ?thesis
  proof (cases a)
    case None
    have "quiet_run dec [0..<Suc n] (cell, rs) = Some (plain, rs'[n := r1])"
      using q(1) o None by (simp add: quiet_run_append)
    moreover have "\<forall>i < Suc n. sync (cs ! i) (rs'[n := r1] ! i)"
      using q(2,3) s [OF None] n(1) by (auto simp: less_Suc_eq nth_list_update)
    moreover have "\<forall>i. Suc n \<le> i \<longrightarrow> rs'[n := r1] ! i = rs ! i" using q(4) by auto
    ultimately show ?thesis using None q(2) unfolding undone_def by simp
  next
    case (Some t)
    have "decrypt_loop dec ([0..<Suc n] @ js) (cell, rs) = (Inr (of_nat n, t), plain, rs'[n := r1])" for js
      using decrypt_loop_quiet [OF q(1), of "n # js"] o Some n(2) by (simp add: op_bind_def op_ret_def)
    then show ?thesis unfolding caught_def by blast
  qed
qed

text \<open>
  One layer between two ends. The sending end seals a cell that it originates and wraps one
  that passes through; the other end unwraps both and learns whether the cell was for it.
  \<open>sync\<close> relates the states of the two ends, and \<open>carried\<close> is the part of a cell that the
  layer does not use for itself.
\<close>

locale onion_layer =
  fixes orig :: "u8 \<Rightarrow> ('c, sendme_tag) layer_op"
    and enc :: "u8 \<Rightarrow> ('c, unit) layer_op"
    and dec :: "u8 \<Rightarrow> ('r, sendme_tag option) layer_op"
    and sync :: "'c \<Rightarrow> 'r \<Rightarrow> bool"
    and carried :: "'c \<Rightarrow> relay_cell_body \<Rightarrow> bytes"
  assumes orig_dec: "sync c r \<Longrightarrow> length cell = 509 \<Longrightarrow>
      \<exists>tag cell' c' plain r'. orig cmd (cell, c) = (Inr tag, cell', c') \<and> length cell' = 509 \<and>
        dec cmd (cell', r) = (Inr (Some tag), plain, r') \<and> length plain = 509 \<and>
        carried c plain = carried c cell \<and> sync c' r'"
    and enc_dec: "sync c r \<Longrightarrow> length cell = 509 \<Longrightarrow>
      \<exists>cell' c' a r'. enc cmd (cell, c) = (Inr (), cell', c') \<and> length cell' = 509 \<and>
        dec cmd (cell', r) = (Inr a, cell, r') \<and> (a = None \<longrightarrow> sync c' r')"
begin

lemma encrypt_rest_undone:
  assumes "length cs = length rs" "n \<le> length cs" "n \<le> 256" "\<forall>i < n. sync (cs ! i) (rs ! i)" "length cell = 509"
  shows "\<exists>cell' cs'. encrypt_rest (enc cmd) n (cell, cs) = (Inr (), cell', cs') \<and> length cell' = 509 \<and>
    length cs' = length cs \<and> (\<forall>i. n \<le> i \<longrightarrow> cs' ! i = cs ! i) \<and>
    ((\<exists>rs'. undone (dec cmd) sync n cell cs' cell' rs rs') \<or> caught (dec cmd) n cell' rs)"
  using assms
proof (induction n arbitrary: cell cs)
  case 0
  then show ?case by (simp add: op_ret_def undone_def)
next
  case (Suc n)
  obtain c1 l1 a r1 where 1: "enc cmd (cell, cs ! n) = (Inr (), c1, l1)" "length c1 = 509"
      "dec cmd (c1, rs ! n) = (Inr a, cell, r1)" "a = None \<longrightarrow> sync l1 r1"
    using enc_dec [of "cs ! n" "rs ! n" cell cmd] Suc.prems(4,5) by blast
  define cs1 where "cs1 = cs[n := l1]"
  have p: "length cs1 = length rs" "n \<le> length cs1" "n \<le> 256" "\<forall>i < n. sync (cs1 ! i) (rs ! i)"
    using Suc.prems(1-4) by (auto simp: cs1_def)
  obtain c2 cs2 where 2: "encrypt_rest (enc cmd) n (c1, cs1) = (Inr (), c2, cs2)"
      "length c2 = 509" "length cs2 = length cs1" "\<forall>i. n \<le> i \<longrightarrow> cs2 ! i = cs1 ! i"
      and 3: "(\<exists>rs'. undone (dec cmd) sync n c1 cs2 c2 rs rs') \<or> caught (dec cmd) n c2 rs"
    using Suc.IH [OF p 1(2)] by (elim exE conjE)
  have e: "encrypt_rest (enc cmd) (Suc n) (cell, cs) = (Inr (), c2, cs2)"
    using 2(1) 1(1) by (simp add: op_bind_def on_layer_def cs1_def)
  have k: "\<forall>i. Suc n \<le> i \<longrightarrow> cs2 ! i = cs ! i" "cs2 ! n = l1" "length cs2 = length cs"
    using 2(3,4) Suc.prems(2) by (auto simp: cs1_def)
  from 3 have "(\<exists>rs'. undone (dec cmd) sync (Suc n) cell cs2 c2 rs rs') \<or> caught (dec cmd) (Suc n) c2 rs"
  proof
    assume "\<exists>rs'. undone (dec cmd) sync n c1 cs2 c2 rs rs'"
    then obtain rs' where u: "undone (dec cmd) sync n c1 cs2 c2 rs rs'" by blast
    show ?thesis using undone_layer [OF u 1(3)] 1(4) k(2) Suc.prems(1-3) by auto
  qed (blast dest: caught_Suc)
  with e k(1,3) 2(2) show ?case by blast
qed

text \<open>
  A cell for the hop \<open>hop\<close> is recognized by that hop or by one before it. In the first case
  the tags of both ends agree, the hop reads what was sent, and all layers stay in step.
\<close>

lemma onion_delivers:
  assumes "list_all2 sync cs rs" "unat hop < length cs" "length cell = 509"
  shows "\<exists>tag cell' cs' j t plain rs'.
    client_encrypt (orig cmd) (enc cmd) hop (cell, cs) = (Inr tag, cell', cs') \<and> length cell' = 509 \<and>
    client_decrypt (dec cmd) (cell', rs) = (Inr (j, t), plain, rs') \<and> j \<le> hop \<and>
    (j = hop \<longrightarrow> t = tag \<and> length plain = 509 \<and> carried (cs ! unat hop) plain = carried (cs ! unat hop) cell \<and>
       list_all2 sync cs' rs')"
proof -
  define n where "n = unat hop"
  have n: "n < length cs" "n < 256" "of_nat n = hop" and len: "length cs = length rs"
    and s: "\<And>i. i < length cs \<Longrightarrow> sync (cs ! i) (rs ! i)"
    using assms(1,2) by (auto simp: n_def list_all2_conv_all_nth)
  obtain tag c1 l1 plain r1 where 1: "orig cmd (cell, cs ! n) = (Inr tag, c1, l1)" "length c1 = 509"
      "dec cmd (c1, rs ! n) = (Inr (Some tag), plain, r1)" "length plain = 509"
      "carried (cs ! n) plain = carried (cs ! n) cell" "sync l1 r1"
    using orig_dec [OF s [OF n(1)] assms(3)] by blast
  define cs1 where "cs1 = cs[n := l1]"
  have p: "length cs1 = length rs" "n \<le> length cs1" "n \<le> 256" "\<forall>i < n. sync (cs1 ! i) (rs ! i)"
    using n s len by (auto simp: cs1_def)
  obtain c2 cs2 where 2: "encrypt_rest (enc cmd) n (c1, cs1) = (Inr (), c2, cs2)"
      "length c2 = 509" "length cs2 = length cs1" "\<forall>i. n \<le> i \<longrightarrow> cs2 ! i = cs1 ! i"
      and 3: "(\<exists>rs'. undone (dec cmd) sync n c1 cs2 c2 rs rs') \<or> caught (dec cmd) n c2 rs"
    using encrypt_rest_undone [OF p 1(2), of cmd] by (elim exE conjE)
  have e: "client_encrypt (orig cmd) (enc cmd) hop (cell, cs) = (Inr tag, c2, cs2)"
    using 2(1) 1(1) n(1) by (simp add: client_encrypt_def on_layer_def op_bind_def op_ret_def cs1_def n_def)
  have split: "[0..<length rs] = [0..<n] @ n # [Suc n..<length rs]"
    using n(1) len upt_add_eq_append [of 0 n "length rs - n"] by (simp add: upt_conv_Cons)
  from 3 show ?thesis
  proof
    assume "\<exists>rs'. undone (dec cmd) sync n c1 cs2 c2 rs rs'"
    then obtain rs' where q: "quiet_run (dec cmd) [0..<n] (c2, rs) = Some (c1, rs')" "length rs' = length rs"
      "\<forall>i < n. sync (cs2 ! i) (rs' ! i)" "\<forall>i. n \<le> i \<longrightarrow> rs' ! i = rs ! i"
      unfolding undone_def by blast
    have "on_layer n (dec cmd) (c1, rs') = (Inr (Some tag), plain, rs'[n := r1])"
      using on_layer_eq [of "dec cmd" c1 rs' n] q(4) 1(3) by simp
    then have d: "client_decrypt (dec cmd) (c2, rs) = (Inr (hop, tag), plain, rs'[n := r1])"
      using decrypt_loop_quiet [OF q(1), of "n # [Suc n..<length rs]"] n
      by (simp add: client_decrypt_def split op_bind_def op_ret_def)
    have "list_all2 sync cs2 (rs'[n := r1])"
      unfolding list_all2_conv_all_nth
    proof (intro conjI allI impI)
      show "length cs2 = length (rs'[n := r1])" using 2(3) q(2) len by (simp add: cs1_def)
      fix i assume i: "i < length cs2"
      consider "i < n" | "i = n" | "n < i" by linarith
      then show "sync (cs2 ! i) (rs'[n := r1] ! i)"
      proof cases
        case 2
        then show ?thesis using 1(6) \<open>\<forall>i. n \<le> i \<longrightarrow> cs2 ! i = cs1 ! i\<close> n(1) q(2) len by (simp add: cs1_def)
      next
        case 3
        then show ?thesis using s [of i] i \<open>length cs2 = length cs1\<close> \<open>\<forall>i. n \<le> i \<longrightarrow> cs2 ! i = cs1 ! i\<close> q(4)
          by (simp add: cs1_def)
      qed (use q(3) in simp)
    qed
    with e d 1(4,5) 2(2) show ?thesis unfolding n_def by blast
  next
    assume "caught (dec cmd) n c2 rs"
    then obtain j t st where j0: "j < n" "\<And>js. decrypt_loop (dec cmd) ([0..<n] @ js) (c2, rs) = (Inr (of_nat j, t), st)"
      unfolding caught_def by blast
    obtain pl rs' where "st = (pl, rs')" by (cases st)
    note j = j0 [unfolded this]
    have "unat (of_nat j :: u8) = j" using j(1) n(2) by (simp add: unat_of_nat)
    then have "(of_nat j :: u8) < hop" using j(1) by (simp add: word_less_nat_alt n_def)
    moreover have "client_decrypt (dec cmd) (c2, rs) = (Inr (of_nat j, t), pl, rs')"
      using j(2) [of "n # [Suc n..<length rs]"] by (simp add: client_decrypt_def split)
    ultimately show ?thesis using e 2(2) less_imp_le by blast
  qed
qed

end

lemma client_encrypt_no_such_hop: "length (snd s) \<le> unat hop \<Longrightarrow> client_encrypt orig enc hop s = (Inl NoSuchHop, s)"
  by (simp add: client_encrypt_def)

end
