(* ===== verification/Crypt_Tor1.thy ===== *)
theory Crypt_Tor1
  imports Client_Crypt
begin

text \<open>
  The original relay encryption (\<open>tor-proto/src/crypto/cell/tor1.rs\<close>): a stream cipher over the
  whole cell, and a running digest whose first bytes authenticate a cell to its hop. The stream
  cipher, the digest and the constant-time comparison come from other crates and are the
  parameter \<open>tor1_lib\<close>; what is assumed of them is \<open>tor1_laws\<close>.
\<close>

section \<open>Parameters\<close>

record ('sc, 'd) tor1_lib =
  sc_new :: "bytes \<Rightarrow> 'sc"
  apply_keystream :: "'sc \<Rightarrow> bytes \<Rightarrow> bytes \<times> 'sc"
  d_new :: 'd
  d_update :: "'d \<Rightarrow> bytes \<Rightarrow> 'd"
  d_finalize :: "'d \<Rightarrow> bytes"
  sc_key_size :: nat
  d_output_size :: nat
  ct_eq :: "bytes \<Rightarrow> bytes \<Rightarrow> bool"

text \<open>
  Applying the keystream twice from the same position gives back the data; a digest may be fed
  in pieces; its output is long enough to be a SENDME tag; \<open>ct_eq\<close> is equality.
\<close>

definition tor1_laws :: "('sc, 'd) tor1_lib \<Rightarrow> bool" where
  "tor1_laws L \<longleftrightarrow>
     (\<forall>s xs. length (fst (apply_keystream L s xs)) = length xs) \<and>
     (\<forall>s xs. apply_keystream L s (fst (apply_keystream L s xs)) = (xs, snd (apply_keystream L s xs))) \<and>
     (\<forall>d xs ys. d_update L (d_update L d xs) ys = d_update L d (xs @ ys)) \<and>
     (\<forall>d. length (d_finalize L d) = d_output_size L) \<and> 20 \<le> d_output_size L \<and>
     (\<forall>xs ys. ct_eq L xs ys \<longleftrightarrow> xs = ys)"

section \<open>Constant-time utilities\<close>

definition ct_is_zero :: "bytes \<Rightarrow> bool" where
  "ct_is_zero x = fold (\<and>) (map (\<lambda>b. b = 0) x) True"

lemma ct_is_zero_iff: "ct_is_zero x \<longleftrightarrow> (\<forall>b \<in> set x. b = 0)"
proof -
  have "fold (\<and>) (map (\<lambda>b. b = 0) x) acc \<longleftrightarrow> acc \<and> (\<forall>b \<in> set x. b = 0)" for acc
    by (induction x arbitrary: acc) auto
  then show ?thesis by (simp add: ct_is_zero_def)
qed

section \<open>State\<close>

abbreviation SENDME_TAG_LEN :: nat where "SENDME_TAG_LEN \<equiv> 20"
abbreviation CIRC_BINDING_LEN :: nat where "CIRC_BINDING_LEN \<equiv> 20"

record ('sc, 'd) crypt_state =
  cipher :: 'sc
  digest :: 'd
  last_sendme_tag :: sendme_tag

type_synonym circuit_binding = bytes

record ('sc, 'd) crypt_state_pair =
  fwd :: "('sc, 'd) crypt_state"
  bwd :: "('sc, 'd) crypt_state"
  binding :: circuit_binding

definition circuit_binding_try_from :: "bytes \<Rightarrow> proto_error + circuit_binding" where
  "circuit_binding_try_from value = (if length value = CIRC_BINDING_LEN then Inr value else Inl InvalidKDFOutputLength)"

definition tor1_seed_len :: "('sc, 'd) tor1_lib \<Rightarrow> nat" where
  "tor1_seed_len L = sc_key_size L * 2 + d_output_size L * 2 + CIRC_BINDING_LEN"

definition take_seed :: "nat \<Rightarrow> bytes \<Rightarrow> bytes \<times> bytes" where
  "take_seed n seed = (take n seed, drop n seed)"

definition crypt_state_new :: "('sc, 'd) tor1_lib \<Rightarrow> bytes \<Rightarrow> bytes \<Rightarrow> ('sc, 'd) crypt_state" where
  "crypt_state_new L k d = \<lparr>cipher = sc_new L k, digest = d_update L (d_new L) d,
     last_sendme_tag = sendme_tag_from20 (replicate SENDME_TAG_LEN 0)\<rparr>"

definition tor1_initialize :: "('sc, 'd) tor1_lib \<Rightarrow> bytes \<Rightarrow> proto_error + ('sc, 'd) crypt_state_pair" where
  "tor1_initialize L seed =
     (if length seed \<noteq> tor1_seed_len L then Inl (ProtoBug ''seed length was invalid'')
      else
        (let dlen = d_output_size L;
             keylen = sc_key_size L;
             (df, seed) = take_seed dlen seed;
             (db, seed) = take_seed dlen seed;
             (kf, seed) = take_seed keylen seed;
             (kb, seed) = take_seed keylen seed;
             (binding_key, seed) = take_seed CIRC_BINDING_LEN seed in
         res_bind (circuit_binding_try_from binding_key) (\<lambda>binding.
         Inr \<lparr>fwd = crypt_state_new L kf df, bwd = crypt_state_new L kb db, binding = binding\<rparr>)))"

section \<open>Digests in cells\<close>

definition recognized_field :: "relay_cell_body \<Rightarrow> bytes" where
  "recognized_field cell = take 2 (drop 1 cell)"

definition digest_field :: "relay_cell_body \<Rightarrow> bytes" where
  "digest_field cell = take 4 (drop 5 cell)"

text \<open>The tag of a digest, and the panics of making one from too short a digest.\<close>

definition tag_of_digest :: "string \<Rightarrow> bytes \<Rightarrow> proto_error + sendme_tag" where
  "tag_of_digest why computed =
     (if length computed < SENDME_TAG_LEN then Inl (Panic ''range end index out of range'')
      else case sendme_tag_try_from (take SENDME_TAG_LEN computed) of
             None \<Rightarrow> Inl (Panic why)
           | Some t \<Rightarrow> Inr t)"

definition set_digest :: "('sc, 'd) tor1_lib \<Rightarrow> (('sc, 'd) crypt_state, unit) layer_op" where
  "set_digest L s = (case s of (cell, st) \<Rightarrow>
     (let cell = splice 5 (replicate 4 0) (splice 1 (replicate 2 0) cell);
          st = st\<lparr>digest := d_update L (digest st) cell\<rparr>;
          computed_digest = d_finalize L (digest st) in
      case tag_of_digest ''Somehow produced a SENDME tag of invalid length!'' computed_digest of
        Inl e \<Rightarrow> (Inl e, cell, st)
      | Inr t \<Rightarrow> (Inr (), splice 5 (take 4 computed_digest) cell, st\<lparr>last_sendme_tag := t\<rparr>)))"

definition is_recognized :: "('sc, 'd) tor1_lib \<Rightarrow> (('sc, 'd) crypt_state, bool) layer_op" where
  "is_recognized L s = (case s of (cell, st) \<Rightarrow>
     (if \<not> ct_is_zero (recognized_field cell) then (Inr False, s)
      else
        (let dtmp = d_update L (digest st) (take 5 cell);
             dtmp = d_update L dtmp (replicate 4 0);
             dtmp = d_update L dtmp (drop 9 cell);
             result = d_finalize L dtmp in
         if ct_eq L (digest_field cell) (take 4 result)
         then (case tag_of_digest ''Somehow generated a sendme tag of invalid length!'' result of
                 Inl e \<Rightarrow> (Inl e, cell, st\<lparr>digest := dtmp\<rparr>)
               | Inr t \<Rightarrow> (Inr True, cell, st\<lparr>digest := dtmp, last_sendme_tag := t\<rparr>))
         else (Inr False, s))))"

section \<open>The four roles of a layer\<close>

text \<open>Client and relay do the same; each role is an \<open>impl\<close> of its own in the source.\<close>

definition tor1_keystream :: "('sc, 'd) tor1_lib \<Rightarrow> (('sc, 'd) crypt_state, unit) layer_op" where
  "tor1_keystream L s = (case s of (cell, st) \<Rightarrow>
     (case apply_keystream L (cipher st) cell of (cell, c) \<Rightarrow> (Inr (), cell, st\<lparr>cipher := c\<rparr>)))"

definition tor1_encrypt_outbound :: "('sc, 'd) tor1_lib \<Rightarrow> u8 \<Rightarrow> (('sc, 'd) crypt_state, unit) layer_op" where
  "tor1_encrypt_outbound L cmd = tor1_keystream L"

definition tor1_originate_for :: "('sc, 'd) tor1_lib \<Rightarrow> u8 \<Rightarrow> (('sc, 'd) crypt_state, sendme_tag) layer_op" where
  "tor1_originate_for L cmd =
     op_bind (set_digest L) (\<lambda>_.
     op_bind (tor1_encrypt_outbound L cmd) (\<lambda>_ s.
     (Inr (last_sendme_tag (snd s)), s)))"

definition tor1_decrypt_outbound :: "('sc, 'd) tor1_lib \<Rightarrow> u8 \<Rightarrow> (('sc, 'd) crypt_state, sendme_tag option) layer_op" where
  "tor1_decrypt_outbound L cmd =
     op_bind (tor1_keystream L) (\<lambda>_.
     op_bind (is_recognized L) (\<lambda>b s.
     (Inr (if b then Some (last_sendme_tag (snd s)) else None), s)))"

definition tor1_encrypt_inbound :: "('sc, 'd) tor1_lib \<Rightarrow> u8 \<Rightarrow> (('sc, 'd) crypt_state, unit) layer_op" where
  "tor1_encrypt_inbound L cmd = tor1_keystream L"

definition tor1_originate :: "('sc, 'd) tor1_lib \<Rightarrow> u8 \<Rightarrow> (('sc, 'd) crypt_state, sendme_tag) layer_op" where
  "tor1_originate L cmd =
     op_bind (set_digest L) (\<lambda>_.
     op_bind (tor1_encrypt_inbound L cmd) (\<lambda>_ s.
     (Inr (last_sendme_tag (snd s)), s)))"

definition tor1_decrypt_inbound :: "('sc, 'd) tor1_lib \<Rightarrow> u8 \<Rightarrow> (('sc, 'd) crypt_state, sendme_tag option) layer_op" where
  "tor1_decrypt_inbound L cmd =
     op_bind (tor1_keystream L) (\<lambda>_.
     op_bind (is_recognized L) (\<lambda>b s.
     (Inr (if b then Some (last_sendme_tag (snd s)) else None), s)))"

definition tor1_split_client_layer :: "('sc, 'd) crypt_state_pair \<Rightarrow> ('sc, 'd) crypt_state \<times> ('sc, 'd) crypt_state \<times> circuit_binding" where
  "tor1_split_client_layer p = (fwd p, bwd p, binding p)"

definition tor1_split_relay_layer :: "('sc, 'd) crypt_state_pair \<Rightarrow> ('sc, 'd) crypt_state \<times> ('sc, 'd) crypt_state \<times> circuit_binding" where
  "tor1_split_relay_layer p = (fwd p, bwd p, binding p)"

section \<open>Both ends of a layer agree\<close>

definition tor1_sync :: "('sc, 'd) tor1_lib \<Rightarrow> ('sc, 'd) crypt_state \<Rightarrow> ('sc, 'd) crypt_state \<Rightarrow> bool" where
  "tor1_sync L c r \<longleftrightarrow> tor1_laws L \<and> cipher c = cipher r \<and> digest c = digest r"

text \<open>The command, the stream identifier, the length and the message.\<close>

abbreviation tor1_carried :: "relay_cell_body \<Rightarrow> bytes" where
  "tor1_carried \<equiv> body_fields FmtV0"

lemma splice_length [simp]: "pos + length xs \<le> length cell \<Longrightarrow> length (splice pos xs cell) = length cell"
  by (simp add: splice_def)

lemma tor1_lawsD:
  assumes "tor1_laws L"
  shows "length (fst (apply_keystream L s xs)) = length xs"
    and "apply_keystream L s (fst (apply_keystream L s xs)) = (xs, snd (apply_keystream L s xs))"
    and "d_update L (d_update L d xs) ys = d_update L d (xs @ ys)"
    and "length (d_finalize L d) = d_output_size L" and "20 \<le> d_output_size L"
    and "ct_eq L xs ys \<longleftrightarrow> xs = ys"
  using assms by (simp_all add: tor1_laws_def)

text \<open>The keystream of one end is undone by that of the other.\<close>

lemma keystream_undone:
  assumes "tor1_laws L" "cipher c = cipher r" "tor1_keystream L (cell, c) = (u, cell', c')"
  shows "u = Inr () \<and> length cell' = length cell \<and> c' = c\<lparr>cipher := cipher c'\<rparr> \<and>
    tor1_keystream L (cell', r) = (Inr (), cell, r\<lparr>cipher := cipher c'\<rparr>)"
proof -
  define k where "k = apply_keystream L (cipher c) cell"
  have e: "u = Inr ()" "cell' = fst k" "c' = c\<lparr>cipher := snd k\<rparr>"
    using assms(3) by (auto simp: tor1_keystream_def k_def split: prod.splits)
  have "apply_keystream L (cipher r) (fst k) = (cell, snd k)" "length (fst k) = length cell"
    using tor1_lawsD(1,2) [OF assms(1)] assms(2) by (simp_all add: k_def)
  then show ?thesis using e by (simp add: tor1_keystream_def)
qed

lemma sealed_recognized:
  assumes "tor1_laws L" "length cell = 509"
  shows "\<exists>plain d t. set_digest L (cell, c) = (Inr (), plain, c\<lparr>digest := d, last_sendme_tag := t\<rparr>) \<and>
    length plain = 509 \<and> tor1_carried plain = tor1_carried cell \<and>
    (\<forall>r. digest r = digest c \<longrightarrow>
       is_recognized L (plain, r) = (Inr True, plain, r\<lparr>digest := d, last_sendme_tag := t\<rparr>))"
proof -
  obtain a f b g rest where p: "cell = a @ f @ b @ g @ rest" "length a = 1" "length f = 2" "length b = 2" "length g = 4"
    using cell_parts [OF assms(2)] .
  define cell0 where "cell0 = a @ [0, 0] @ b @ [0, 0, 0, 0] @ rest"
  define d where "d = d_update L (digest c) cell0"
  define res where "res = d_finalize L d"
  have res: "20 \<le> length res" using tor1_lawsD(4,5) [OF assms(1)] by (simp add: res_def)
  define t where "t = sendme_tag_from20 (take 20 res)"
  have t: "tag_of_digest why res = Inr t" for why
    using res by (simp add: tag_of_digest_def sendme_tag_try_from_def t_def)
  define plain where "plain = a @ [0, 0] @ b @ take 4 res @ rest"
  have "splice 5 (replicate 4 0) (splice 1 (replicate 2 0) cell) = cell0"
    using p by (simp add: splice_def cell0_def numeral_eq_Suc)
  moreover have "splice 5 (take 4 res) cell0 = plain" using p res by (simp add: splice_def cell0_def plain_def)
  ultimately have s: "set_digest L (cell, c) = (Inr (), plain, c\<lparr>digest := d, last_sendme_tag := t\<rparr>)"
    using t by (simp add: set_digest_def Let_def d_def res_def)
  have fields: "recognized_field plain = [0, 0]" "digest_field plain = take 4 res" "take 5 plain @ replicate 4 0 @ drop 9 plain = cell0"
    using p res by (simp_all add: recognized_field_def digest_field_def plain_def cell0_def numeral_eq_Suc)
  have "d_update L (d_update L (d_update L (digest c) (take 5 plain)) (replicate 4 0)) (drop 9 plain) = d"
    using tor1_lawsD(3) [OF assms(1)] fields(3) by (simp add: d_def)
  then have "digest r = digest c \<longrightarrow> is_recognized L (plain, r) = (Inr True, plain, r\<lparr>digest := d, last_sendme_tag := t\<rparr>)" for r
    using t fields(1,2) tor1_lawsD(6) [OF assms(1)] by (simp add: is_recognized_def Let_def res_def ct_is_zero_iff)
  moreover have "length plain = 509" "tor1_carried plain = tor1_carried cell"
    using p assms(2) res by (simp_all add: plain_def body_fields_def)
  ultimately show ?thesis using s by blast
qed

lemma is_recognized_outcome:
  assumes "tor1_laws L"
  shows "\<exists>b r'. is_recognized L (cell, r) = (Inr b, cell, r') \<and> (\<not> b \<longrightarrow> r' = r)"
proof -
  have "length (d_finalize L d) \<ge> 20" for d using tor1_lawsD(4,5) [OF assms] by simp
  then have t: "\<exists>t. tag_of_digest why (d_finalize L d) = Inr t" for why d
    by (simp add: tag_of_digest_def sendme_tag_try_from_def not_less)
  define d where "d = d_update L (d_update L (d_update L (digest r) (take 5 cell)) (replicate 4 0)) (drop 9 cell)"
  obtain tg where "tag_of_digest ''Somehow generated a sendme tag of invalid length!'' (d_finalize L d) = Inr tg" using t by blast
  then show ?thesis by (auto simp: is_recognized_def Let_def d_def)
qed

lemma tor1_contract_orig:
  assumes "tor1_sync L c r" "length cell = 509"
  shows "\<exists>tag cell' c' plain r'. tor1_originate_for L cmd (cell, c) = (Inr tag, cell', c') \<and> length cell' = 509 \<and>
    tor1_decrypt_outbound L cmd (cell', r) = (Inr (Some tag), plain, r') \<and> length plain = 509 \<and>
    tor1_carried plain = tor1_carried cell \<and> tor1_sync L c' r'"
proof -
  have l: "tor1_laws L" "cipher c = cipher r" "digest c = digest r" using assms(1) by (auto simp: tor1_sync_def)
  obtain plain d t where s: "set_digest L (cell, c) = (Inr (), plain, c\<lparr>digest := d, last_sendme_tag := t\<rparr>)"
      "length plain = 509" "tor1_carried plain = tor1_carried cell"
    and rec: "\<And>r. digest r = digest c \<Longrightarrow> is_recognized L (plain, r) = (Inr True, plain, r\<lparr>digest := d, last_sendme_tag := t\<rparr>)"
    using sealed_recognized [OF l(1) assms(2), of c] by blast
  obtain u cell' c' where k: "tor1_keystream L (plain, c\<lparr>digest := d, last_sendme_tag := t\<rparr>) = (u, cell', c')"
    by (cases "tor1_keystream L (plain, c\<lparr>digest := d, last_sendme_tag := t\<rparr>)")
  from keystream_undone [OF l(1) _ k, of r] l(2) have u: "u = Inr ()" "length cell' = 509"
    "c' = c\<lparr>digest := d, last_sendme_tag := t, cipher := cipher c'\<rparr>"
    "tor1_keystream L (cell', r) = (Inr (), plain, r\<lparr>cipher := cipher c'\<rparr>)" using s(2) by simp_all
  have "tor1_originate_for L cmd (cell, c) = (Inr (last_sendme_tag c'), cell', c')"
    using s(1) k u(1) by (simp add: tor1_originate_for_def tor1_encrypt_outbound_def op_bind_def)
  moreover have "last_sendme_tag c' = t" "digest c' = d" using u(3) by (metis crypt_state.select_convs(2,3) crypt_state.surjective crypt_state.update_convs)+
  moreover have "tor1_decrypt_outbound L cmd (cell', r) = (Inr (Some t), plain, r\<lparr>cipher := cipher c', digest := d, last_sendme_tag := t\<rparr>)"
    using u(4) rec [of "r\<lparr>cipher := cipher c'\<rparr>"] l(3) by (simp add: tor1_decrypt_outbound_def op_bind_def)
  ultimately show ?thesis using u(2) s(2,3) l(1) by (simp add: tor1_sync_def)
qed

lemma tor1_contract_enc:
  assumes "tor1_sync L c r" "length cell = 509"
  shows "\<exists>cell' c' a r'. tor1_encrypt_outbound L cmd (cell, c) = (Inr (), cell', c') \<and> length cell' = 509 \<and>
    tor1_decrypt_outbound L cmd (cell', r) = (Inr a, cell, r') \<and> (a = None \<longrightarrow> tor1_sync L c' r')"
proof -
  have l: "tor1_laws L" "cipher c = cipher r" "digest c = digest r" using assms(1) by (auto simp: tor1_sync_def)
  obtain u cell' c' where k: "tor1_keystream L (cell, c) = (u, cell', c')" by (cases "tor1_keystream L (cell, c)")
  note u = keystream_undone [OF l(1,2) k]
  obtain b r' where b: "is_recognized L (cell, r\<lparr>cipher := cipher c'\<rparr>) = (Inr b, cell, r')"
      "\<not> b \<longrightarrow> r' = r\<lparr>cipher := cipher c'\<rparr>"
    using is_recognized_outcome [OF l(1)] by blast
  have "digest c' = digest c" using u by (metis crypt_state.select_convs(2) crypt_state.surjective crypt_state.update_convs(1))
  then show ?thesis using k u b l assms(2)
    by (auto simp: tor1_encrypt_outbound_def tor1_decrypt_outbound_def op_bind_def tor1_sync_def)
qed

lemma tor1_inbound_same:
  "tor1_originate = tor1_originate_for" "tor1_encrypt_inbound = tor1_encrypt_outbound"
  "tor1_decrypt_inbound = tor1_decrypt_outbound"
  by (simp_all add: fun_eq_iff tor1_originate_def tor1_originate_for_def tor1_encrypt_inbound_def tor1_encrypt_outbound_def
      tor1_decrypt_inbound_def tor1_decrypt_outbound_def)

interpretation tor1_outbound: onion_layer "tor1_originate_for L" "tor1_encrypt_outbound L" "tor1_decrypt_outbound L"
  "tor1_sync L" "\<lambda>_. tor1_carried" for L :: "('sc, 'd) tor1_lib"
  by unfold_locales (fact tor1_contract_orig, fact tor1_contract_enc)

interpretation tor1_inbound: onion_layer "tor1_originate L" "tor1_encrypt_inbound L" "tor1_decrypt_inbound L"
  "tor1_sync L" "\<lambda>_. tor1_carried" for L :: "('sc, 'd) tor1_lib"
  unfolding tor1_inbound_same by (fact tor1_outbound.onion_layer_axioms)

lemma tor1_initialize_outcome:
  "tor1_initialize L seed =
     (if length seed = tor1_seed_len L
      then Inr \<lparr>fwd = crypt_state_new L (take (sc_key_size L) (drop (d_output_size L + d_output_size L) seed)) (take (d_output_size L) seed),
                bwd = crypt_state_new L (take (sc_key_size L) (drop (d_output_size L + d_output_size L + sc_key_size L) seed))
                       (take (d_output_size L) (drop (d_output_size L) seed)),
                binding = drop (d_output_size L + d_output_size L + sc_key_size L + sc_key_size L) seed\<rparr>
      else Inl (ProtoBug ''seed length was invalid''))"
  by (simp add: tor1_initialize_def Let_def take_seed_def circuit_binding_try_from_def tor1_seed_len_def ac_simps)

end
