(* ===== verification/Crypt_Cgo.thy ===== *)
theory Crypt_Cgo
  imports Crypt_Tor1
begin

text \<open>
  Counter Galois Onion (\<open>tor-proto/src/crypto/cell/cgo.rs\<close>): the UIV+ wide-block cipher built
  from a block cipher, a universal hash and a counter-mode stream, and the relay encryption
  that uses it, in which the client decrypts where a relay encrypts and keys are replaced after
  every cell. The block ciphers, POLYVAL and counter mode are the parameter \<open>cgo_lib\<close>, with
  \<open>cgo_laws\<close> the only assumptions on them.
\<close>

section \<open>Parameters\<close>

record ('eb, 'pb, 'pv, 'st) cgo_lib =
  et_new :: "bytes \<Rightarrow> 'eb"
  encrypt_block :: "'eb \<Rightarrow> bytes \<Rightarrow> bytes"
  decrypt_block :: "'eb \<Rightarrow> bytes \<Rightarrow> bytes"
  et_key_size :: nat
  prf_new :: "bytes \<Rightarrow> 'pb"
  prf_key_size :: nat
  pv_new :: "bytes \<Rightarrow> 'pv"
  pv_update :: "'pv \<Rightarrow> bytes list \<Rightarrow> 'pv"
  pv_update_padded :: "'pv \<Rightarrow> bytes \<Rightarrow> 'pv"
  pv_finalize :: "'pv \<Rightarrow> bytes"
  ctr_from_core :: "'pb \<Rightarrow> bytes \<Rightarrow> 'st"
  ctr_seek :: "'st \<Rightarrow> nat \<Rightarrow> 'st"
  ctr_apply_keystream :: "'st \<Rightarrow> bytes \<Rightarrow> bytes \<times> 'st"
  cgo_ct_eq :: "bytes \<Rightarrow> bytes \<Rightarrow> bool"

abbreviation POLYVAL_KEY_SIZE :: nat where "POLYVAL_KEY_SIZE \<equiv> 16"

text \<open>
  The block cipher is a permutation of 16-byte blocks, a hash is a block, and applying the same
  keystream twice gives back the data.
\<close>

definition cgo_laws :: "('eb, 'pb, 'pv, 'st) cgo_lib \<Rightarrow> bool" where
  "cgo_laws L \<longleftrightarrow>
     (\<forall>k b. length b = 16 \<longrightarrow> length (encrypt_block L k b) = 16 \<and> decrypt_block L k (encrypt_block L k b) = b) \<and>
     (\<forall>k b. length b = 16 \<longrightarrow> length (decrypt_block L k b) = 16 \<and> encrypt_block L k (decrypt_block L k b) = b) \<and>
     (\<forall>h. length (pv_finalize L h) = 16) \<and>
     (\<forall>s xs. length (fst (ctr_apply_keystream L s xs)) = length xs) \<and>
     (\<forall>s xs. fst (ctr_apply_keystream L s (fst (ctr_apply_keystream L s xs))) = xs) \<and>
     (\<forall>xs ys. cgo_ct_eq L xs ys \<longleftrightarrow> xs = ys)"

abbreviation CGO_TAG_LEN :: nat where "CGO_TAG_LEN \<equiv> 16"
abbreviation BLK_LEN :: nat where "BLK_LEN \<equiv> 16"
abbreviation PRF_N1_OFFSET :: nat where "PRF_N1_OFFSET \<equiv> 496"

definition xor_into :: "bytes \<Rightarrow> bytes \<Rightarrow> bytes" where
  "xor_into output input = map2 (\<lambda>x y. x XOR y) output input"

definition first_block :: "bytes \<Rightarrow> bytes" where
  "first_block bs = take BLK_LEN bs"

section \<open>The tweakable block cipher\<close>

record ('eb, 'pv) et_cipher =
  et_kb :: 'eb
  et_ku :: 'pv

type_synonym et_tweak = "bytes \<times> u8 \<times> bytes"

definition compute_tweak_hash :: "('eb, 'pb, 'pv, 'st) cgo_lib \<Rightarrow> ('eb, 'pv) et_cipher \<Rightarrow> et_tweak \<Rightarrow> bytes" where
  "compute_tweak_hash L e tweak = (case tweak of (t0, t1, t2) \<Rightarrow>
     (let block1 = t1 # take 15 t2;
          ku = pv_update L (et_ku e) [t0, block1];
          ku = pv_update_padded L ku (drop 15 t2) in
      pv_finalize L ku))"

definition et_encrypt :: "('eb, 'pb, 'pv, 'st) cgo_lib \<Rightarrow> ('eb, 'pv) et_cipher \<Rightarrow> et_tweak \<Rightarrow> bytes \<Rightarrow> bytes" where
  "et_encrypt L e tweak block =
     (let tag = compute_tweak_hash L e tweak in
      xor_into (encrypt_block L (et_kb e) (xor_into block tag)) tag)"

definition et_decrypt :: "('eb, 'pb, 'pv, 'st) cgo_lib \<Rightarrow> ('eb, 'pv) et_cipher \<Rightarrow> et_tweak \<Rightarrow> bytes \<Rightarrow> bytes" where
  "et_decrypt L e tweak block =
     (let tag = compute_tweak_hash L e tweak in
      xor_into (decrypt_block L (et_kb e) (xor_into block tag)) tag)"

definition et_seed_len :: "('eb, 'pb, 'pv, 'st) cgo_lib \<Rightarrow> nat" where
  "et_seed_len L = et_key_size L + POLYVAL_KEY_SIZE"

definition et_initialize :: "('eb, 'pb, 'pv, 'st) cgo_lib \<Rightarrow> bytes \<Rightarrow> proto_error + ('eb, 'pv) et_cipher" where
  "et_initialize L seed =
     (if length seed \<noteq> et_seed_len L then Inl (ProtoBug ''Invalid seed length'')
      else Inr \<lparr>et_kb = et_new L (take (et_key_size L) seed), et_ku = pv_new L (drop (et_key_size L) seed)\<rparr>)"

section \<open>The tweakable stream generator\<close>

record ('pb, 'pv) prf_keys =
  prf_k :: 'pb
  prf_b :: 'pv

definition prf_cipher :: "('eb, 'pb, 'pv, 'st) cgo_lib \<Rightarrow> ('pb, 'pv) prf_keys \<Rightarrow> bytes \<Rightarrow> bool \<Rightarrow> 'st" where
  "prf_cipher L p tweak t =
     (let b = pv_update L (prf_b p) [tweak];
          iv = pv_finalize L b;
          iv = butlast iv @ [last iv AND 0xC0];
          cipher = ctr_from_core L (prf_k p) iv in
      if t then ctr_seek L cipher PRF_N1_OFFSET else cipher)"

definition xor_n0_stream :: "('eb, 'pb, 'pv, 'st) cgo_lib \<Rightarrow> ('pb, 'pv) prf_keys \<Rightarrow> bytes \<Rightarrow> bytes \<Rightarrow> bytes" where
  "xor_n0_stream L p tweak out = fst (ctr_apply_keystream L (prf_cipher L p tweak False) out)"

definition get_n1_stream :: "('eb, 'pb, 'pv, 'st) cgo_lib \<Rightarrow> ('pb, 'pv) prf_keys \<Rightarrow> bytes \<Rightarrow> nat \<Rightarrow> bytes" where
  "get_n1_stream L p tweak n = fst (ctr_apply_keystream L (prf_cipher L p tweak True) (replicate n 0))"

definition prf_seed_len :: "('eb, 'pb, 'pv, 'st) cgo_lib \<Rightarrow> nat" where
  "prf_seed_len L = prf_key_size L + POLYVAL_KEY_SIZE"

definition prf_initialize :: "('eb, 'pb, 'pv, 'st) cgo_lib \<Rightarrow> bytes \<Rightarrow> proto_error + ('pb, 'pv) prf_keys" where
  "prf_initialize L seed =
     (if length seed \<noteq> prf_seed_len L then Inl (ProtoBug ''Invalid seed length'')
      else Inr \<lparr>prf_k = prf_new L (take (prf_key_size L) seed), prf_b = pv_new L (drop (prf_key_size L) seed)\<rparr>)"

section \<open>The wide-block cipher UIV+\<close>

record ('eb, 'pb, 'pv) uiv =
  uiv_j :: "('eb, 'pv) et_cipher"
  uiv_s :: "('pb, 'pv) prf_keys"

type_synonym uiv_tweak = "bytes \<times> u8"

definition uiv_split :: "relay_cell_body \<Rightarrow> bytes \<times> bytes" where
  "uiv_split cell_body = (take CGO_TAG_LEN cell_body, drop CGO_TAG_LEN cell_body)"

definition uiv_encrypt :: "('eb, 'pb, 'pv, 'st) cgo_lib \<Rightarrow> ('eb, 'pb, 'pv) uiv \<Rightarrow> uiv_tweak \<Rightarrow> relay_cell_body \<Rightarrow> relay_cell_body" where
  "uiv_encrypt L u tweak cell_body =
     (let (left, right) = uiv_split cell_body;
          left = et_encrypt L (uiv_j u) (fst tweak, snd tweak, right) left;
          right = xor_n0_stream L (uiv_s u) left right in
      left @ right)"

definition uiv_decrypt :: "('eb, 'pb, 'pv, 'st) cgo_lib \<Rightarrow> ('eb, 'pb, 'pv) uiv \<Rightarrow> uiv_tweak \<Rightarrow> relay_cell_body \<Rightarrow> relay_cell_body" where
  "uiv_decrypt L u tweak cell_body =
     (let (left, right) = uiv_split cell_body;
          right = xor_n0_stream L (uiv_s u) left right;
          left = et_decrypt L (uiv_j u) (fst tweak, snd tweak, right) left in
      left @ right)"

definition uiv_seed_len :: "('eb, 'pb, 'pv, 'st) cgo_lib \<Rightarrow> nat" where
  "uiv_seed_len L = et_seed_len L + prf_seed_len L"

definition split_seed :: "('eb, 'pb, 'pv, 'st) cgo_lib \<Rightarrow> bytes \<Rightarrow> bytes \<times> bytes \<times> bytes" where
  "split_seed L seed =
     (let len_j = et_seed_len L; len_s = prf_seed_len L in
      (take len_j seed, take len_s (drop len_j seed), drop (len_j + len_s) seed))"

definition uiv_update :: "('eb, 'pb, 'pv, 'st) cgo_lib \<Rightarrow> bytes \<Rightarrow> (('eb, 'pb, 'pv) uiv, bytes) op" where
  "uiv_update L nonce u =
     (let n_bytes = uiv_seed_len L + BLK_LEN;
          seed = get_n1_stream L (uiv_s u) nonce n_bytes;
          (j, s, n) = split_seed L seed in
      case et_initialize L j of
        Inl _ \<Rightarrow> (Inl (Panic ''Invalid slice len''), u)
      | Inr j \<Rightarrow>
          (let u = u\<lparr>uiv_j := j\<rparr> in
           case prf_initialize L s of
             Inl _ \<Rightarrow> (Inl (Panic ''invalid slice len''), u)
           | Inr s \<Rightarrow>
               (let u = u\<lparr>uiv_s := s\<rparr> in
                if length n \<noteq> length nonce then (Inl (Panic ''source slice length does not match destination slice length''), u)
                else (Inr n, u))))"

definition uiv_initialize :: "('eb, 'pb, 'pv, 'st) cgo_lib \<Rightarrow> bytes \<Rightarrow> proto_error + ('eb, 'pb, 'pv) uiv" where
  "uiv_initialize L seed =
     (if length seed \<noteq> uiv_seed_len L then Inl (ProtoBug ''Invalid seed length'')
      else (let (j, s, n) = split_seed L seed in
            res_bind (et_initialize L j) (\<lambda>j.
            res_bind (prf_initialize L s) (\<lambda>s.
            Inr \<lparr>uiv_j = j, uiv_s = s\<rparr>))))"

section \<open>State of a layer\<close>

record ('eb, 'pb, 'pv) cgo_state =
  uiv_key :: "('eb, 'pb, 'pv) uiv"
  nonce :: bytes
  cgo_tag :: bytes

definition cgo_state_seed_len :: "('eb, 'pb, 'pv, 'st) cgo_lib \<Rightarrow> nat" where
  "cgo_state_seed_len L = uiv_seed_len L + BLK_LEN"

definition cgo_state_initialize :: "('eb, 'pb, 'pv, 'st) cgo_lib \<Rightarrow> bytes \<Rightarrow> proto_error + ('eb, 'pb, 'pv) cgo_state" where
  "cgo_state_initialize L seed =
     (if length seed \<noteq> cgo_state_seed_len L then Inl (ProtoBug ''Invalid seed length'')
      else (let j_s = take (uiv_seed_len L) seed; n = drop (uiv_seed_len L) seed in
            res_bind (uiv_initialize L j_s) (\<lambda>u.
            if length n \<noteq> BLK_LEN then Inl (Panic ''invalid splice length'')
            else Inr \<lparr>uiv_key = u, nonce = n, cgo_tag = replicate BLK_LEN 0\<rparr>)))"

record ('eb, 'pb, 'pv) cgo_pair =
  cgo_outbound :: "('eb, 'pb, 'pv) cgo_state"
  cgo_inbound :: "('eb, 'pb, 'pv) cgo_state"
  cgo_binding :: circuit_binding

definition cgo_seed_len :: "('eb, 'pb, 'pv, 'st) cgo_lib \<Rightarrow> nat" where
  "cgo_seed_len L = cgo_state_seed_len L * 2 + CIRC_BINDING_LEN"

definition cgo_initialize :: "('eb, 'pb, 'pv, 'st) cgo_lib \<Rightarrow> bytes \<Rightarrow> proto_error + ('eb, 'pb, 'pv) cgo_pair" where
  "cgo_initialize L seed =
     (if length seed \<noteq> cgo_seed_len L then Inl (ProtoBug ''Invalid seed length'')
      else (let slen = cgo_state_seed_len L;
                outb = take slen seed;
                inb = take slen (drop slen seed);
                binding = drop (slen * 2) seed in
            res_bind (cgo_state_initialize L outb) (\<lambda>outb.
            res_bind (cgo_state_initialize L inb) (\<lambda>inb.
            case circuit_binding_try_from binding of
              Inl _ \<Rightarrow> Inl (Panic ''Invalid slice length'')
            | Inr b \<Rightarrow> Inr \<lparr>cgo_outbound = outb, cgo_inbound = inb, cgo_binding = b\<rparr>))))"

section \<open>The four roles of a layer\<close>

text \<open>\<open>self.uiv.update(&mut n)\<close>, with the new value of \<open>n\<close> as the result.\<close>

definition update_key :: "('eb, 'pb, 'pv, 'st) cgo_lib \<Rightarrow> bytes \<Rightarrow> (('eb, 'pb, 'pv) cgo_state, bytes) layer_op" where
  "update_key L n s = (case s of (cell, st) \<Rightarrow>
     (case uiv_update L n (uiv_key st) of (r, u) \<Rightarrow> (r, cell, st\<lparr>uiv_key := u\<rparr>)))"

definition cgo_encrypt_outbound :: "('eb, 'pb, 'pv, 'st) cgo_lib \<Rightarrow> u8 \<Rightarrow> (('eb, 'pb, 'pv) cgo_state, unit) layer_op" where
  "cgo_encrypt_outbound L cmd s = (case s of (cell, st) \<Rightarrow>
     (let t_new = first_block cell in
      (Inr (), uiv_decrypt L (uiv_key st) (cgo_tag st, cmd) cell, st\<lparr>cgo_tag := t_new\<rparr>)))"

definition tag_of_block :: "string \<Rightarrow> (('eb, 'pb, 'pv) cgo_state, sendme_tag) layer_op" where
  "tag_of_block why s =
     (case sendme_tag_try_from (take BLK_LEN (fst s)) of
        None \<Rightarrow> (Inl (Panic why), s)
      | Some t \<Rightarrow> (Inr t, s))"

definition cgo_originate_for :: "('eb, 'pb, 'pv, 'st) cgo_lib \<Rightarrow> u8 \<Rightarrow> (('eb, 'pb, 'pv) cgo_state, sendme_tag) layer_op" where
  "cgo_originate_for L cmd s = (case s of (cell, st) \<Rightarrow>
     op_bind (cgo_encrypt_outbound L cmd) (\<lambda>_ s.
     op_bind (update_key L (nonce (snd s))) (\<lambda>n (cell, st).
     tag_of_block ''Block length not a valid sendme tag.'' (cell, st\<lparr>nonce := n\<rparr>)) s)
     (splice 0 (nonce st) cell, st))"

definition cgo_decrypt_inbound :: "('eb, 'pb, 'pv, 'st) cgo_lib \<Rightarrow> u8 \<Rightarrow> (('eb, 'pb, 'pv) cgo_state, sendme_tag option) layer_op" where
  "cgo_decrypt_inbound L cmd s = (case s of (cell, st) \<Rightarrow>
     (let t_orig = first_block cell;
          cell = uiv_decrypt L (uiv_key st) (cgo_tag st, cmd) cell;
          st = st\<lparr>cgo_tag := t_orig\<rparr> in
      if cgo_ct_eq L (take CGO_TAG_LEN cell) (nonce st)
      then op_bind (update_key L t_orig) (\<lambda>n (cell, st).
             let st = st\<lparr>nonce := n\<rparr> in
             (Inr (Some (sendme_tag_from16 (cgo_tag st))), cell, st)) (cell, st)
      else (Inr None, cell, st)))"

definition cgo_decrypt_outbound :: "('eb, 'pb, 'pv, 'st) cgo_lib \<Rightarrow> u8 \<Rightarrow> (('eb, 'pb, 'pv) cgo_state, sendme_tag option) layer_op" where
  "cgo_decrypt_outbound L cmd =
     op_bind (tag_of_block ''Invalid sendme length'') (\<lambda>tag (cell, st).
       let cell = uiv_encrypt L (uiv_key st) (cgo_tag st, cmd) cell;
           st = st\<lparr>cgo_tag := first_block cell\<rparr> in
       if cgo_ct_eq L (cgo_tag st) (nonce st)
       then op_bind (update_key L (nonce st)) (\<lambda>n (cell, st). (Inr (Some tag), cell, st\<lparr>nonce := n\<rparr>)) (cell, st)
       else (Inr None, cell, st))"

definition cgo_encrypt_inbound :: "('eb, 'pb, 'pv, 'st) cgo_lib \<Rightarrow> u8 \<Rightarrow> (('eb, 'pb, 'pv) cgo_state, unit) layer_op" where
  "cgo_encrypt_inbound L cmd s = (case s of (cell, st) \<Rightarrow>
     (let cell = uiv_encrypt L (uiv_key st) (cgo_tag st, cmd) cell in
      (Inr (), cell, st\<lparr>cgo_tag := first_block cell\<rparr>)))"

definition cgo_originate :: "('eb, 'pb, 'pv, 'st) cgo_lib \<Rightarrow> u8 \<Rightarrow> (('eb, 'pb, 'pv) cgo_state, sendme_tag) layer_op" where
  "cgo_originate L cmd s = (case s of (cell, st) \<Rightarrow>
     op_bind (cgo_encrypt_inbound L cmd) (\<lambda>_ (cell, st).
     op_bind (update_key L (take BLK_LEN cell)) (\<lambda>n (cell, st).
       let st = st\<lparr>nonce := n\<rparr> in
       (Inr (sendme_tag_from16 (cgo_tag st)), cell, st)) (cell, st\<lparr>nonce := take BLK_LEN cell\<rparr>))
     (splice 0 (nonce st) cell, st))"

definition cgo_split_client_layer :: "('eb, 'pb, 'pv) cgo_pair \<Rightarrow> ('eb, 'pb, 'pv) cgo_state \<times> ('eb, 'pb, 'pv) cgo_state \<times> circuit_binding" where
  "cgo_split_client_layer p = (cgo_outbound p, cgo_inbound p, cgo_binding p)"

definition cgo_split_relay_layer :: "('eb, 'pb, 'pv) cgo_pair \<Rightarrow> ('eb, 'pb, 'pv) cgo_state \<times> ('eb, 'pb, 'pv) cgo_state \<times> circuit_binding" where
  "cgo_split_relay_layer p = (cgo_outbound p, cgo_inbound p, cgo_binding p)"

section \<open>UIV+ is a permutation\<close>

lemma cgo_lawsD:
  assumes "cgo_laws L"
  shows "length b = 16 \<Longrightarrow> length (encrypt_block L k b) = 16" "length b = 16 \<Longrightarrow> decrypt_block L k (encrypt_block L k b) = b"
    "length b = 16 \<Longrightarrow> length (decrypt_block L k b) = 16" "length b = 16 \<Longrightarrow> encrypt_block L k (decrypt_block L k b) = b"
    "length (pv_finalize L h) = 16" "length (fst (ctr_apply_keystream L s xs)) = length xs"
    "fst (ctr_apply_keystream L s (fst (ctr_apply_keystream L s xs))) = xs" "cgo_ct_eq L xs ys \<longleftrightarrow> xs = ys"
  using assms by (simp_all add: cgo_laws_def)

lemma xor_into_length [simp]: "length (xor_into xs ys) = min (length xs) (length ys)"
  by (simp add: xor_into_def)

lemma xor_into_cancel [simp]: "length xs = length ys \<Longrightarrow> xor_into (xor_into xs ys) ys = xs"
  by (induction xs ys rule: list_induct2) (simp_all add: xor_into_def xor.assoc)

lemma et_inverse:
  assumes "cgo_laws L" "length b = 16"
  shows "length (et_encrypt L e t b) = 16" "et_decrypt L e t (et_encrypt L e t b) = b"
    "length (et_decrypt L e t b) = 16" "et_encrypt L e t (et_decrypt L e t b) = b"
proof -
  define h where "h = compute_tweak_hash L e t"
  have h: "length h = 16"
    by (simp add: h_def compute_tweak_hash_def Let_def cgo_lawsD(5) [OF assms(1)] split: prod.splits)
  note l = cgo_lawsD(1-4) [OF assms(1)]
  show "length (et_encrypt L e t b) = 16" "et_decrypt L e t (et_encrypt L e t b) = b"
    "length (et_decrypt L e t b) = 16" "et_encrypt L e t (et_decrypt L e t b) = b"
    using assms(2) h l by (simp_all add: et_encrypt_def et_decrypt_def flip: h_def)
qed

lemma n0_stream:
  assumes "cgo_laws L"
  shows "length (xor_n0_stream L p t xs) = length xs" "xor_n0_stream L p t (xor_n0_stream L p t xs) = xs"
  using cgo_lawsD(6,7) [OF assms] by (simp_all add: xor_n0_stream_def)

lemma uiv_inverse:
  assumes "cgo_laws L" "length cell = 509"
  shows "length (uiv_encrypt L u t cell) = 509" "uiv_decrypt L u t (uiv_encrypt L u t cell) = cell"
    "length (uiv_decrypt L u t cell) = 509" "uiv_encrypt L u t (uiv_decrypt L u t cell) = cell"
  using assms(2) et_inverse [OF assms(1)] n0_stream [OF assms(1)]
  by (simp_all add: uiv_encrypt_def uiv_decrypt_def uiv_split_def Let_def)

section \<open>Both ends of a layer agree\<close>

definition cgo_sync :: "('eb, 'pb, 'pv, 'st) cgo_lib \<Rightarrow> ('eb, 'pb, 'pv) cgo_state \<Rightarrow> ('eb, 'pb, 'pv) cgo_state \<Rightarrow> bool" where
  "cgo_sync L c r \<longleftrightarrow> cgo_laws L \<and> c = r \<and> length (nonce c) = BLK_LEN"

abbreviation cgo_carried :: "relay_cell_body \<Rightarrow> bytes" where
  "cgo_carried \<equiv> body_fields FmtV1"

lemma uiv_update_ok:
  assumes "cgo_laws L" "length n = 16"
  shows "\<exists>n' u'. uiv_update L n u = (Inr n', u') \<and> length n' = 16"
proof -
  have "length (get_n1_stream L (uiv_s u) n k) = k" for k
    using cgo_lawsD(6) [OF assms(1)] by (simp add: get_n1_stream_def)
  then show ?thesis using assms(2)
    by (simp add: uiv_update_def Let_def split_seed_def et_initialize_def prf_initialize_def uiv_seed_len_def)
qed

lemma update_key_ok:
  assumes "cgo_laws L" "length n = 16"
  shows "\<exists>n' u'. length n' = 16 \<and>
    (\<forall>cell st. uiv_key st = u \<longrightarrow> update_key L n (cell, st) = (Inr n', cell, st\<lparr>uiv_key := u'\<rparr>))"
proof -
  obtain n' u' where u: "uiv_update L n u = (Inr n', u')" "length n' = 16"
    using uiv_update_ok [OF assms] by blast
  have "uiv_key st = u \<longrightarrow> update_key L n (cell, st) = (Inr n', cell, st\<lparr>uiv_key := u'\<rparr>)" for cell :: bytes and st
    using u(1) by (simp add: update_key_def)
  then show ?thesis using u(2) by blast
qed

lemma splice_front: "length n = 16 \<Longrightarrow> length cell = 509 \<Longrightarrow>
    length (splice 0 n cell) = 509 \<and> take 16 (splice 0 n cell) = n \<and> cgo_carried (splice 0 n cell) = cgo_carried cell"
  by (simp add: splice_def body_fields_def)

lemma block_tag: "length cell = 509 \<Longrightarrow> tag_of_block why (cell, st) = (Inr (sendme_tag_from16 (take 16 cell)), cell, st)"
  by (simp add: tag_of_block_def sendme_tag_try_from_def)

lemma cgo_contract_orig_out:
  assumes "cgo_sync L c r" "length cell = 509"
  shows "\<exists>tag cell' c' plain r'. cgo_originate_for L cmd (cell, c) = (Inr tag, cell', c') \<and> length cell' = 509 \<and>
    cgo_decrypt_outbound L cmd (cell', r) = (Inr (Some tag), plain, r') \<and> length plain = 509 \<and>
    cgo_carried plain = cgo_carried cell \<and> cgo_sync L c' r'"
proof -
  have l: "cgo_laws L" "r = c" "length (nonce c) = 16" using assms(1) by (auto simp: cgo_sync_def)
  define plain where "plain = splice 0 (nonce c) cell"
  have p: "length plain = 509" "take 16 plain = nonce c" "cgo_carried plain = cgo_carried cell"
    using splice_front [OF l(3) assms(2)] by (auto simp: plain_def)
  define cell' where "cell' = uiv_decrypt L (uiv_key c) (cgo_tag c, cmd) plain"
  have d: "length cell' = 509" "uiv_encrypt L (uiv_key c) (cgo_tag c, cmd) cell' = plain"
    using uiv_inverse [OF l(1) p(1)] by (simp_all add: cell'_def)
  obtain n' u' where k: "length n' = 16" "\<And>cell st. uiv_key st = uiv_key c \<Longrightarrow> update_key L (nonce c) (cell, st) = (Inr n', cell, st\<lparr>uiv_key := u'\<rparr>)"
    using update_key_ok [OF l(1,3), of "uiv_key c"] by blast
  define c' where "c' = c\<lparr>cgo_tag := nonce c, uiv_key := u', nonce := n'\<rparr>"
  have "cgo_originate_for L cmd (cell, c) = (Inr (sendme_tag_from16 (take 16 cell')), cell', c')"
    using k(2) [of "c\<lparr>cgo_tag := nonce c\<rparr>"] p d(1)
    by (simp add: cgo_originate_for_def op_bind_def cgo_encrypt_outbound_def first_block_def block_tag c'_def
        flip: plain_def cell'_def)
  moreover have "cgo_decrypt_outbound L cmd (cell', r) = (Inr (Some (sendme_tag_from16 (take 16 cell'))), plain, c')"
    using k(2) [of "c\<lparr>cgo_tag := nonce c\<rparr>"] d p l(2) cgo_lawsD(8) [OF l(1)]
    by (simp add: cgo_decrypt_outbound_def op_bind_def block_tag first_block_def c'_def)
  moreover have "cgo_sync L c' c'" using l(1) k(1) by (simp add: cgo_sync_def c'_def)
  ultimately show ?thesis using d(1) p(1,3) by blast
qed

lemma cgo_contract_enc_out:
  assumes "cgo_sync L c r" "length cell = 509"
  shows "\<exists>cell' c' a r'. cgo_encrypt_outbound L cmd (cell, c) = (Inr (), cell', c') \<and> length cell' = 509 \<and>
    cgo_decrypt_outbound L cmd (cell', r) = (Inr a, cell, r') \<and> (a = None \<longrightarrow> cgo_sync L c' r')"
proof -
  have l: "cgo_laws L" "r = c" "length (nonce c) = 16" using assms(1) by (auto simp: cgo_sync_def)
  define cell' where "cell' = uiv_decrypt L (uiv_key c) (cgo_tag c, cmd) cell"
  have d: "length cell' = 509" "uiv_encrypt L (uiv_key c) (cgo_tag c, cmd) cell' = cell"
    using uiv_inverse [OF l(1) assms(2)] by (simp_all add: cell'_def)
  define c' where "c' = c\<lparr>cgo_tag := take 16 cell\<rparr>"
  have e: "cgo_encrypt_outbound L cmd (cell, c) = (Inr (), cell', c')"
    by (simp add: cgo_encrypt_outbound_def first_block_def cell'_def c'_def)
  obtain n' u' where k: "update_key L (nonce c) (cell, c') = (Inr n', cell, c'\<lparr>uiv_key := u'\<rparr>)"
    using update_key_ok [OF l(1,3), of "uiv_key c"] by (auto simp: c'_def)
  have "cgo_decrypt_outbound L cmd (cell', r) =
      (if take 16 cell = nonce c
       then (Inr (Some (sendme_tag_from16 (take 16 cell'))), cell, c'\<lparr>uiv_key := u', nonce := n'\<rparr>)
       else (Inr None, cell, c'))"
    using k d l(2) cgo_lawsD(8) [OF l(1)]
    by (cases "take 16 cell = nonce c") (simp_all add: cgo_decrypt_outbound_def op_bind_def block_tag first_block_def c'_def)
  moreover have "cgo_sync L c' c'" using l by (simp add: cgo_sync_def c'_def)
  ultimately show ?thesis using e d(1) by (cases "take 16 cell = nonce c") auto
qed

lemma cgo_contract_orig_in:
  assumes "cgo_sync L c r" "length cell = 509"
  shows "\<exists>tag cell' c' plain r'. cgo_originate L cmd (cell, c) = (Inr tag, cell', c') \<and> length cell' = 509 \<and>
    cgo_decrypt_inbound L cmd (cell', r) = (Inr (Some tag), plain, r') \<and> length plain = 509 \<and>
    cgo_carried plain = cgo_carried cell \<and> cgo_sync L c' r'"
proof -
  have l: "cgo_laws L" "r = c" "length (nonce c) = 16" using assms(1) by (auto simp: cgo_sync_def)
  define plain where "plain = splice 0 (nonce c) cell"
  have p: "length plain = 509" "take 16 plain = nonce c" "cgo_carried plain = cgo_carried cell"
    using splice_front [OF l(3) assms(2)] by (auto simp: plain_def)
  define cell' where "cell' = uiv_encrypt L (uiv_key c) (cgo_tag c, cmd) plain"
  have d: "length cell' = 509" "uiv_decrypt L (uiv_key c) (cgo_tag c, cmd) cell' = plain"
    using uiv_inverse [OF l(1) p(1)] by (simp_all add: cell'_def)
  define b where "b = take 16 cell'"
  have b: "length b = 16" using d(1) by (simp add: b_def)
  obtain n' u' where k: "length n' = 16" "\<And>cell st. uiv_key st = uiv_key c \<Longrightarrow> update_key L b (cell, st) = (Inr n', cell, st\<lparr>uiv_key := u'\<rparr>)"
    using update_key_ok [OF l(1) b, of "uiv_key c"] by blast
  define c' where "c' = c\<lparr>cgo_tag := b, uiv_key := u', nonce := n'\<rparr>"
  have "cgo_originate L cmd (cell, c) = (Inr (sendme_tag_from16 b), cell', c')"
    using k(2) [of "c\<lparr>cgo_tag := b, nonce := b\<rparr>"]
    by (simp add: cgo_originate_def op_bind_def cgo_encrypt_inbound_def first_block_def c'_def
        flip: plain_def cell'_def b_def)
  moreover have "cgo_decrypt_inbound L cmd (cell', r) = (Inr (Some (sendme_tag_from16 b)), plain, c')"
    using k(2) [of "c\<lparr>cgo_tag := b\<rparr>"] d p l(2) cgo_lawsD(8) [OF l(1)]
    by (simp add: cgo_decrypt_inbound_def op_bind_def first_block_def c'_def flip: b_def)
  moreover have "cgo_sync L c' c'" using l(1) k(1) by (simp add: cgo_sync_def c'_def)
  ultimately show ?thesis using d(1) p(1,3) by blast
qed

lemma cgo_contract_enc_in:
  assumes "cgo_sync L c r" "length cell = 509"
  shows "\<exists>cell' c' a r'. cgo_encrypt_inbound L cmd (cell, c) = (Inr (), cell', c') \<and> length cell' = 509 \<and>
    cgo_decrypt_inbound L cmd (cell', r) = (Inr a, cell, r') \<and> (a = None \<longrightarrow> cgo_sync L c' r')"
proof -
  have l: "cgo_laws L" "r = c" "length (nonce c) = 16" using assms(1) by (auto simp: cgo_sync_def)
  define cell' where "cell' = uiv_encrypt L (uiv_key c) (cgo_tag c, cmd) cell"
  have d: "length cell' = 509" "uiv_decrypt L (uiv_key c) (cgo_tag c, cmd) cell' = cell"
    using uiv_inverse [OF l(1) assms(2)] by (simp_all add: cell'_def)
  define c' where "c' = c\<lparr>cgo_tag := take 16 cell'\<rparr>"
  have e: "cgo_encrypt_inbound L cmd (cell, c) = (Inr (), cell', c')"
    by (simp add: cgo_encrypt_inbound_def first_block_def c'_def flip: cell'_def)
  have b: "length (take 16 cell') = 16" using d(1) by simp
  obtain n' u' where k: "update_key L (take 16 cell') (cell, c') = (Inr n', cell, c'\<lparr>uiv_key := u'\<rparr>)"
    using update_key_ok [OF l(1) b, of "uiv_key c"] by (auto simp: c'_def)
  have "cgo_decrypt_inbound L cmd (cell', r) =
      (if take 16 cell = nonce c
       then (Inr (Some (sendme_tag_from16 (take 16 cell'))), cell, c'\<lparr>uiv_key := u', nonce := n'\<rparr>)
       else (Inr None, cell, c'))"
    using k d l(2) cgo_lawsD(8) [OF l(1)]
    by (cases "take 16 cell = nonce c") (simp_all add: cgo_decrypt_inbound_def op_bind_def first_block_def Let_def c'_def)
  moreover have "cgo_sync L c' c'" using l by (simp add: cgo_sync_def c'_def)
  ultimately show ?thesis using e d(1) by (cases "take 16 cell = nonce c") auto
qed

interpretation cgo_outbound: onion_layer "cgo_originate_for L" "cgo_encrypt_outbound L" "cgo_decrypt_outbound L"
  "cgo_sync L" "\<lambda>_. cgo_carried" for L :: "('eb, 'pb, 'pv, 'st) cgo_lib"
  by unfold_locales (fact cgo_contract_orig_out, fact cgo_contract_enc_out)

interpretation cgo_inbound: onion_layer "cgo_originate L" "cgo_encrypt_inbound L" "cgo_decrypt_inbound L"
  "cgo_sync L" "\<lambda>_. cgo_carried" for L :: "('eb, 'pb, 'pv, 'st) cgo_lib"
  by unfold_locales (fact cgo_contract_orig_in, fact cgo_contract_enc_in)

end
