(* ===== verification/Client_Layers.thy ===== *)
theory Client_Layers
  imports Crypt_Cgo
begin

text \<open>
  The cryptographic layers of a client (\<open>tor-proto/src/tunnel/circuit/handshake.rs\<close>): the
  choice of relay encryption, the construction of the layers of one hop from a key generator,
  in the role of the initiator or of the responder, and the boxed layers of a circuit, whose
  methods dispatch on the kind of layer. The key generator is the argument \<open>expand\<close>.
\<close>

section \<open>Boxed layers\<close>

record ('sc, 'd, 'eb, 'pb, 'pv, 'st) crypto_lib =
  lib_tor1 :: "('sc, 'd) tor1_lib"
  lib_hsv3 :: "('sc, 'd) tor1_lib"
  lib_cgo :: "('eb, 'pb, 'pv, 'st) cgo_lib"

datatype ('sc, 'd, 'eb, 'pb, 'pv) layer =
    Tor1Layer "('sc, 'd) crypt_state"
  | HsV3Layer "('sc, 'd) crypt_state"
  | CgoLayer "('eb, 'pb, 'pv) cgo_state"

definition lift_layer :: "('s \<Rightarrow> 'l) \<Rightarrow> ('s, 'a) layer_op \<Rightarrow> relay_cell_body \<Rightarrow> 's \<Rightarrow> (proto_error + 'a) \<times> relay_cell_body \<times> 'l" where
  "lift_layer C m cell st = (case m (cell, st) of (r, cell, st) \<Rightarrow> (r, cell, C st))"

text \<open>The four traits, for each kind of layer.\<close>

definition client_originate_for :: "('sc, 'd, 'eb, 'pb, 'pv, 'st) crypto_lib \<Rightarrow> u8 \<Rightarrow> (('sc, 'd, 'eb, 'pb, 'pv) layer, sendme_tag) layer_op" where
  "client_originate_for K cmd s = (case s of
     (cell, Tor1Layer st) \<Rightarrow> lift_layer Tor1Layer (tor1_originate_for (lib_tor1 K) cmd) cell st
   | (cell, HsV3Layer st) \<Rightarrow> lift_layer HsV3Layer (tor1_originate_for (lib_hsv3 K) cmd) cell st
   | (cell, CgoLayer st) \<Rightarrow> lift_layer CgoLayer (cgo_originate_for (lib_cgo K) cmd) cell st)"

definition client_encrypt_outbound :: "('sc, 'd, 'eb, 'pb, 'pv, 'st) crypto_lib \<Rightarrow> u8 \<Rightarrow> (('sc, 'd, 'eb, 'pb, 'pv) layer, unit) layer_op" where
  "client_encrypt_outbound K cmd s = (case s of
     (cell, Tor1Layer st) \<Rightarrow> lift_layer Tor1Layer (tor1_encrypt_outbound (lib_tor1 K) cmd) cell st
   | (cell, HsV3Layer st) \<Rightarrow> lift_layer HsV3Layer (tor1_encrypt_outbound (lib_hsv3 K) cmd) cell st
   | (cell, CgoLayer st) \<Rightarrow> lift_layer CgoLayer (cgo_encrypt_outbound (lib_cgo K) cmd) cell st)"

definition client_decrypt_inbound :: "('sc, 'd, 'eb, 'pb, 'pv, 'st) crypto_lib \<Rightarrow> u8 \<Rightarrow> (('sc, 'd, 'eb, 'pb, 'pv) layer, sendme_tag option) layer_op" where
  "client_decrypt_inbound K cmd s = (case s of
     (cell, Tor1Layer st) \<Rightarrow> lift_layer Tor1Layer (tor1_decrypt_inbound (lib_tor1 K) cmd) cell st
   | (cell, HsV3Layer st) \<Rightarrow> lift_layer HsV3Layer (tor1_decrypt_inbound (lib_hsv3 K) cmd) cell st
   | (cell, CgoLayer st) \<Rightarrow> lift_layer CgoLayer (cgo_decrypt_inbound (lib_cgo K) cmd) cell st)"

definition relay_originate :: "('sc, 'd, 'eb, 'pb, 'pv, 'st) crypto_lib \<Rightarrow> u8 \<Rightarrow> (('sc, 'd, 'eb, 'pb, 'pv) layer, sendme_tag) layer_op" where
  "relay_originate K cmd s = (case s of
     (cell, Tor1Layer st) \<Rightarrow> lift_layer Tor1Layer (tor1_originate (lib_tor1 K) cmd) cell st
   | (cell, HsV3Layer st) \<Rightarrow> lift_layer HsV3Layer (tor1_originate (lib_hsv3 K) cmd) cell st
   | (cell, CgoLayer st) \<Rightarrow> lift_layer CgoLayer (cgo_originate (lib_cgo K) cmd) cell st)"

definition relay_encrypt_inbound :: "('sc, 'd, 'eb, 'pb, 'pv, 'st) crypto_lib \<Rightarrow> u8 \<Rightarrow> (('sc, 'd, 'eb, 'pb, 'pv) layer, unit) layer_op" where
  "relay_encrypt_inbound K cmd s = (case s of
     (cell, Tor1Layer st) \<Rightarrow> lift_layer Tor1Layer (tor1_encrypt_inbound (lib_tor1 K) cmd) cell st
   | (cell, HsV3Layer st) \<Rightarrow> lift_layer HsV3Layer (tor1_encrypt_inbound (lib_hsv3 K) cmd) cell st
   | (cell, CgoLayer st) \<Rightarrow> lift_layer CgoLayer (cgo_encrypt_inbound (lib_cgo K) cmd) cell st)"

definition relay_decrypt_outbound :: "('sc, 'd, 'eb, 'pb, 'pv, 'st) crypto_lib \<Rightarrow> u8 \<Rightarrow> (('sc, 'd, 'eb, 'pb, 'pv) layer, sendme_tag option) layer_op" where
  "relay_decrypt_outbound K cmd s = (case s of
     (cell, Tor1Layer st) \<Rightarrow> lift_layer Tor1Layer (tor1_decrypt_outbound (lib_tor1 K) cmd) cell st
   | (cell, HsV3Layer st) \<Rightarrow> lift_layer HsV3Layer (tor1_decrypt_outbound (lib_hsv3 K) cmd) cell st
   | (cell, CgoLayer st) \<Rightarrow> lift_layer CgoLayer (cgo_decrypt_outbound (lib_cgo K) cmd) cell st)"

text \<open>
  A boxed layer is a client layer, or a relay layer in the wrapper that an onion service uses.
  The far ends of a circuit are such boxes too: a relay decrypts as \<open>ResponderInbound\<close>.
\<close>

datatype ('sc, 'd, 'eb, 'pb, 'pv) outbound_layer =
    ClientOutbound "('sc, 'd, 'eb, 'pb, 'pv) layer"
  | ResponderOutbound "('sc, 'd, 'eb, 'pb, 'pv) layer"

datatype ('sc, 'd, 'eb, 'pb, 'pv) inbound_layer =
    ClientInbound "('sc, 'd, 'eb, 'pb, 'pv) layer"
  | ResponderInbound "('sc, 'd, 'eb, 'pb, 'pv) layer"

definition originate_for :: "('sc, 'd, 'eb, 'pb, 'pv, 'st) crypto_lib \<Rightarrow> u8 \<Rightarrow> (('sc, 'd, 'eb, 'pb, 'pv) outbound_layer, sendme_tag) layer_op" where
  "originate_for K cmd s = (case s of
     (cell, ClientOutbound l) \<Rightarrow> lift_layer ClientOutbound (client_originate_for K cmd) cell l
   | (cell, ResponderOutbound l) \<Rightarrow> lift_layer ResponderOutbound (relay_originate K cmd) cell l)"

definition encrypt_outbound :: "('sc, 'd, 'eb, 'pb, 'pv, 'st) crypto_lib \<Rightarrow> u8 \<Rightarrow> (('sc, 'd, 'eb, 'pb, 'pv) outbound_layer, unit) layer_op" where
  "encrypt_outbound K cmd s = (case s of
     (cell, ClientOutbound l) \<Rightarrow> lift_layer ClientOutbound (client_encrypt_outbound K cmd) cell l
   | (cell, ResponderOutbound l) \<Rightarrow> lift_layer ResponderOutbound (relay_encrypt_inbound K cmd) cell l)"

definition decrypt_inbound :: "('sc, 'd, 'eb, 'pb, 'pv, 'st) crypto_lib \<Rightarrow> u8 \<Rightarrow> (('sc, 'd, 'eb, 'pb, 'pv) inbound_layer, sendme_tag option) layer_op" where
  "decrypt_inbound K cmd s = (case s of
     (cell, ClientInbound l) \<Rightarrow> lift_layer ClientInbound (client_decrypt_inbound K cmd) cell l
   | (cell, ResponderInbound l) \<Rightarrow> lift_layer ResponderInbound (relay_decrypt_outbound K cmd) cell l)"

section \<open>Construction\<close>

datatype relay_crypt_layer_protocol =
    ProtoTor1 relay_cell_format
  | ProtoHsV3 relay_cell_format
  | ProtoCgo

datatype relay_protocol = RelayProtocolHsV3

definition layer_protocol_from :: "relay_protocol \<Rightarrow> relay_crypt_layer_protocol" where
  "layer_protocol_from value = (case value of RelayProtocolHsV3 \<Rightarrow> ProtoHsV3 FmtV0)"

definition layer_cell_format :: "relay_crypt_layer_protocol \<Rightarrow> relay_cell_format" where
  "layer_cell_format p = (case p of ProtoTor1 v \<Rightarrow> v | ProtoHsV3 v \<Rightarrow> v | ProtoCgo \<Rightarrow> FmtV1)"

datatype handshake_role = Initiator | Responder

record ('sc, 'd, 'eb, 'pb, 'pv) boxed_client_layer =
  bl_fwd :: "('sc, 'd, 'eb, 'pb, 'pv) outbound_layer"
  bl_back :: "('sc, 'd, 'eb, 'pb, 'pv) inbound_layer"
  bl_binding :: "circuit_binding option"

type_synonym keygen = "nat \<Rightarrow> proto_error + bytes"

definition crypt_construct :: "nat \<Rightarrow> (bytes \<Rightarrow> proto_error + 'p) \<Rightarrow> keygen \<Rightarrow> proto_error + 'p" where
  "crypt_construct seed_len initialize expand =
     res_bind (expand seed_len) (\<lambda>seed. initialize seed)"

definition construct ::
  "nat \<Rightarrow> (bytes \<Rightarrow> proto_error + 'p) \<Rightarrow> ('p \<Rightarrow> 's \<times> 's \<times> circuit_binding) \<Rightarrow> ('p \<Rightarrow> 's \<times> 's \<times> circuit_binding) \<Rightarrow>
   ('s \<Rightarrow> ('sc, 'd, 'eb, 'pb, 'pv) layer) \<Rightarrow> keygen \<Rightarrow> handshake_role \<Rightarrow>
   proto_error + ('sc, 'd, 'eb, 'pb, 'pv) boxed_client_layer" where
  "construct seed_len initialize split_client_layer split_relay_layer C expand role =
     res_bind (crypt_construct seed_len initialize expand) (\<lambda>layer.
       case role of
         Initiator \<Rightarrow>
           (case split_client_layer layer of (f, b, bind) \<Rightarrow>
              Inr \<lparr>bl_fwd = ClientOutbound (C f), bl_back = ClientInbound (C b), bl_binding = Some bind\<rparr>)
       | Responder \<Rightarrow>
           (case split_relay_layer layer of (f, b, bind) \<Rightarrow>
              Inr \<lparr>bl_fwd = ResponderOutbound (C b), bl_back = ResponderInbound (C f), bl_binding = Some bind\<rparr>))"

definition construct_client_layers ::
  "('sc, 'd, 'eb, 'pb, 'pv, 'st) crypto_lib \<Rightarrow> relay_crypt_layer_protocol \<Rightarrow> handshake_role \<Rightarrow> keygen \<Rightarrow>
   proto_error + ('sc, 'd, 'eb, 'pb, 'pv) boxed_client_layer" where
  "construct_client_layers K p role expand =
     (case p of
        ProtoTor1 FmtV0 \<Rightarrow> construct (tor1_seed_len (lib_tor1 K)) (tor1_initialize (lib_tor1 K))
          tor1_split_client_layer tor1_split_relay_layer Tor1Layer expand role
      | ProtoTor1 _ \<Rightarrow> Inl (ProtoBug ''protocol not implemented'')
      | ProtoHsV3 FmtV0 \<Rightarrow> construct (tor1_seed_len (lib_hsv3 K)) (tor1_initialize (lib_hsv3 K))
          tor1_split_client_layer tor1_split_relay_layer HsV3Layer expand role
      | ProtoHsV3 _ \<Rightarrow> Inl (ProtoBug ''protocol not implemented'')
      | ProtoCgo \<Rightarrow> construct (cgo_seed_len (lib_cgo K)) (cgo_initialize (lib_cgo K))
          cgo_split_client_layer cgo_split_relay_layer CgoLayer expand role)"

section \<open>Both ends of a boxed layer agree\<close>

definition lib_laws :: "('sc, 'd, 'eb, 'pb, 'pv, 'st) crypto_lib \<Rightarrow> bool" where
  "lib_laws K \<longleftrightarrow> tor1_laws (lib_tor1 K) \<and> tor1_laws (lib_hsv3 K) \<and> cgo_laws (lib_cgo K)"

fun layer_sync :: "('sc, 'd, 'eb, 'pb, 'pv, 'st) crypto_lib \<Rightarrow> ('sc, 'd, 'eb, 'pb, 'pv) layer \<Rightarrow> ('sc, 'd, 'eb, 'pb, 'pv) layer \<Rightarrow> bool" where
  "layer_sync K (Tor1Layer a) (Tor1Layer b) \<longleftrightarrow> tor1_sync (lib_tor1 K) a b"
| "layer_sync K (HsV3Layer a) (HsV3Layer b) \<longleftrightarrow> tor1_sync (lib_hsv3 K) a b"
| "layer_sync K (CgoLayer a) (CgoLayer b) \<longleftrightarrow> cgo_sync (lib_cgo K) a b"
| "layer_sync K _ _ \<longleftrightarrow> False"

fun layer_format :: "('sc, 'd, 'eb, 'pb, 'pv) layer \<Rightarrow> relay_cell_format" where
  "layer_format (CgoLayer _) = FmtV1"
| "layer_format _ = FmtV0"

fun box_sync :: "('sc, 'd, 'eb, 'pb, 'pv, 'st) crypto_lib \<Rightarrow> ('sc, 'd, 'eb, 'pb, 'pv) outbound_layer \<Rightarrow> ('sc, 'd, 'eb, 'pb, 'pv) inbound_layer \<Rightarrow> bool" where
  "box_sync K (ClientOutbound a) (ResponderInbound b) \<longleftrightarrow> layer_sync K a b"
| "box_sync K (ResponderOutbound a) (ClientInbound b) \<longleftrightarrow> layer_sync K a b"
| "box_sync K _ _ \<longleftrightarrow> False"

fun box_format :: "('sc, 'd, 'eb, 'pb, 'pv) outbound_layer \<Rightarrow> relay_cell_format" where
  "box_format (ClientOutbound l) = layer_format l"
| "box_format (ResponderOutbound l) = layer_format l"

text \<open>A contract between two operations, and its transfer to wrapped states.\<close>

definition seals where
  "seals orig dec sync format c r cell \<longleftrightarrow>
     (\<exists>tag cell' c' plain r'. orig (cell, c) = (Inr tag, cell', c') \<and> length cell' = 509 \<and>
        dec (cell', r) = (Inr (Some tag), plain, r') \<and> length plain = 509 \<and>
        body_fields format plain = body_fields format cell \<and> sync c' r')"

definition wraps where
  "wraps enc dec sync c r cell \<longleftrightarrow>
     (\<exists>cell' c' a r'. enc (cell, c) = (Inr (), cell', c') \<and> length cell' = 509 \<and>
        dec (cell', r) = (Inr a, cell, r') \<and> (a = None \<longrightarrow> sync c' r'))"

lemma seals_lift:
  assumes "seals orig dec sync format c r cell"
    and "\<And>cell st. orig' (cell, C st) = lift_layer C orig cell st" and "\<And>cell st. dec' (cell, D st) = lift_layer D dec cell st"
    and "\<And>c r. sync c r \<Longrightarrow> sync' (C c) (D r)"
  shows "seals orig' dec' sync' format (C c) (D r) cell"
  using assms(1) unfolding seals_def by (fastforce simp: assms(2,3) lift_layer_def intro: assms(4))

lemma wraps_lift:
  assumes "wraps enc dec sync c r cell"
    and "\<And>cell st. enc' (cell, C st) = lift_layer C enc cell st" and "\<And>cell st. dec' (cell, D st) = lift_layer D dec cell st"
    and "\<And>c r. sync c r \<Longrightarrow> sync' (C c) (D r)"
  shows "wraps enc' dec' sync' (C c) (D r) cell"
  using assms(1) unfolding wraps_def by (fastforce simp: assms(2,3) lift_layer_def intro: assms(4))

lemma layer_sync_cases:
  assumes "layer_sync K a b"
  obtains (tor1) x y where "a = Tor1Layer x" "b = Tor1Layer y" "tor1_sync (lib_tor1 K) x y"
    | (hsv3) x y where "a = HsV3Layer x" "b = HsV3Layer y" "tor1_sync (lib_hsv3 K) x y"
    | (cgo) x y where "a = CgoLayer x" "b = CgoLayer y" "cgo_sync (lib_cgo K) x y"
  using assms by (cases "(K, a, b)" rule: layer_sync.cases) auto

lemmas dispatch_defs = client_originate_for_def client_encrypt_outbound_def client_decrypt_inbound_def
  relay_originate_def relay_encrypt_inbound_def relay_decrypt_outbound_def

lemma layer_seals_outbound:
  assumes "layer_sync K a b" "length cell = 509"
  shows "seals (client_originate_for K cmd) (relay_decrypt_outbound K cmd) (layer_sync K) (layer_format a) a b cell"
  using assms(1)
proof (cases rule: layer_sync_cases)
  case (tor1 x y)
  show ?thesis unfolding tor1(1,2) layer_format.simps
    by (rule seals_lift [OF tor1_contract_orig [OF tor1(3) assms(2), of cmd, folded seals_def]]) (simp_all add: dispatch_defs)
next
  case (hsv3 x y)
  show ?thesis unfolding hsv3(1,2) layer_format.simps
    by (rule seals_lift [OF tor1_contract_orig [OF hsv3(3) assms(2), of cmd, folded seals_def]]) (simp_all add: dispatch_defs)
next
  case (cgo x y)
  show ?thesis unfolding cgo(1,2) layer_format.simps
    by (rule seals_lift [OF cgo_contract_orig_out [OF cgo(3) assms(2), of cmd, folded seals_def]]) (simp_all add: dispatch_defs)
qed

lemma layer_seals_inbound:
  assumes "layer_sync K a b" "length cell = 509"
  shows "seals (relay_originate K cmd) (client_decrypt_inbound K cmd) (layer_sync K) (layer_format a) a b cell"
  using assms(1)
proof (cases rule: layer_sync_cases)
  case (tor1 x y)
  show ?thesis unfolding tor1(1,2) layer_format.simps
    by (rule seals_lift [OF tor1_contract_orig [OF tor1(3) assms(2), of cmd, folded tor1_inbound_same seals_def]]) (simp_all add: dispatch_defs)
next
  case (hsv3 x y)
  show ?thesis unfolding hsv3(1,2) layer_format.simps
    by (rule seals_lift [OF tor1_contract_orig [OF hsv3(3) assms(2), of cmd, folded tor1_inbound_same seals_def]]) (simp_all add: dispatch_defs)
next
  case (cgo x y)
  show ?thesis unfolding cgo(1,2) layer_format.simps
    by (rule seals_lift [OF cgo_contract_orig_in [OF cgo(3) assms(2), of cmd, folded seals_def]]) (simp_all add: dispatch_defs)
qed

lemma layer_wraps_outbound:
  assumes "layer_sync K a b" "length cell = 509"
  shows "wraps (client_encrypt_outbound K cmd) (relay_decrypt_outbound K cmd) (layer_sync K) a b cell"
  using assms(1)
proof (cases rule: layer_sync_cases)
  case (tor1 x y)
  show ?thesis unfolding tor1(1,2)
    by (rule wraps_lift [OF tor1_contract_enc [OF tor1(3) assms(2), of cmd, folded wraps_def]]) (simp_all add: dispatch_defs)
next
  case (hsv3 x y)
  show ?thesis unfolding hsv3(1,2)
    by (rule wraps_lift [OF tor1_contract_enc [OF hsv3(3) assms(2), of cmd, folded wraps_def]]) (simp_all add: dispatch_defs)
next
  case (cgo x y)
  show ?thesis unfolding cgo(1,2)
    by (rule wraps_lift [OF cgo_contract_enc_out [OF cgo(3) assms(2), of cmd, folded wraps_def]]) (simp_all add: dispatch_defs)
qed

lemma layer_wraps_inbound:
  assumes "layer_sync K a b" "length cell = 509"
  shows "wraps (relay_encrypt_inbound K cmd) (client_decrypt_inbound K cmd) (layer_sync K) a b cell"
  using assms(1)
proof (cases rule: layer_sync_cases)
  case (tor1 x y)
  show ?thesis unfolding tor1(1,2)
    by (rule wraps_lift [OF tor1_contract_enc [OF tor1(3) assms(2), of cmd, folded tor1_inbound_same wraps_def]]) (simp_all add: dispatch_defs)
next
  case (hsv3 x y)
  show ?thesis unfolding hsv3(1,2)
    by (rule wraps_lift [OF tor1_contract_enc [OF hsv3(3) assms(2), of cmd, folded tor1_inbound_same wraps_def]]) (simp_all add: dispatch_defs)
next
  case (cgo x y)
  show ?thesis unfolding cgo(1,2)
    by (rule wraps_lift [OF cgo_contract_enc_in [OF cgo(3) assms(2), of cmd, folded wraps_def]]) (simp_all add: dispatch_defs)
qed

lemma box_sync_cases:
  assumes "box_sync K c r"
  obtains (client) a b where "c = ClientOutbound a" "r = ResponderInbound b" "layer_sync K a b"
    | (responder) a b where "c = ResponderOutbound a" "r = ClientInbound b" "layer_sync K a b"
  using assms by (cases "(K, c, r)" rule: box_sync.cases) auto

lemma box_seals:
  assumes "box_sync K c r" "length cell = 509"
  shows "seals (originate_for K cmd) (decrypt_inbound K cmd) (box_sync K) (box_format c) c r cell"
  using assms(1)
proof (cases rule: box_sync_cases)
  case (client a b)
  show ?thesis unfolding client(1,2) box_format.simps
    by (rule seals_lift [OF layer_seals_outbound [OF client(3) assms(2), of cmd]]) (simp_all add: originate_for_def decrypt_inbound_def)
next
  case (responder a b)
  show ?thesis unfolding responder(1,2) box_format.simps
    by (rule seals_lift [OF layer_seals_inbound [OF responder(3) assms(2), of cmd]]) (simp_all add: originate_for_def decrypt_inbound_def)
qed

lemma box_wraps:
  assumes "box_sync K c r" "length cell = 509"
  shows "wraps (encrypt_outbound K cmd) (decrypt_inbound K cmd) (box_sync K) c r cell"
  using assms(1)
proof (cases rule: box_sync_cases)
  case (client a b)
  show ?thesis unfolding client(1,2)
    by (rule wraps_lift [OF layer_wraps_outbound [OF client(3) assms(2), of cmd]]) (simp_all add: encrypt_outbound_def decrypt_inbound_def)
next
  case (responder a b)
  show ?thesis unfolding responder(1,2)
    by (rule wraps_lift [OF layer_wraps_inbound [OF responder(3) assms(2), of cmd]]) (simp_all add: encrypt_outbound_def decrypt_inbound_def)
qed

interpretation boxed: onion_layer "originate_for K" "encrypt_outbound K" "decrypt_inbound K" "box_sync K"
  "\<lambda>c. body_fields (box_format c)" for K :: "('sc, 'd, 'eb, 'pb, 'pv, 'st) crypto_lib"
  by unfold_locales (fact box_seals [unfolded seals_def], fact box_wraps [unfolded wraps_def])

text \<open>The two parties of a handshake build layers that are in step.\<close>

lemma cgo_initialize_nonce:
  assumes "cgo_initialize L seed = Inr p"
  shows "length (nonce (cgo_outbound p)) = BLK_LEN \<and> length (nonce (cgo_inbound p)) = BLK_LEN"
  using assms
  by (auto simp: cgo_initialize_def cgo_state_initialize_def Let_def res_bind_Inr_iff split: if_splits sum.splits)

lemma construct_agrees:
  assumes "lib_laws K" "construct_client_layers K p Initiator expand = Inr a"
    "construct_client_layers K p Responder expand = Inr b"
  shows "box_sync K (bl_fwd a) (bl_back b)" "box_sync K (bl_fwd b) (bl_back a)" "bl_binding a = bl_binding b"
    "box_format (bl_fwd a) = layer_cell_format p" "box_format (bl_fwd b) = layer_cell_format p"
  using assms
  by (auto dest: cgo_initialize_nonce simp: construct_client_layers_def construct_def crypt_construct_def res_bind_Inr_iff tor1_split_client_layer_def
      tor1_split_relay_layer_def cgo_split_client_layer_def cgo_split_relay_layer_def lib_laws_def layer_cell_format_def
      tor1_sync_def cgo_sync_def split: relay_crypt_layer_protocol.splits relay_cell_format.splits)

end
