(* ===== verification/Circ_Hop.thy ===== *)
theory Circ_Hop
  imports Stream_Map Congestion Client_Layers
begin

text \<open>
  One hop of a circuit as the reactor sees it (\<open>tor-proto/src/tunnel/reactor/circuit/circhop.rs\<close>):
  its streams, its congestion control and its limits on cells, and the list of the hops. The
  parameters are those of \<open>Stream_Map\<close>. The mutex around the stream map is not modelled: the
  operations of a hop run one after the other.
\<close>

section \<open>Hops\<close>

record hop_settings =
  hs_ccontrol :: cc_params
  hs_protocol :: relay_crypt_layer_protocol
  hs_n_incoming :: "u32 option"
  hs_n_outgoing :: "u32 option"

record ('c, 'v, 'r) circ_hop =
  hop_number :: hop_num
  hop_map :: "('c, 'v, 'r) stream_map"
  ccontrol :: congestion_control
  relay_format :: relay_cell_format
  n_incoming_cells_permitted :: "u32 option"
  n_outgoing_cells_permitted :: "u32 option"

record send_relay_cell =
  src_hop :: hop_num
  src_early :: bool
  src_cell :: "any_relay_msg relay_msg_outer"

datatype close_stream_behavior = SendNothing | SendEnd end_msg

definition close_behavior_default :: close_stream_behavior where
  "close_behavior_default = SendEnd End_new_misc"

text \<open>A message of a multipath circuit that arrived out of order, and why a circuit leaves the set.\<close>

record ooo_relay_msg =
  ooo_seqno :: u64
  ooo_hopnum :: hop_num
  ooo_counts :: bool
  ooo_streamid :: stream_id
  ooo_msg :: unparsed_relay_msg

datatype remove_leg_reason =
    ConfluxHandshakeTimeout
  | ConfluxHandshakeErr proto_error
  | ChannelClosed

datatype circuit_cmd =
    CmdSend send_relay_cell
  | CmdHandleSendMe hop_num sendme_msg
  | CmdCloseStream hop_num stream_id close_stream_behavior terminate_reason
  | CmdConfluxRemove remove_leg_reason
  | CmdConfluxHandshakeComplete send_relay_cell
  | CmdCleanShutdown
  | CmdEnqueue ooo_relay_msg

definition cvt_limit :: "u32 \<Rightarrow> u32" where
  "cvt_limit limit = saturating_add_w limit 1"

definition hop_new :: "hop_num \<Rightarrow> hop_settings \<Rightarrow> stream_id \<Rightarrow> proto_error + ('c, 'v, 'r) circ_hop" where
  "hop_new num settings first =
     res_bind (cc_new (hs_ccontrol settings)) (\<lambda>cc.
     Inr \<lparr>hop_number = num, hop_map = sm_new first, ccontrol = cc, relay_format = layer_cell_format (hs_protocol settings),
          n_incoming_cells_permitted = map_option cvt_limit (hs_n_incoming settings),
          n_outgoing_cells_permitted = map_option cvt_limit (hs_n_outgoing settings)\<rparr>)"

abbreviation on_map :: "(('c, 'v, 'r) stream_map, 'a) op \<Rightarrow> (('c, 'v, 'r) circ_hop, 'a) op" where
  "on_map \<equiv> op_field hop_map (\<lambda>m h. h\<lparr>hop_map := m\<rparr>)"

abbreviation SEND_WINDOW_INIT :: u16 where "SEND_WINDOW_INIT \<equiv> 500"

definition build_flow_ctrl :: "u64 \<Rightarrow> nat \<Rightarrow> ('c, 'v, 'r) circ_hop \<Rightarrow> stream_flow_control" where
  "build_flow_ctrl rate drains h =
     (if alg_uses_stream_sendme (cc_alg (ccontrol h)) then new_window_based SEND_WINDOW_INIT
      else new_xon_xoff_based rate drains)"

definition hop_begin_stream ::
  "any_relay_msg \<Rightarrow> ('c, 'v) stream_queue \<Rightarrow> 'r \<Rightarrow> u64 \<Rightarrow> nat \<Rightarrow> cmd_checker \<Rightarrow>
     (('c, 'v, 'r) circ_hop, send_relay_cell \<times> stream_id) op" where
  "hop_begin_stream message snk r rate drains checker h =
     op_bind (on_map (add_ent snk r (build_flow_ctrl rate drains h) checker)) (\<lambda>i h.
     (Inr (\<lparr>src_hop = hop_number h, src_early = False, src_cell = \<lparr>streamid = Some i, rmsg = message\<rparr>\<rparr>, i), h)) h"

definition hop_close_stream ::
  "stream_id \<Rightarrow> close_stream_behavior \<Rightarrow> terminate_reason \<Rightarrow> (('c, 'v, 'r) circ_hop, send_relay_cell option) op" where
  "hop_close_stream i message why =
     op_bind (on_map (sm_terminate i why)) (\<lambda>should_send_end h.
     (Inr (case (should_send_end, message) of
             (SendEndMsg, SendEnd end_message) \<Rightarrow>
               Some \<lparr>src_hop = hop_number h, src_early = False,
                     src_cell = \<lparr>streamid = Some i, rmsg = End end_message\<rparr>\<rparr>
           | _ \<Rightarrow> None), h))"

text \<open>An operation on the entry of an open stream, through \<open>get_mut\<close>.\<close>

definition on_open ::
  "stream_id \<Rightarrow> (('c, 'v, 'r) open_stream_ent, 'a) op \<Rightarrow> (('c, 'v, 'r) stream_map, 'a) op \<Rightarrow>
     (('c, 'v, 'r) stream_map, 'a) op" where
  "on_open i f otherwise m =
     (case sm_get i m of
        Some (OpenEnt ent) \<Rightarrow> (case f ent of (r, ent) \<Rightarrow> (r, sm_set_open i ent m))
      | _ \<Rightarrow> otherwise m)"

definition hop_maybe_send_xon :: "xon_kbps_ewma \<Rightarrow> stream_id \<Rightarrow> (('c, 'v, 'r) circ_hop, xon_msg option) op" where
  "hop_maybe_send_xon rate i h =
     (if \<not> alg_uses_xon_xoff (cc_alg (ccontrol h)) then (Inr None, h)
      else on_map (on_open i (ent_maybe_send_xon rate) (op_ret None)) h)"

definition hop_maybe_send_xoff :: "stream_id \<Rightarrow> (('c, 'v, 'r) circ_hop, u8 option) op" where
  "hop_maybe_send_xoff i h =
     (if \<not> alg_uses_xon_xoff (cc_alg (ccontrol h)) then (Inr None, h)
      else on_map (on_open i ent_maybe_send_xoff (op_ret None)) h)"

definition hop_take_capacity_to_send :: "stream_id \<Rightarrow> any_relay_msg \<Rightarrow> (('c, 'v, 'r) circ_hop, unit) op" where
  "hop_take_capacity_to_send i u =
     on_map (on_open i (ent_take_capacity_to_send u)
       (op_fail (CircProto ''tried to send a relay cell on non-open stream'')))"

definition hop_add_ent_with_id ::
  "('c, 'v) stream_queue \<Rightarrow> 'r \<Rightarrow> u64 \<Rightarrow> nat \<Rightarrow> stream_id \<Rightarrow> cmd_checker \<Rightarrow> (('c, 'v, 'r) circ_hop, unit) op" where
  "hop_add_ent_with_id snk r rate drains i checker h =
     on_map (add_ent_with_id snk r (build_flow_ctrl rate drains h) i checker) h"

definition hop_ending_msg_received :: "stream_id \<Rightarrow> (('c, 'v, 'r) circ_hop, unit) op" where
  "hop_ending_msg_received i = on_map (ending_msg_received i)"

definition hop_decode :: "bytes \<Rightarrow> ('c, 'v, 'r) circ_hop \<Rightarrow> proto_error + relay_cell_decoder_result" where
  "hop_decode cell h =
     (case decoder_decode (relay_format h) cell of
        Inl e \<Rightarrow> Inl (BytesErr e ''relay cell'')
      | Inr r \<Rightarrow> Inr r)"

text \<open>
  Delivering a message to an open stream. The result is whether the message closes the stream,
  and the waker that is woken.
\<close>

definition send_to_sink ::
  "'c chan_send \<Rightarrow> bool \<Rightarrow> unparsed_relay_msg \<Rightarrow> stream_status \<Rightarrow>
     (('c, 'v, 'r) open_stream_ent, bool \<times> stream_id option option) op" where
  "send_to_sink chan_send cell_counts_toward_windows u status e =
     (case queue_try_send chan_send u (sink e) of
        (Inl panic, q) \<Rightarrow> (Inl (Panic panic), e\<lparr>sink := q\<rparr>)
      | (Inr (Inr _), q) \<Rightarrow> (Inr (status = StreamClosed, None), e\<lparr>sink := q\<rparr>)
      | (Inr (Inl SinkFull), q) \<Rightarrow>
          (Inl (ProtoBug ''Stream uses an unbounded queue, but apparently it's full?''), e\<lparr>sink := q\<rparr>)
      | (Inr (Inl SinkDisconnected), q) \<Rightarrow>
          (Inr (status = StreamClosed, None),
           e\<lparr>sink := q, ent_dropped := ent_dropped e + (if cell_counts_toward_windows then 1 else 0)\<rparr>))"

definition deliver_msg_to_stream ::
  "'c chan_send \<Rightarrow> bool \<Rightarrow> unparsed_relay_msg \<Rightarrow>
     (('c, 'v, 'r) open_stream_ent, bool \<times> stream_id option option) op" where
  "deliver_msg_to_stream chan_send cell_counts_toward_windows u =
     (let cmd = unparsed_cmd u in
      if cmd = RelayCmd_SENDME then op_bind (ent_put_for_incoming_sendme u) (\<lambda>w. op_ret (False, w))
      else if cmd = RelayCmd_XON then op_bind (ent_flow (handle_incoming_xon u)) (\<lambda>_. op_ret (False, None))
      else if cmd = RelayCmd_XOFF then op_bind (ent_flow (handle_incoming_xoff u)) (\<lambda>_. op_ret (False, None))
      else
        op_bind (op_field ent_checker (\<lambda>c e. e\<lparr>ent_checker := c\<rparr>) (check_msg u))
          (send_to_sink chan_send cell_counts_toward_windows u))"

abbreviation begins_stream :: "relay_cmd \<Rightarrow> bool" where
  "begins_stream cmd \<equiv> cmd = RelayCmd_BEGIN \<or> cmd = RelayCmd_BEGIN_DIR \<or> cmd = RelayCmd_RESOLVE"

definition map_handle_msg ::
  "'c chan_send \<Rightarrow> bool \<Rightarrow> stream_id \<Rightarrow> unparsed_relay_msg \<Rightarrow>
     (('c, 'v, 'r) stream_map, unparsed_relay_msg option) op" where
  "map_handle_msg chan_send cell_counts_toward_windows i u m =
     (case sm_get i m of
        Some (OpenEnt ent) \<Rightarrow>
          (case deliver_msg_to_stream chan_send cell_counts_toward_windows u ent of
             (Inl e, ent) \<Rightarrow> (Inl e, sm_set_open i ent m)
           | (Inr (message_closes_stream, w), ent) \<Rightarrow>
               (let m = sm_set_open i ent m;
                    m = m\<lparr>open_streams := wake_set w (open_streams m)\<rparr> in
                if message_closes_stream
                then op_bind (ending_msg_received i) (\<lambda>_. op_ret None) m
                else (Inr None, m)))
      | Some (EndSentEnt e) \<Rightarrow>
          (if begins_stream (unparsed_cmd u)
           then op_bind (ending_msg_received i) (\<lambda>_. op_ret (Some u)) m
           else
             (case half_handle_msg u (half_stream_of e) of
                (Inl err, h) \<Rightarrow> (Inl err, sm_set_end_sent i (e\<lparr>half_stream_of := h\<rparr>) m)
              | (Inr StreamOpen, h) \<Rightarrow> (Inr None, sm_set_end_sent i (e\<lparr>half_stream_of := h\<rparr>) m)
              | (Inr StreamClosed, h) \<Rightarrow>
                  op_bind (ending_msg_received i) (\<lambda>_. op_ret None)
                    (sm_set_end_sent i (e\<lparr>half_stream_of := h\<rparr>) m)))
      | Some EndReceivedEnt \<Rightarrow> (Inl (CircProto ''Cell received on nonexistent stream!?''), m)
      | None \<Rightarrow>
          (if begins_stream (unparsed_cmd u) then (Inr (Some u), m)
           else (Inl (CircProto ''Cell received on nonexistent stream!?''), m)))"

definition hop_handle_msg ::
  "'c chan_send \<Rightarrow> bool \<Rightarrow> stream_id \<Rightarrow> unparsed_relay_msg \<Rightarrow>
     (('c, 'v, 'r) circ_hop, unparsed_relay_msg option) op" where
  "hop_handle_msg chan_send cell_counts_toward_windows i u =
     on_map (map_handle_msg chan_send cell_counts_toward_windows i u)"

definition hop_n_open_streams :: "('c, 'v, 'r) circ_hop \<Rightarrow> nat" where
  "hop_n_open_streams h = n_open_streams (hop_map h)"

definition set_stream_map :: "('c, 'v, 'r) stream_map \<Rightarrow> (('c, 'v, 'r) circ_hop, unit) op" where
  "set_stream_map m h =
     (if hop_n_open_streams h \<noteq> 0 then (Inl (ProtoBug ''Tried to discard existing open streams?!''), h)
      else (Inr (), h\<lparr>hop_map := m\<rparr>))"

definition try_decrement_cell_limit :: "u32 option \<Rightarrow> u32 option option" where
  "try_decrement_cell_limit val =
     (case val of
        Some x \<Rightarrow> if x = 1 then None else Some (Some (x - 1))
      | None \<Rightarrow> Some None)"

definition decrement_outbound_cell_limit :: "(('c, 'v, 'r) circ_hop, unit) op" where
  "decrement_outbound_cell_limit h =
     (case try_decrement_cell_limit (n_outgoing_cells_permitted h) of
        None \<Rightarrow> (Inl ExcessOutboundCells, h)
      | Some v \<Rightarrow> (Inr (), h\<lparr>n_outgoing_cells_permitted := v\<rparr>))"

definition decrement_inbound_cell_limit :: "(('c, 'v, 'r) circ_hop, unit) op" where
  "decrement_inbound_cell_limit h =
     (case try_decrement_cell_limit (n_incoming_cells_permitted h) of
        None \<Rightarrow> (Inl ExcessInboundCells, h)
      | Some v \<Rightarrow> (Inr (), h\<lparr>n_incoming_cells_permitted := v\<rparr>))"

section \<open>The list of hops\<close>

type_synonym ('c, 'v, 'r) circ_hop_list = "('c, 'v, 'r) circ_hop list"

definition hops_get :: "hop_num \<Rightarrow> ('c, 'v, 'r) circ_hop_list \<Rightarrow> ('c, 'v, 'r) circ_hop option" where
  "hops_get n hops = (if unat n < length hops then Some (hops ! unat n) else None)"

definition hops_push :: "('c, 'v, 'r) circ_hop \<Rightarrow> ('c, 'v, 'r) circ_hop_list \<Rightarrow> ('c, 'v, 'r) circ_hop_list" where
  "hops_push h hops = hops @ [h]"

definition has_streams :: "('c, 'v, 'r) circ_hop_list \<Rightarrow> bool" where
  "has_streams hops \<longleftrightarrow> list_ex (\<lambda>h. n_open_streams (hop_map h) > 0) hops"

definition hops_n_open_streams :: "('c, 'v, 'r) circ_hop_list \<Rightarrow> nat" where
  "hops_n_open_streams hops = sum_list (map hop_n_open_streams hops)"

text \<open>The future \<open>ready_streams_iterator\<close> makes for a hop, polled once.\<close>

definition hop_poll_ready :: "'r rx_next \<Rightarrow> hop_num \<Rightarrow> (('c, 'v, 'r) stream_map, circuit_cmd poll) op" where
  "hop_poll_ready n num =
     op_bind (poll_ready_streams_iter n) (\<lambda>ready m.
       case ready of
         [] \<Rightarrow> (Inr Pending, m)
       | (i, None) # _ \<Rightarrow>
           (Inr (Ready (CmdCloseStream num i close_behavior_default StreamTargetClosed)), m)
       | (i, Some _) # _ \<Rightarrow>
           (case take_ready_msg n i m of
              (Inl e, m) \<Rightarrow> (Inl e, m)
            | (Inr None, m) \<Rightarrow> (Inl (Panic ''msg disappeared''), m)
            | (Inr (Some u), m) \<Rightarrow>
                (case sm_get i m of
                   Some (OpenEnt _) \<Rightarrow>
                     (Inr (Ready (CmdSend \<lparr>src_hop = num, src_early = False,
                                           src_cell = \<lparr>streamid = Some i, rmsg = u\<rparr>\<rparr>)), m)
                 | _ \<Rightarrow> (Inl (Panic ''Stream disappeared''), m))))"

text \<open>Which hops it polls: those that are not excluded and whose congestion control permits sending.\<close>

definition ready_hops :: "hop_num option \<Rightarrow> ('c, 'v, 'r) circ_hop_list \<Rightarrow> hop_num list" where
  "ready_hops exclude hops =
     List.map_filter (\<lambda>(i, h). if exclude = Some (of_nat i) then None
                       else if \<not> cc_can_send (ccontrol h) then None else Some (of_nat i))
       (enumerate 0 hops)"

section \<open>Streams changed in place\<close>

text \<open>When a stream waits for its waker: on its messages, or on flow control.\<close>

lemma ent_armed_iff:
  "armed (ent_poll_peek n) i e \<longleftrightarrow>
     (\<exists>p. poll_peek n (Some i) p = (Pending, rx e)) \<or>
     (\<exists>p m. poll_peek n (Some i) p = (Ready (Some m), rx e) \<and> \<not> ent_can_send m e \<and>
        flow_ctrl_waker e = Some (Some i))" (is "?l \<longleftrightarrow> ?r")
proof
  assume ?l
  then obtain e0 where "ent_poll_peek n (Some i) e0 = (Pending, e)" by (auto simp: armed_def)
  then show ?r
    by (auto simp: ent_poll_peek_def ent_can_send_def Let_def split: prod.splits poll.splits option.splits if_splits)
next
  assume ?r
  then show ?l
  proof (elim disjE exE conjE)
    fix p assume "poll_peek n (Some i) p = (Pending, rx e)"
    then have "ent_poll_peek n (Some i) (e\<lparr>rx := p\<rparr>) = (Pending, e)" by (simp add: ent_poll_peek_def)
    then show ?l by (auto simp: armed_def)
  next
    fix p m
    assume f: "poll_peek n (Some i) p = (Ready (Some m), rx e)" "\<not> ent_can_send m e"
      "flow_ctrl_waker e = Some (Some i)"
    then have "e\<lparr>flow_ctrl_waker := Some (Some i)\<rparr> = e" by (cases e) simp
    with f have "ent_poll_peek n (Some i) (e\<lparr>rx := p\<rparr>) = (Pending, e)"
      by (simp add: ent_poll_peek_def ent_can_send_def Let_def)
    then show ?l by (auto simp: armed_def)
  qed
qed

lemma ent_ready_iff:
  "(\<forall>w. ent_poll_peek n w e = (Ready r, e)) \<longleftrightarrow>
     (\<forall>w. poll_peek n w (rx e) = (Ready r, rx e)) \<and> (\<forall>m. r = Some m \<longrightarrow> ent_can_send m e)"
proof -
  have "ent_poll_peek n w e = (Ready r, e) \<longleftrightarrow>
      poll_peek n w (rx e) = (Ready r, rx e) \<and> (\<forall>m. r = Some m \<longrightarrow> ent_can_send m e)" for w
    by (cases e) (auto simp: ent_poll_peek_def ent_can_send_def Let_def split: prod.splits poll.splits option.splits)
  then show ?thesis by blast
qed

lemma ent_ready_peek:
  assumes "\<forall>w. ent_poll_peek n w e = (Ready r, e)"
  shows "ent_unobtrusive_peek n e = (r, None, e)"
proof -
  have p: "poll_peek n w (rx e) = (Ready r, rx e)" and c: "\<forall>m. r = Some m \<longrightarrow> ent_can_send m e" for w
    using assms unfolding ent_ready_iff by auto
  have "unobtrusive_peek n (rx e) = (r, None, rx e)"
    using poll_peek_ready [OF p] by (cases r) (auto simp: unobtrusive_peek_def)
  then show ?thesis using c by (cases r) (auto simp: ent_unobtrusive_peek_def ent_can_send_def)
qed

text \<open>Everything but the messages to send may change, as long as flow control does not get tighter.\<close>

definition no_tighter :: "('c, 'v, 'r) open_stream_ent \<Rightarrow> ('c, 'v, 'r) open_stream_ent \<Rightarrow> bool" where
  "no_tighter e e' \<longleftrightarrow> rx e' = rx e \<and> (\<forall>m. ent_can_send m e \<longrightarrow> ent_can_send m e')"

definition no_looser :: "('c, 'v, 'r) open_stream_ent \<Rightarrow> ('c, 'v, 'r) open_stream_ent \<Rightarrow> bool" where
  "no_looser e e' \<longleftrightarrow> flow_ctrl_waker e' = flow_ctrl_waker e \<and> (\<forall>m. ent_can_send m e' \<longrightarrow> ent_can_send m e)"

lemma ready_no_tighter:
  assumes "no_tighter e e'" and "\<forall>w. ent_poll_peek n w e = (Ready r, e)"
  shows "\<forall>w. ent_poll_peek n w e' = (Ready r, e')"
  using assms unfolding ent_ready_iff no_tighter_def by auto

lemma armed_no_looser:
  assumes "no_tighter e e'" and "no_looser e e'" and "armed (ent_poll_peek n) i e"
  shows "armed (ent_poll_peek n) i e'"
  using assms unfolding ent_armed_iff no_tighter_def no_looser_def by auto

abbreviation sm_good :: "'r rx_next \<Rightarrow> ('c, 'v, 'r) stream_map \<Rightarrow> bool" where
  "sm_good n m \<equiv> ps_good (ent_poll_peek n) (open_streams m) \<and> next_stream_id m \<noteq> 0"

lemma sm_good_ok: "sm_good n m \<Longrightarrow> sm_ok m"
  by (simp add: sm_ok_def ps_good_def)

lemma sm_get_open:
  assumes "sm_ok m"
  shows "sm_get i m = Some (OpenEnt e) \<longleftrightarrow> (\<exists>p. ps_abs (open_streams m) i = Some (p, e))"
proof -
  have "ps_stream i (open_streams m) = map_option snd (ps_abs (open_streams m) i)"
    using assms by (intro ps_stream_abs) (simp add: sm_ok_def)
  then show ?thesis
    by (cases "ps_abs (open_streams m) i")
      (auto simp: sm_get_def split: option.splits closed_stream_ent.splits)
qed

lemma sm_set_open_good:
  assumes g: "sm_good n m" and e: "ps_abs (open_streams m) i = Some (p, e)"
    and q: "no_tighter e e'" "no_looser e e'"
  shows "sm_good n (sm_set_open i e' m)"
proof -
  have "ps_good (ent_poll_peek n) (if False then ps_wake i (ps_set_stream i e' (open_streams m))
      else ps_set_stream i e' (open_streams m))"
    using g e ready_no_tighter [OF q(1)] armed_no_looser [OF q]
    by (intro ps_set_stream_good) auto
  then show ?thesis using g by (simp add: sm_set_open_def)
qed

section \<open>Messages that arrive\<close>

lemma put_sendme_loosens:
  assumes "put_for_incoming_sendme u f = (r, f')" and "flow_can_send c f"
  shows "flow_can_send c f'"
proof (cases f)
  case (WindowBased w)
  show ?thesis
  proof (cases "send_window_put StreamParams w")
    case (Pair r1 w1)
    have "w > 0 \<Longrightarrow> w1 > 0"
    proof -
      assume "w > 0"
      then show "w1 > 0"
      proof (cases r1)
        case (Inr x)
        then have "unat w1 = unat w + 50" using send_window_put_stream Pair by blast
        then show ?thesis by (simp add: word_greater_zero_iff unat_gt_0 [symmetric])
      qed (use Pair \<open>w > 0\<close> in \<open>auto simp: send_window_put_def StreamParams_def split: option.splits if_splits\<close>)
    qed
    then show ?thesis using assms WindowBased Pair
      by (auto simp: put_for_incoming_sendme_def flow_can_send_def split: sum.splits)
  qed
qed (use assms in \<open>auto simp: put_for_incoming_sendme_def\<close>)

lemma put_sendme_refused:
  "put_for_incoming_sendme u f = (Inl e, f') \<Longrightarrow> f' = f"
  by (auto simp: put_for_incoming_sendme_def send_window_put_def split: stream_flow_control.splits sum.splits
      option.splits if_splits prod.splits)

lemma xon_xoff_same_can_send:
  "handle_incoming_xon u f = (r, f') \<Longrightarrow> flow_can_send c f' = flow_can_send c f"
  "handle_incoming_xoff u f = (r2, f') \<Longrightarrow> flow_can_send c f' = flow_can_send c f"
  "maybe_send_xon rate k f = (r3, f') \<Longrightarrow> flow_can_send c f' = flow_can_send c f"
  "maybe_send_xoff k f = (r4, f') \<Longrightarrow> flow_can_send c f' = flow_can_send c f"
  by (auto simp: handle_incoming_xon_def handle_incoming_xoff_def maybe_send_xon_def maybe_send_xoff_def
      flow_can_send_def Let_def split: stream_flow_control.splits sum.splits if_splits)

lemma ent_flow_cases:
  assumes "ent_flow f e = (r, e')"
  obtains f' where "f (flow_ctrl e) = (r, f')" "e' = e\<lparr>flow_ctrl := f'\<rparr>"
  using assms by (auto simp: op_field_def split: prod.splits)

lemma flow_quiet:
  assumes "\<And>f r f' c. g f = (r, f') \<Longrightarrow> flow_can_send c f' = flow_can_send c f"
  shows "no_tighter e (snd (ent_flow g e)) \<and> no_looser e (snd (ent_flow g e))"
proof -
  obtain r f' where "g (flow_ctrl e) = (r, f')" by fastforce
  with assms [OF this] show ?thesis
    by (simp add: op_field_def no_tighter_def no_looser_def ent_can_send_def)
qed

lemma snd_op_bind_ret: "snd (op_bind f (\<lambda>_. op_ret x) s) = snd (f s)"
  by (simp add: op_bind_def op_ret_def split: prod.split sum.split)

text \<open>The text of the only panic: more than \<open>usize::MAX\<close> bytes queued for a stream.\<close>

abbreviation queue_overflow :: string where
  "queue_overflow \<equiv> ''queue has more than `usize::MAX` bytes?!''"

lemma send_to_sink_only:
  assumes "send_to_sink cs c u st e = (r, e')"
  shows "rx e' = rx e \<and> flow_ctrl e' = flow_ctrl e \<and> flow_ctrl_waker e' = flow_ctrl_waker e"
  using assms by (auto simp: send_to_sink_def split: prod.splits sum.splits send_error.splits)

lemma deliver_quiet:
  assumes d: "deliver_msg_to_stream cs c u e = (r, e')"
  shows "no_tighter e e' \<and> (no_looser e e' \<or> (\<exists>b. r = Inr (b, flow_ctrl_waker e)))"
proof -
  consider (sendme) "unparsed_cmd u = RelayCmd_SENDME" | (xon) "unparsed_cmd u = RelayCmd_XON"
    | (xoff) "unparsed_cmd u = RelayCmd_XOFF"
    | (other) "unparsed_cmd u \<noteq> RelayCmd_SENDME" "unparsed_cmd u \<noteq> RelayCmd_XON" "unparsed_cmd u \<noteq> RelayCmd_XOFF"
    by blast
  then show ?thesis
  proof cases
    case sendme
    obtain r1 e1 where p: "ent_flow (put_for_incoming_sendme u) e = (r1, e1)" by fastforce
    then obtain f where f: "put_for_incoming_sendme u (flow_ctrl e) = (r1, f)" "e1 = e\<lparr>flow_ctrl := f\<rparr>"
      by (rule ent_flow_cases)
    show ?thesis
    proof (cases r1)
      case (Inl x)
      then have "f = flow_ctrl e" using f(1) put_sendme_refused by blast
      then show ?thesis using d sendme p f Inl
        by (auto simp: deliver_msg_to_stream_def ent_put_for_incoming_sendme_def op_bind_def no_tighter_def
            no_looser_def ent_can_send_def)
    next
      case (Inr x)
      then show ?thesis using d sendme p f put_sendme_loosens [OF f(1)]
        by (auto simp: deliver_msg_to_stream_def ent_put_for_incoming_sendme_def op_bind_def op_ret_def
            no_tighter_def ent_can_send_def)
    qed
  next
    case xon
    then have "op_bind (ent_flow (handle_incoming_xon u)) (\<lambda>_. op_ret (False, None)) e = (r, e')"
      using d by (simp add: deliver_msg_to_stream_def)
    from arg_cong [OF this, of snd] have "snd (ent_flow (handle_incoming_xon u) e) = e'"
      by (simp only: snd_op_bind_ret snd_conv)
    moreover have "no_tighter e (snd (ent_flow (handle_incoming_xon u) e)) \<and> no_looser e (snd (ent_flow (handle_incoming_xon u) e))"
      by (rule flow_quiet) (rule xon_xoff_same_can_send(1))
    ultimately show ?thesis by simp
  next
    case xoff
    then have "op_bind (ent_flow (handle_incoming_xoff u)) (\<lambda>_. op_ret (False, None)) e = (r, e')"
      using d by (simp add: deliver_msg_to_stream_def)
    from arg_cong [OF this, of snd] have "snd (ent_flow (handle_incoming_xoff u) e) = e'"
      by (simp only: snd_op_bind_ret snd_conv)
    moreover have "no_tighter e (snd (ent_flow (handle_incoming_xoff u) e)) \<and> no_looser e (snd (ent_flow (handle_incoming_xoff u) e))"
      by (rule flow_quiet) (rule xon_xoff_same_can_send(2))
    ultimately show ?thesis by simp
  next
    case other
    obtain st c' where k: "check_msg u (ent_checker e) = (st, c')" by fastforce
    have "rx e' = rx e \<and> flow_ctrl e' = flow_ctrl e \<and> flow_ctrl_waker e' = flow_ctrl_waker e"
    proof (cases st)
      case (Inl x)
      then have "e' = e\<lparr>ent_checker := c'\<rparr>"
        using d other k by (simp add: deliver_msg_to_stream_def op_bind_def op_field_def)
      then show ?thesis by simp
    next
      case (Inr x)
      then have "send_to_sink cs c u x (e\<lparr>ent_checker := c'\<rparr>) = (r, e')"
        using d other k by (simp add: deliver_msg_to_stream_def op_bind_def op_field_def)
      from send_to_sink_only [OF this] show ?thesis by simp
    qed
    then show ?thesis by (simp add: no_tighter_def no_looser_def ent_can_send_def)
  qed
qed

lemma no_panic_flow:
  "put_for_incoming_sendme u f \<noteq> (Inl (Panic s), f')"
  "handle_incoming_xon u f \<noteq> (Inl (Panic s), f')"
  "handle_incoming_xoff u f \<noteq> (Inl (Panic s), f')"
  by (auto simp: put_for_incoming_sendme_def handle_incoming_xon_def handle_incoming_xoff_def send_window_put_def
      Let_def split: stream_flow_control.splits sum.splits option.splits if_splits prod.splits)

lemma no_panic_check: "check_msg u c \<noteq> (Inl (Panic s), c')"
  by (auto simp: check_msg_def check_cmd_def data_check_msg_def resolve_check_msg_def incoming_check_msg_def
      split: cmd_checker.splits if_splits)

lemma queue_try_send_panic: "queue_try_send cs u q = (Inl s, q') \<Longrightarrow> s = queue_overflow"
  by (auto simp: queue_try_send_def Let_def split: option.splits prod.splits sum.splits if_splits)

lemma op_bind_fails:
  "op_bind f g s = (Inl e, s') \<longleftrightarrow> f s = (Inl e, s') \<or> (\<exists>x t. f s = (Inr x, t) \<and> g x t = (Inl e, s'))"
  by (auto simp: op_bind_def split: prod.splits sum.splits)

lemma op_field_fails: "op_field get upd f s = (Inl e, s') \<longleftrightarrow> (\<exists>t. f (get s) = (Inl e, t) \<and> s' = upd t s)"
  by (auto simp: op_field_def split: prod.splits)

lemma send_to_sink_panic:
  assumes "send_to_sink cs c u st e = (Inl (Panic s), e')"
  shows "s = queue_overflow"
  using assms queue_try_send_panic [of cs u "sink e"]
  by (auto simp: send_to_sink_def split: prod.splits sum.splits send_error.splits)

lemma deliver_panic:
  assumes "deliver_msg_to_stream cs c u e = (Inl (Panic s), e')"
  shows "s = queue_overflow"
  using assms
  by (auto simp: deliver_msg_to_stream_def ent_put_for_incoming_sendme_def Let_def op_bind_fails op_field_fails
      op_ret_def no_panic_flow no_panic_check split: if_splits dest: send_to_sink_panic)

lemma wake_set_good: "ps_good pk ps \<Longrightarrow> ps_good pk (wake_set w ps)"
  by (auto simp: wake_set_def ps_wake_good split: option.split)

lemma ending_good:
  assumes "sm_good n m" and "ending_msg_received i m = (r, m')"
  shows "sm_good n m' \<and> (\<forall>s. r \<noteq> Inl (Panic s))"
proof -
  obtain x opn where r: "ps_remove i (open_streams m) = (x, opn)" by fastforce
  have "ps_good (ent_poll_peek n) opn" using ps_remove_good [OF _ r] assms(1) by blast
  moreover have "open_streams m' = opn \<and> next_stream_id m' = next_stream_id m"
    using assms(2) r
    by (auto simp: ending_msg_received_def Let_def split: sum.splits option.splits closed_stream_ent.splits)
  ultimately show ?thesis using assms ending_msg_step [OF sm_good_ok [OF assms(1)] assms(2)] by auto
qed

lemma terminate_good:
  assumes "sm_good n m" and "sm_terminate i why m = (r, m')"
  shows "sm_good n m' \<and> (\<forall>s. r \<noteq> Inl (Panic s))"
proof -
  obtain x opn where r: "ps_remove i (open_streams m) = (x, opn)" by fastforce
  have "ps_good (ent_poll_peek n) opn" using ps_remove_good [OF _ r] assms(1) by blast
  moreover have "open_streams m' = opn \<and> next_stream_id m' = next_stream_id m"
    using assms(2) r
    by (auto simp: sm_terminate_def Let_def split: sum.splits option.splits closed_stream_ent.splits prod.splits
        bool.splits terminate_reason.splits)
  ultimately show ?thesis using assms terminate_step [OF sm_good_ok [OF assms(1)] assms(2)] by auto
qed

lemma alloc_loop_good:
  assumes "alloc_loop store k s (x, i) = (res, x', i')" and "P x"
    and "\<And>x r x' i s. P x \<Longrightarrow> store i s x = (r, x') \<Longrightarrow> P x'"
  shows "P x'"
  using assms(1,2)
proof (induction k arbitrary: s x i)
  case (Suc k)
  obtain r1 x1 where s: "store i s x = (r1, x1)" by fastforce
  then have "P x1" using assms(3) Suc.prems(2) by blast
  then show ?case using Suc s by (auto split: sum.splits option.splits)
qed simp

text \<open>A message for an open stream: the SENDME that lifts flow control also reports the stream.\<close>

lemma deliver_good:
  assumes g: "sm_good n m" and e: "ps_abs (open_streams m) i = Some (p, e)"
    and d: "deliver_msg_to_stream cs c u e = (r, e')"
  shows "sm_good n (sm_set_open i e' m) \<or> (\<exists>b. r = Inr (b, flow_ctrl_waker e))"
    and "r = Inr (b, w) \<Longrightarrow>
      ps_good (ent_poll_peek n) (wake_set w (open_streams (sm_set_open i e' m)))"
proof -
  note q = deliver_quiet [OF d]
  show "sm_good n (sm_set_open i e' m) \<or> (\<exists>b. r = Inr (b, flow_ctrl_waker e))"
    using q sm_set_open_good [OF g e] by blast
  assume r: "r = Inr (b, w)"
  show "ps_good (ent_poll_peek n) (wake_set w (open_streams (sm_set_open i e' m)))"
  proof (cases "no_looser e e'")
    case True
    then show ?thesis using sm_set_open_good [OF g e] q wake_set_good by blast
  next
    case False
    then have w: "w = flow_ctrl_waker e" using q r by auto
    let ?wk = "w = Some (Some i)"
    have a: "ps_good (ent_poll_peek n) (if ?wk then ps_wake i (ps_set_stream i e' (open_streams m))
        else ps_set_stream i e' (open_streams m))"
    proof (rule ps_set_stream_good [OF _ e])
      show "ps_good (ent_poll_peek n) (open_streams m)" using g by blast
      show "\<forall>r. (\<forall>w. ent_poll_peek n w e = (Ready r, e)) \<longrightarrow> (\<exists>r. \<forall>w. ent_poll_peek n w e' = (Ready r, e'))"
        using ready_no_tighter q by blast
      show "armed (ent_poll_peek n) i e' \<or> ?wk \<or> i \<in> set (notified (pending_streams (open_streams m)))"
        if "armed (ent_poll_peek n) i e"
        using that q w unfolding ent_armed_iff no_tighter_def by auto
    qed
    show ?thesis
    proof (cases ?wk)
      case True
      then show ?thesis using a by (simp add: wake_set_def sm_set_open_def)
    next
      case False
      then show ?thesis using a wake_set_good by (simp add: sm_set_open_def)
    qed
  qed
qed

lemma sm_set_open_next [simp]: "next_stream_id (sm_set_open i e m) = next_stream_id m"
  "closed_streams (sm_set_open i e m) = closed_streams m"
  by (simp_all add: sm_set_open_def)

lemma sm_set_end_sent_simps [simp]: "open_streams (sm_set_end_sent i e m) = open_streams m"
  "next_stream_id (sm_set_end_sent i e m) = next_stream_id m"
  by (simp_all add: sm_set_end_sent_def)

lemma ending_then_good:
  assumes "sm_good n m" and "op_bind (ending_msg_received i) (\<lambda>_. op_ret x) m = (r, m')"
  shows "sm_good n m' \<and> (\<forall>s. r \<noteq> Inl (Panic s))"
proof -
  obtain r1 m1 where e: "ending_msg_received i m = (r1, m1)" by fastforce
  then show ?thesis using ending_good [OF assms(1) e] assms(2)
    by (cases r1) (auto simp: op_bind_def op_ret_def)
qed

lemma no_panic_half: "half_handle_msg u h \<noteq> (Inl (Panic s), h')"
  by (auto simp: half_handle_msg_def Let_def op_bind_fails op_field_fails op_ret_def no_panic_flow no_panic_check
      recv_window_take_def consume_checked_msg_def split: if_splits cmd_checker.splits sum.splits option.splits)

lemma map_handle_good:
  assumes g: "sm_good n m" and h: "map_handle_msg cs c i u m = (r, m')"
  shows "sm_good n m' \<and> (\<forall>s. r = Inl (Panic s) \<longrightarrow> s = queue_overflow)"
proof (cases "sm_get i m")
  case None
  then show ?thesis using g h by (auto simp: map_handle_msg_def split: if_splits)
next
  case (Some ent)
  show ?thesis
  proof (cases ent)
    case (OpenEnt e)
    then obtain p where e: "ps_abs (open_streams m) i = Some (p, e)"
      using Some sm_get_open [OF sm_good_ok [OF g]] by blast
    obtain r1 e1 where d: "deliver_msg_to_stream cs c u e = (r1, e1)" by fastforce
    show ?thesis
    proof (cases r1)
      case (Inl x)
      then have "r = Inl x \<and> m' = sm_set_open i e1 m" using h Some OpenEnt d by (simp add: map_handle_msg_def)
      then show ?thesis using deliver_good(1) [OF g e d] deliver_panic d Inl by auto
    next
      case (Inr bw)
      obtain b w where bw: "bw = (b, w)" by fastforce
      let ?m = "(sm_set_open i e1 m)\<lparr>open_streams := wake_set w (open_streams (sm_set_open i e1 m))\<rparr>"
      have g1: "sm_good n ?m" using deliver_good(2) [OF g e d] Inr bw g by simp
      have "(if b then op_bind (ending_msg_received i) (\<lambda>_. op_ret None) ?m else (Inr None, ?m)) = (r, m')"
        using h Some OpenEnt d Inr bw by (simp add: map_handle_msg_def Let_def)
      then have "op_bind (ending_msg_received i) (\<lambda>_. op_ret None) ?m = (r, m') \<or> r = Inr None \<and> m' = ?m"
        by (cases b) auto
      then show ?thesis
      proof
        assume "op_bind (ending_msg_received i) (\<lambda>_. op_ret None) ?m = (r, m')"
        from ending_then_good [OF g1 this] show ?thesis by simp
      next
        assume "r = Inr None \<and> m' = ?m"
        then show ?thesis using g1 by simp
      qed
    qed
  next
    case EndReceivedEnt
    then show ?thesis using g h Some by (auto simp: map_handle_msg_def)
  next
    case (EndSentEnt e)
    show ?thesis
    proof (cases "begins_stream (unparsed_cmd u)")
      case True
      then have "op_bind (ending_msg_received i) (\<lambda>_. op_ret (Some u)) m = (r, m')"
        using h Some EndSentEnt by (simp add: map_handle_msg_def)
      from ending_then_good [OF g this] show ?thesis by blast
    next
      case False
      obtain r1 h1 where d: "half_handle_msg u (half_stream_of e) = (r1, h1)" by fastforce
      have g1: "sm_good n (sm_set_end_sent i (e\<lparr>half_stream_of := h1\<rparr>) m)" using g by simp
      show ?thesis
      proof (cases r1)
        case (Inl x)
        then have "r = Inl x \<and> m' = sm_set_end_sent i (e\<lparr>half_stream_of := h1\<rparr>) m"
          using h Some EndSentEnt False d by (auto simp: map_handle_msg_def)
        then show ?thesis using g1 no_panic_half d Inl by auto
      next
        case (Inr st)
        let ?m = "sm_set_end_sent i (e\<lparr>half_stream_of := h1\<rparr>) m"
        have "op_bind (ending_msg_received i) (\<lambda>_. op_ret None) ?m = (r, m') \<or> r = Inr None \<and> m' = ?m"
          using h Some EndSentEnt False d Inr by (cases st) (auto simp: map_handle_msg_def)
        then show ?thesis
      proof
        assume "op_bind (ending_msg_received i) (\<lambda>_. op_ret None) ?m = (r, m')"
        from ending_then_good [OF g1 this] show ?thesis by simp
      next
        assume "r = Inr None \<and> m' = ?m"
        then show ?thesis using g1 by simp
      qed
      qed
    qed
  qed
qed

lemma add_ent_good:
  assumes g: "sm_good n m" and a: "add_ent snk r f c m = (res, m')"
  shows "sm_good n m' \<and> (\<forall>s. res \<noteq> Inl (Panic s))"
proof -
  note st = add_ent_step [OF sm_good_ok [OF g] a]
  show ?thesis
  proof (cases res)
    case (Inl e)
    then show ?thesis using st g by (auto simp: sm_ok_def)
  next
    case (Inr i)
    have l: "alloc_loop (\<lambda>i. ps_try_insert i (next_priority m)) 65536 (ent_new snk r f c)
        (open_streams m, next_stream_id m) = (Inr i, open_streams m', next_stream_id m')"
      using a Inr by (auto simp: add_ent_def take_next_priority_def split: prod.splits)
    have "ps_good (ent_poll_peek n) (open_streams m')"
    proof (rule alloc_loop_good [OF l])
      show "ps_good (ent_poll_peek n) (open_streams m)" using g by blast
    qed (rule ps_try_insert_good)
    then show ?thesis using st Inr by (auto simp: sm_ok_def)
  qed
qed

end
