(* ===== verification/Hop_Facts.thy ===== *)
theory Hop_Facts
  imports Circ_Hop
begin

text \<open>
  What a hop does over time: the reactor's loop over the streams of a hop
  (\<open>ready_streams_iterator\<close> with the handling of its commands), no stream that is ever forgotten
  or starved, and the limits on cells.
\<close>

section \<open>Polling the streams of a hop\<close>

definition answer :: "'r rx_next \<Rightarrow> ('c, 'v, 'r) open_stream_ent \<Rightarrow> any_relay_msg option" where
  "answer n e = fst (ent_unobtrusive_peek n e)"

lemma peek_ready_at_hand:
  assumes "\<And>pi e. (pi, e) \<in> set es \<Longrightarrow> \<exists>r. \<forall>w. ent_poll_peek n w e = (Ready r, e)"
  shows "peek_ready n es = (map (\<lambda>((p, i), e). (i, answer n e)) es, map (\<lambda>_. None) es, es)"
  using assms
proof (induction es)
  case (Cons x es)
  obtain p i e where x: "x = ((p, i), e)" by (metis prod.exhaust)
  obtain r where "\<forall>w. ent_poll_peek n w e = (Ready r, e)" using Cons.prems x by fastforce
  then have "ent_unobtrusive_peek n e = (r, None, e)" by (rule ent_ready_peek)
  moreover have "peek_ready n es = (map (\<lambda>((p, i), e). (i, answer n e)) es, map (\<lambda>_. None) es, es)"
    using Cons by fastforce
  ultimately show ?case by (simp add: x answer_def)
qed simp

lemma wake_none: "fold wake_set (map (\<lambda>_. None) es) ps = ps"
  by (induction es) (simp_all add: wake_set_def)

text \<open>The open streams after a poll.\<close>

definition polled :: "'r rx_next \<Rightarrow> ('c, 'v, 'r) stream_map \<Rightarrow> (stream_id, u64, ('c, 'v, 'r) open_stream_ent) poll_set \<Rightarrow> bool" where
  "polled n m opn \<longleftrightarrow>
     ps_good (ent_poll_peek n) opn \<and> priorities opn = priorities (open_streams m) \<and>
     (\<forall>k s. map_of (futures (pending_streams opn)) k = Some s \<longrightarrow> armed (ent_poll_peek n) k s) \<and>
     (\<forall>pr s. map_of (ready_streams (open_streams m)) pr = Some s \<longrightarrow> map_of (ready_streams opn) pr = Some s)"

lemma poll_iter_good:
  assumes "sm_good n m"
  shows "\<exists>opn. polled n m opn \<and> poll_ready_streams_iter n m =
    (Inr (map (\<lambda>((p, i), e). (i, answer n e)) (ready_streams opn)), m\<lparr>open_streams := opn\<rparr>)"
proof -
  obtain opn where opn: "ps_poll_ready (ent_poll_peek n) (open_streams m) = (Inr (), opn)"
      "ps_good (ent_poll_peek n) opn" "priorities opn = priorities (open_streams m)"
      "\<forall>k s. map_of (futures (pending_streams opn)) k = Some s \<longrightarrow> armed (ent_poll_peek n) k s"
      "\<forall>pr s. map_of (ready_streams (open_streams m)) pr = Some s \<longrightarrow> map_of (ready_streams opn) pr = Some s"
    using ent_peekable.poll_ready_ok assms by blast
  have d: "distinct (map fst (ready_streams opn))"
    using opn(2) by (auto simp: ps_good_def ps_inv_def strict_sorted_iff)
  have "\<exists>r. \<forall>w. ent_poll_peek n w e = (Ready r, e)" if "(pi, e) \<in> set (ready_streams opn)" for pi e
    using opn(2) map_of_is_SomeI [OF d that] unfolding ps_good_def answers_at_hand_def by blast
  from peek_ready_at_hand [OF this] show ?thesis
    using opn by (auto simp: poll_ready_streams_iter_def polled_def wake_none)
qed

lemma polled_head:
  assumes "polled n m opn" and "ready_streams opn = ((p, i), e) # es"
  shows "map_of (priorities opn) i = Some p" "map_of (ready_streams opn) (p, i) = Some e"
    "\<forall>w. ent_poll_peek n w e = (Ready (answer n e), e)"
proof -
  have inv: "ps_inv opn" and ah: "answers_at_hand (ent_poll_peek n) (map_of (ready_streams opn))"
    using assms(1) by (auto simp: polled_def ps_good_def)
  show r: "map_of (ready_streams opn) (p, i) = Some e" using assms(2) by simp
  then show "map_of (priorities opn) i = Some p"
    by (cases rule: ps_key_cases [OF inv, of i]) (auto, metis option.distinct(1))
  obtain r where r: "\<forall>w. ent_poll_peek n w e = (Ready r, e)" using ah r unfolding answers_at_hand_def by blast
  then show "\<forall>w. ent_poll_peek n w e = (Ready (answer n e), e)"
    using ent_ready_peek [OF r] by (simp add: answer_def)
qed

text \<open>The three outcomes of polling a hop.\<close>

lemma hop_poll_cases:
  assumes g: "sm_good n m"
  obtains (idle) opn where "polled n m opn" "ready_streams opn = []"
      "hop_poll_ready n num m = (Inr Pending, m\<lparr>open_streams := opn\<rparr>)"
  | (close) opn p i e es where "polled n m opn" "ready_streams opn = ((p, i), e) # es" "answer n e = None"
      "hop_poll_ready n num m =
         (Inr (Ready (CmdCloseStream num i close_behavior_default StreamTargetClosed)), m\<lparr>open_streams := opn\<rparr>)"
  | (send) opn p i e es u opn' e' where "polled n m opn" "ready_streams opn = ((p, i), e) # es" "answer n e = Some u"
      "hop_poll_ready n num m =
         (Inr (Ready (CmdSend \<lparr>src_hop = num, src_early = False, src_cell = \<lparr>streamid = Some i, rmsg = u\<rparr>\<rparr>)),
          m\<lparr>open_streams := opn', next_priority := next_priority m + 1\<rparr>)"
      "ps_good (ent_poll_peek n) opn'" "ps_abs opn' = (ps_abs opn)(i \<mapsto> (next_priority m, e'))"
      "i \<in> set (notified (pending_streams opn'))" "map_of (futures (pending_streams opn')) i \<noteq> None"
      "map_of (priorities opn') = (map_of (priorities opn))(i \<mapsto> next_priority m)"
      "map_of (ready_streams opn') = (map_of (ready_streams opn))((p, i) := None)"
      "flow_ctrl e' = flow_ctrl e"
proof -
  obtain opn where opn: "polled n m opn" and it: "poll_ready_streams_iter n m =
      (Inr (map (\<lambda>((p, i), e). (i, answer n e)) (ready_streams opn)), m\<lparr>open_streams := opn\<rparr>)"
    using poll_iter_good [OF g] by blast
  show thesis
  proof (cases "ready_streams opn")
    case Nil
    then show thesis using idle opn it by (simp add: hop_poll_ready_def op_bind_def)
  next
    case (Cons x es)
    obtain p i e where x: "x = ((p, i), e)" by (metis prod.exhaust)
    note h = polled_head [OF opn Cons [unfolded x]]
    show thesis
    proof (cases "answer n e")
      case None
      then show thesis using close opn it Cons x by (simp add: hop_poll_ready_def op_bind_def)
    next
      case (Some u)
      have gopn: "ps_good (ent_poll_peek n) opn" using opn by (simp add: polled_def)
      have pk: "ent_poll_peek n None e = (Ready (Some u), e)" using h(3) Some by simp
      obtain opn' e' where t: "ent_poll_next n None e = (Ready (Some u), e')"
          "ps_take_ready_value_and_reprioritize (ent_poll_peek n) (ent_poll_next n) i (next_priority m) opn = (Inr (Some (p, u)), opn')"
          "ps_good (ent_poll_peek n) opn'" "ps_abs opn' = (ps_abs opn)(i \<mapsto> (next_priority m, e'))"
          "i \<in> set (notified (pending_streams opn'))" "map_of (futures (pending_streams opn')) i \<noteq> None"
          "map_of (priorities opn') = (map_of (priorities opn))(i \<mapsto> next_priority m)"
          "map_of (ready_streams opn') = (map_of (ready_streams opn))((p, i) := None)"
        using ent_peekable.take_ready_ok [OF gopn h(1,2) pk, of "next_priority m"] by auto
      let ?m = "m\<lparr>open_streams := opn', next_priority := next_priority m + 1\<rparr>"
      have tk: "take_ready_msg n i (m\<lparr>open_streams := opn\<rparr>) = (Inr (Some u), ?m)"
        using t(2) by (simp add: take_ready_msg_def take_next_priority_def)
      have "sm_get i ?m = Some (OpenEnt e')"
        using t(3,4) g by (subst sm_get_open) (auto simp: sm_ok_def ps_good_def)
      then have "hop_poll_ready n num m =
         (Inr (Ready (CmdSend \<lparr>src_hop = num, src_early = False, src_cell = \<lparr>streamid = Some i, rmsg = u\<rparr>\<rparr>)), ?m)"
        using it Cons x Some tk by (simp add: hop_poll_ready_def op_bind_def)
      moreover have "flow_ctrl e' = flow_ctrl e"
        using t(1) pk by (auto simp: ent_poll_next_def split: prod.splits)
      ultimately show thesis using send [OF opn Cons [unfolded x] Some _ t(3-)] by blast
    qed
  qed
qed

section \<open>What happens at a hop\<close>

text \<open>
  One round of the reactor for the streams of a hop: poll, then carry out the command. A message
  that counts towards windows takes its capacity before it is encoded
  (\<open>Circuit::send_relay_cell\<close>); the stream the command is about is returned.
\<close>

definition hop_serve :: "'r rx_next \<Rightarrow> (('c, 'v, 'r) circ_hop, stream_id list) op" where
  "hop_serve n h =
     op_bind (on_map (hop_poll_ready n (hop_number h))) (\<lambda>cmd.
       case cmd of
         Pending \<Rightarrow> op_ret []
       | Ready (CmdSend c) \<Rightarrow>
           (case streamid (src_cell c) of
              None \<Rightarrow> op_ret []
            | Some i \<Rightarrow>
                op_bind (if cmd_counts_towards_windows (any_relay_cmd (rmsg (src_cell c)))
                         then hop_take_capacity_to_send i (rmsg (src_cell c)) else op_ret ())
                  (\<lambda>_. op_ret [i]))
       | Ready (CmdCloseStream _ i behav why) \<Rightarrow> op_bind (hop_close_stream i behav why) (\<lambda>_. op_ret [i])
       | Ready _ \<Rightarrow> op_ret []) h"

datatype ('c, 'v, 'r) hop_event =
    HopBegin any_relay_msg "('c, 'v) stream_queue" 'r u64 nat cmd_checker
  | HopAccept "('c, 'v) stream_queue" 'r u64 nat stream_id cmd_checker
  | HopClose stream_id close_stream_behavior terminate_reason
  | HopMsg bool stream_id unparsed_relay_msg
  | HopXon xon_kbps_ewma stream_id
  | HopXoff stream_id
  | HopWake stream_id
  | HopServe

definition hop_step :: "'c chan_send \<Rightarrow> 'r rx_next \<Rightarrow> ('c, 'v, 'r) hop_event \<Rightarrow> (('c, 'v, 'r) circ_hop, stream_id list) op" where
  "hop_step cs n ev =
     (case ev of
        HopBegin u snk r rate drains c \<Rightarrow> op_bind (hop_begin_stream u snk r rate drains c) (\<lambda>_. op_ret [])
      | HopAccept snk r rate drains i c \<Rightarrow> op_bind (hop_add_ent_with_id snk r rate drains i c) (\<lambda>_. op_ret [])
      | HopClose i behav why \<Rightarrow> op_bind (hop_close_stream i behav why) (\<lambda>_. op_ret [])
      | HopMsg c i u \<Rightarrow> op_bind (hop_handle_msg cs c i u) (\<lambda>_. op_ret [])
      | HopXon rate i \<Rightarrow> op_bind (hop_maybe_send_xon rate i) (\<lambda>_. op_ret [])
      | HopXoff i \<Rightarrow> op_bind (hop_maybe_send_xoff i) (\<lambda>_. op_ret [])
      | HopWake i \<Rightarrow> (\<lambda>h. (Inr [], h\<lparr>hop_map := (hop_map h)\<lparr>open_streams := ps_wake i (open_streams (hop_map h))\<rparr>\<rparr>))
      | HopServe \<Rightarrow> hop_serve n)"

fun hop_run :: "'c chan_send \<Rightarrow> 'r rx_next \<Rightarrow> ('c, 'v, 'r) hop_event list \<Rightarrow> (('c, 'v, 'r) circ_hop, stream_id list) op" where
  "hop_run cs n [] = op_ret []"
| "hop_run cs n (ev # evs) = op_bind (hop_step cs n ev) (\<lambda>xs. op_bind (hop_run cs n evs) (\<lambda>ys. op_ret (xs @ ys)))"

text \<open>
  How an operation can affect the priorities and the ready streams: at most one stream \<open>k\<close>, which
  leaves, or goes to the back of the line.
\<close>

definition line_effect ::
  "stream_id \<Rightarrow> ('c, 'v, 'r) stream_map \<Rightarrow> ('c, 'v, 'r) stream_map \<Rightarrow> bool" where
  "line_effect k m m' \<longleftrightarrow>
     (\<exists>x \<in> {map_of (priorities (open_streams m)) k, None}.
        map_of (priorities (open_streams m')) = (map_of (priorities (open_streams m)))(k := x)) \<and>
     (\<forall>q j. j \<noteq> k \<longrightarrow> map_of (ready_streams (open_streams m')) (q, j) = map_of (ready_streams (open_streams m)) (q, j)) \<and>
     next_priority m' = next_priority m"

lemma line_effect_refl [simp]: "line_effect k m m"
  by (simp add: line_effect_def fun_upd_idem)

lemma line_effect_trans: "line_effect k m m1 \<Longrightarrow> line_effect k m1 m' \<Longrightarrow> line_effect k m m'"
  unfolding line_effect_def by (elim conjE bexE) auto

lemma ps_remove_line:
  assumes "ps_remove k opn = (r, opn')"
  shows "map_of (priorities opn') = (map_of (priorities opn))(k := None)"
    "j \<noteq> k \<Longrightarrow> map_of (ready_streams opn') (q, j) = map_of (ready_streams opn) (q, j)"
  using assms
  by (auto simp: ps_remove_def kfu_remove_def Let_def alist_simps bt_remove_lookup fun_upd_idem split: option.splits prod.splits)

lemma ending_line: "ending_msg_received k m = (r, m') \<Longrightarrow> line_effect k m m'"
  using ps_remove_line [of k "open_streams m"]
  by (auto simp: ending_msg_received_def line_effect_def Let_def split: prod.splits sum.splits option.splits closed_stream_ent.splits)

lemma terminate_line: "sm_terminate k why m = (r, m') \<Longrightarrow> line_effect k m m'"
  using ps_remove_line [of k "open_streams m"]
  by (auto simp: sm_terminate_def line_effect_def Let_def split: prod.splits sum.splits option.splits
      closed_stream_ent.splits bool.splits terminate_reason.splits)

lemma set_open_line:
  assumes "sm_ok m" and "ps_abs (open_streams m) k = Some (p, e)"
  shows "line_effect k m (sm_set_open k e' m)"
  using ps_set_stream_lookup [OF _ assms(2), of e'] assms(1)
  by (auto simp: line_effect_def sm_set_open_def sm_ok_def fun_upd_idem)

lemma wake_line: "line_effect k m (m\<lparr>open_streams := wake_set w (open_streams m)\<rparr>)"
  by (auto simp: line_effect_def wake_set_def ps_wake_def fun_upd_idem split: option.split)

lemma on_map_cases:
  assumes "on_map f h = (r, h')"
  obtains m' where "f (hop_map h) = (r, m')" "h' = h\<lparr>hop_map := m'\<rparr>"
  using assms by (auto simp: op_field_def split: prod.splits)

lemma op_bind_ret_cases:
  assumes "op_bind f (\<lambda>_. op_ret x) s = (r, s')"
  obtains y where "f s = (y, s')" "case y of Inl e \<Rightarrow> r = Inl e | Inr _ \<Rightarrow> r = Inr x"
  using assms by (cases "f s"; cases "fst (f s)") (auto simp: op_bind_def op_ret_def)

lemma add_ent_with_id_good:
  assumes "sm_good n m" and "add_ent_with_id snk r f i c m = (res, m')"
  shows "sm_good n m' \<and> (\<forall>s. res \<noteq> Inl (Panic s))"
proof -
  obtain x opn where t: "ps_try_insert i (next_priority m) (ent_new snk r f c) (open_streams m) = (x, opn)" by fastforce
  have "ps_good (ent_poll_peek n) opn" using ps_try_insert_good [OF _ t] assms(1) by blast
  moreover have "open_streams m' = opn \<and> next_stream_id m' = next_stream_id m"
    using assms(2) t by (auto simp: add_ent_with_id_def take_next_priority_def split: sum.splits option.splits)
  ultimately show ?thesis using assms add_ent_with_id_step [OF sm_good_ok [OF assms(1)] assms(2)] by auto
qed

text \<open>An operation on the entry of a stream that does not touch what the stream waits for.\<close>

lemma on_open_quiet:
  assumes g: "sm_good n m" and o: "on_open i f (\<lambda>m. (x, m)) m = (r, m')"
    and q: "\<And>e r e'. f e = (r, e') \<Longrightarrow> no_tighter e e' \<and> no_looser e e'"
  shows "sm_good n m' \<and> line_effect i m m'"
proof (cases "\<exists>e. sm_get i m = Some (OpenEnt e)")
  case True
  then obtain e where e: "sm_get i m = Some (OpenEnt e)" by blast
  then obtain p where p: "ps_abs (open_streams m) i = Some (p, e)" using sm_get_open [OF sm_good_ok [OF g]] by blast
  obtain y e' where f: "f e = (y, e')" by fastforce
  then have "m' = sm_set_open i e' m" using o e by (simp add: on_open_def)
  moreover have "no_tighter e e'" "no_looser e e'" using q [OF f] by auto
  ultimately show ?thesis using sm_set_open_good [OF g p] set_open_line [OF sm_good_ok [OF g] p] by simp
next
  case False
  then have "m' = m" using o by (auto simp: on_open_def split: option.splits stream_ent_mut.splits)
  then show ?thesis using g by simp
qed

lemma xon_quiet:
  assumes "ent_maybe_send_xon rate e = (r, e')"
  shows "no_tighter e e' \<and> no_looser e e'"
proof -
  let ?g = "maybe_send_xon rate (approx_stream_bytes (sink e))"
  have "e' = snd (ent_flow ?g e)" using assms by (simp add: ent_maybe_send_xon_def)
  moreover have "no_tighter e (snd (ent_flow ?g e)) \<and> no_looser e (snd (ent_flow ?g e))"
    by (rule flow_quiet) (rule xon_xoff_same_can_send(3))
  ultimately show ?thesis by simp
qed

lemma xoff_quiet:
  assumes "ent_maybe_send_xoff e = (r, e')"
  shows "no_tighter e e' \<and> no_looser e e'"
proof -
  let ?g = "maybe_send_xoff (approx_stream_bytes (sink e))"
  have "e' = snd (ent_flow ?g e)" using assms by (simp add: ent_maybe_send_xoff_def)
  moreover have "no_tighter e (snd (ent_flow ?g e)) \<and> no_looser e (snd (ent_flow ?g e))"
    by (rule flow_quiet) (rule xon_xoff_same_can_send(4))
  ultimately show ?thesis by simp
qed

lemma take_capacity_ok:
  "flow_can_send c f \<Longrightarrow> \<exists>f'. take_capacity_to_send c f = (Inr (), f')"
  by (cases f) (auto simp: flow_can_send_def take_capacity_to_send_def send_window_take_spec)

text \<open>Taking the capacity for a message that was just taken from its stream.\<close>

lemma capacity_good:
  assumes g: "sm_good n m" and e: "ps_abs (open_streams m) i = Some (p, e)" and c: "ent_can_send u e"
    and i: "i \<in> set (notified (pending_streams (open_streams m)))"
    and pend: "map_of (futures (pending_streams (open_streams m))) i \<noteq> None"
  shows "\<exists>m'. on_open i (ent_take_capacity_to_send u) other m = (Inr (), m') \<and> sm_good n m' \<and> line_effect i m m' \<and>
    priorities (open_streams m') = priorities (open_streams m)"
proof -
  obtain f' where f: "take_capacity_to_send (any_relay_cmd u) (flow_ctrl e) = (Inr (), f')"
    using take_capacity_ok c by (auto simp: ent_can_send_def)
  let ?e = "e\<lparr>flow_ctrl := f'\<rparr>"
  have inv: "ps_inv (open_streams m)" using g by (simp add: ps_good_def)
  have "sm_get i m = Some (OpenEnt e)" using sm_get_open [OF sm_good_ok [OF g]] e by blast
  then have "on_open i (ent_take_capacity_to_send u) other m = (Inr (), sm_set_open i ?e m)"
    using f by (simp add: on_open_def ent_take_capacity_to_send_def op_field_def)
  moreover have "ps_good (ent_poll_peek n) (if False then ps_wake i (ps_set_stream i ?e (open_streams m))
      else ps_set_stream i ?e (open_streams m))"
  proof (rule ps_set_stream_good [OF _ e])
    show "ps_good (ent_poll_peek n) (open_streams m)" using g by blast
    show "\<forall>r. (\<forall>w. ent_poll_peek n w e = (Ready r, e)) \<longrightarrow> (\<exists>r. \<forall>w. ent_poll_peek n w ?e = (Ready r, ?e))"
      if "map_of (ready_streams (open_streams m)) (p, i) = Some e"
      using that pend by (cases rule: ps_key_cases [OF inv, of i]) auto
  qed (use i in simp)
  ultimately show ?thesis
    using g set_open_line [OF sm_good_ok [OF g] e] ps_set_stream_lookup(1) [OF inv e] by (auto simp: sm_set_open_def)
qed

lemma terminate_leaves:
  "sm_terminate k why m = (r, m') \<Longrightarrow>
     map_of (priorities (open_streams m')) = (map_of (priorities (open_streams m)))(k := None)"
  using ps_remove_line(1) [of k "open_streams m"]
  by (auto simp: sm_terminate_def Let_def split: prod.splits sum.splits option.splits
      closed_stream_ent.splits bool.splits terminate_reason.splits)

text \<open>A round serves the first ready stream, which leaves or goes to the back of the line.\<close>

definition serve_effect :: "'r rx_next \<Rightarrow> ('c, 'v, 'r) stream_map \<Rightarrow> ('c, 'v, 'r) stream_map \<Rightarrow> stream_id list \<Rightarrow> bool" where
  "serve_effect n m m' xs \<longleftrightarrow>
     (\<exists>opn. polled n m opn \<and>
        (xs = [] \<and> ready_streams opn = [] \<and>
           map_of (priorities (open_streams m')) = map_of (priorities (open_streams m)) \<and> next_priority m' = next_priority m \<or>
         (\<exists>p j e es. ready_streams opn = ((p, j), e) # es \<and> xs = [j] \<and>
            (map_of (priorities (open_streams m')) = (map_of (priorities (open_streams m)))(j := None) \<and>
               next_priority m' = next_priority m \<or>
             map_of (priorities (open_streams m')) = (map_of (priorities (open_streams m)))(j \<mapsto> next_priority m) \<and>
               next_priority m' = next_priority m + 1) \<and>
            (\<forall>q i. i \<noteq> j \<longrightarrow> map_of (ready_streams (open_streams m')) (q, i) = map_of (ready_streams opn) (q, i)))))"

lemma hop_serve_ok:
  assumes g: "sm_good n (hop_map h)" and s: "hop_serve n h = (r, h')"
  shows "sm_good n (hop_map h') \<and> (\<forall>x. r \<noteq> Inl (Panic x)) \<and>
    (\<forall>xs. r = Inr xs \<longrightarrow> serve_effect n (hop_map h) (hop_map h') xs)"
proof (cases rule: hop_poll_cases [OF g, of "hop_number h"])
  case (1 opn)
  then have "r = Inr [] \<and> h' = h\<lparr>hop_map := (hop_map h)\<lparr>open_streams := opn\<rparr>\<rparr>"
    using s by (simp add: hop_serve_def op_bind_def op_field_def op_ret_def)
  then show ?thesis using 1 g by (auto simp: serve_effect_def polled_def)
next
  case (2 opn p i e es)
  let ?m = "(hop_map h)\<lparr>open_streams := opn\<rparr>"
  have g1: "sm_good n ?m" using 2(1) g by (simp add: polled_def)
  obtain y m' where t: "sm_terminate i StreamTargetClosed ?m = (y, m')" by fastforce
  have h': "hop_map h' = m'" and r: "case y of Inl x \<Rightarrow> r = Inl x | Inr _ \<Rightarrow> r = Inr [i]"
    using s 2(4) t by (cases y; simp add: hop_serve_def op_bind_def op_field_def op_ret_def hop_close_stream_def; auto)+
  have l: "map_of (priorities (open_streams m')) = (map_of (priorities (open_streams (hop_map h))))(i := None)"
    using terminate_leaves [OF t] 2(1) by (simp add: polled_def)
  have "serve_effect n (hop_map h) m' [i]"
    unfolding serve_effect_def using 2(1,2) l terminate_line [OF t]
    by (intro exI [of _ opn]) (auto simp: line_effect_def)
  then show ?thesis using terminate_good [OF g1 t] h' r by (cases y) auto
next
  case (3 opn p i e es u opn' e')
  let ?m = "(hop_map h)\<lparr>open_streams := opn', next_priority := next_priority (hop_map h) + 1\<rparr>"
  have g1: "sm_good n ?m" using 3(5) g by simp
  have c: "ent_can_send u e'"
  proof -
    have "\<forall>w. ent_poll_peek n w e = (Ready (Some u), e)" using polled_head(3) [OF 3(1,2)] 3(3) by simp
    then show ?thesis using 3(11) unfolding ent_ready_iff by (simp add: ent_can_send_def)
  qed
  have "\<exists>m'. r = Inr [i] \<and> hop_map h' = m' \<and> sm_good n m' \<and> line_effect i ?m m' \<and>
      priorities (open_streams m') = priorities opn'"
  proof (cases "cmd_counts_towards_windows (any_relay_cmd u)")
    case True
    have "ps_abs (open_streams ?m) i = Some (next_priority (hop_map h), e')" using 3(6) by simp
    from capacity_good [OF g1 this c] 3(7,8)
    obtain m' where m': "on_open i (ent_take_capacity_to_send u)
        (op_fail (CircProto ''tried to send a relay cell on non-open stream'')) ?m = (Inr (), m')"
        "sm_good n m'" "line_effect i ?m m'" "priorities (open_streams m') = priorities opn'" by auto
    have "r = Inr [i]" "hop_map h' = m'"
      using s 3(4) True m'(1) by (auto simp: hop_serve_def op_bind_def op_field_def op_ret_def hop_take_capacity_to_send_def)
    then show ?thesis using m'(2-) by blast
  next
    case False
    then have "r = Inr [i]" "hop_map h' = ?m"
      using s 3(4) by (auto simp: hop_serve_def op_bind_def op_field_def op_ret_def)
    then show ?thesis using g1 by auto
  qed
  then obtain m' where m': "r = Inr [i]" "hop_map h' = m'" "sm_good n m'" "line_effect i ?m m'"
      "priorities (open_streams m') = priorities opn'" by blast
  have "map_of (priorities (open_streams m')) = (map_of (priorities (open_streams (hop_map h))))(i \<mapsto> next_priority (hop_map h))"
    using m'(5) 3(1,9) by (simp add: polled_def)
  moreover have "next_priority m' = next_priority (hop_map h) + 1"
    "\<forall>q j. j \<noteq> i \<longrightarrow> map_of (ready_streams (open_streams m')) (q, j) = map_of (ready_streams opn) (q, j)"
    using m'(4) 3(10) by (auto simp: line_effect_def)
  ultimately have "serve_effect n (hop_map h) m' [i]"
    unfolding serve_effect_def using 3(1,2) by (intro exI [of _ opn]) auto
  then show ?thesis using m' by auto
qed

text \<open>A new stream goes to the back of the line.\<close>

definition new_effect :: "('c, 'v, 'r) stream_map \<Rightarrow> ('c, 'v, 'r) stream_map \<Rightarrow> bool" where
  "new_effect m m' \<longleftrightarrow>
     (\<exists>j. map_of (priorities (open_streams m)) j = None \<and>
        map_of (priorities (open_streams m')) = (map_of (priorities (open_streams m)))(j \<mapsto> next_priority m)) \<and>
     ready_streams (open_streams m') = ready_streams (open_streams m) \<and>
     next_priority m' = next_priority m + 1"

lemma ps_try_insert_line:
  "ps_try_insert j p s opn = (Inr None, opn') \<Longrightarrow>
     map_of (priorities opn) j = None \<and> map_of (priorities opn') = (map_of (priorities opn))(j \<mapsto> p) \<and>
     ready_streams opn' = ready_streams opn"
  by (auto simp: ps_try_insert_def alist_simps split: option.splits)

lemma add_ent_line:
  assumes "sm_ok m" and "add_ent snk r f c m = (Inr i, m')"
  shows "new_effect m m'"
proof -
  have "alloc_loop (\<lambda>i. ps_try_insert i (next_priority m)) 65536 (ent_new snk r f c)
      (open_streams m, next_stream_id m) = (Inr i, open_streams m', next_stream_id m')"
    and n: "next_priority m' = next_priority m + 1"
    using assms(2) by (auto simp: add_ent_def take_next_priority_def split: prod.splits)
  then have "ps_try_insert i (next_priority m) (ent_new snk r f c) (open_streams m) = (Inr None, open_streams m')"
    using open_set.alloc_stores assms(1) by (fastforce simp: sm_ok_def)
  from ps_try_insert_line [OF this] show ?thesis using n by (auto simp: new_effect_def)
qed

lemma add_ent_with_id_line:
  "add_ent_with_id snk r f i c m = (Inr x, m') \<Longrightarrow> new_effect m m'"
  using ps_try_insert_line [of i "next_priority m" "ent_new snk r f c" "open_streams m"]
  by (auto simp: add_ent_with_id_def take_next_priority_def new_effect_def split: prod.splits sum.splits option.splits)

lemma map_handle_line:
  assumes g: "sm_good n m" and h: "map_handle_msg cs c i u m = (r, m')"
  shows "line_effect i m m'"
proof (cases "sm_get i m")
  case None
  then show ?thesis using h by (auto simp: map_handle_msg_def split: if_splits)
next
  case (Some ent)
  show ?thesis
  proof (cases ent)
    case (OpenEnt e)
    then obtain p where e: "ps_abs (open_streams m) i = Some (p, e)"
      using Some sm_get_open [OF sm_good_ok [OF g]] by blast
    obtain r1 e1 where d: "deliver_msg_to_stream cs c u e = (r1, e1)" by fastforce
    let ?m = "sm_set_open i e1 m"
    have l: "line_effect i m ?m" by (rule set_open_line [OF sm_good_ok [OF g] e])
    show ?thesis
    proof (cases r1)
      case (Inl x)
      then show ?thesis using h Some OpenEnt d l by (simp add: map_handle_msg_def)
    next
      case (Inr bw)
      obtain b w where bw: "bw = (b, w)" by fastforce
      let ?m1 = "?m\<lparr>open_streams := wake_set w (open_streams ?m)\<rparr>"
      have l1: "line_effect i m ?m1" using line_effect_trans [OF l wake_line] .
      have "op_bind (ending_msg_received i) (\<lambda>_. op_ret None) ?m1 = (r, m') \<or> m' = ?m1"
        using h Some OpenEnt d Inr bw by (cases b) (auto simp: map_handle_msg_def Let_def)
      then show ?thesis
        using l1 line_effect_trans [OF l1 ending_line] by (auto elim!: op_bind_ret_cases)
    qed
  next
    case EndReceivedEnt
    then show ?thesis using h Some by (auto simp: map_handle_msg_def)
  next
    case (EndSentEnt e)
    obtain r1 h1 where d: "half_handle_msg u (half_stream_of e) = (r1, h1)" by fastforce
    let ?m = "sm_set_end_sent i (e\<lparr>half_stream_of := h1\<rparr>) m"
    have l: "line_effect i m ?m" by (simp add: line_effect_def sm_set_end_sent_def fun_upd_idem)
    have "(\<exists>x. op_bind (ending_msg_received i) (\<lambda>_. op_ret x) m = (r, m')) \<or>
        (\<exists>x. op_bind (ending_msg_received i) (\<lambda>_. op_ret x) ?m = (r, m')) \<or> m' = ?m"
      using h Some EndSentEnt d
      by (auto simp: map_handle_msg_def split: if_splits sum.splits stream_status.splits)
    then show ?thesis
      using l line_effect_trans [OF l ending_line] by (auto elim!: op_bind_ret_cases dest: ending_line)
  qed
qed

fun event_id :: "('c, 'v, 'r) hop_event \<Rightarrow> stream_id option" where
  "event_id (HopClose i _ _) = Some i"
| "event_id (HopMsg _ i _) = Some i"
| "event_id (HopXon _ i) = Some i"
| "event_id (HopXoff i) = Some i"
| "event_id (HopWake i) = Some i"
| "event_id _ = None"

text \<open>How each event affects the line of streams, when it succeeds.\<close>

definition step_effect :: "'r rx_next \<Rightarrow> ('c, 'v, 'r) hop_event \<Rightarrow> ('c, 'v, 'r) stream_map \<Rightarrow> ('c, 'v, 'r) stream_map \<Rightarrow> stream_id list \<Rightarrow> bool" where
  "step_effect n ev m m' xs \<longleftrightarrow>
     (if ev = HopServe then serve_effect n m m' xs
      else xs = [] \<and> (case event_id ev of None \<Rightarrow> new_effect m m' | Some i \<Rightarrow> line_effect i m m'))"

definition step_ok :: "'r rx_next \<Rightarrow> ('c, 'v, 'r) hop_event \<Rightarrow> ('c, 'v, 'r) circ_hop \<Rightarrow> (proto_error + stream_id list) \<times> ('c, 'v, 'r) circ_hop \<Rightarrow> bool" where
  "step_ok n ev h res \<longleftrightarrow>
     sm_good n (hop_map (snd res)) \<and> (\<forall>s. fst res = Inl (Panic s) \<longrightarrow> s = queue_overflow) \<and>
     (\<forall>xs. fst res = Inr xs \<longrightarrow> step_effect n ev (hop_map h) (hop_map (snd res)) xs)"

lemma step_okI:
  assumes "hop_step cs n ev h = op_bind (on_map f) (\<lambda>_. op_ret []) h" and "ev \<noteq> HopServe"
    and "\<And>r m'. f (hop_map h) = (r, m') \<Longrightarrow> sm_good n m' \<and> (\<forall>s. r = Inl (Panic s) \<longrightarrow> s = queue_overflow) \<and>
      (\<forall>x. r = Inr x \<longrightarrow> (case event_id ev of None \<Rightarrow> new_effect (hop_map h) m' | Some i \<Rightarrow> line_effect i (hop_map h) m'))"
  shows "step_ok n ev h (hop_step cs n ev h)"
proof -
  obtain r m' where f: "f (hop_map h) = (r, m')" by fastforce
  note a = assms(3) [OF f]
  have "hop_step cs n ev h = (case r of Inl e \<Rightarrow> (Inl e, h\<lparr>hop_map := m'\<rparr>) | Inr _ \<Rightarrow> (Inr [], h\<lparr>hop_map := m'\<rparr>))"
    using assms(1) f by (cases r) (simp_all add: op_bind_def op_field_def op_ret_def)
  then show ?thesis using a assms(2) by (cases r) (auto simp: step_ok_def step_effect_def)
qed

lemma no_panic_xon: "ent_maybe_send_xon rate e \<noteq> (Inl (Panic s), e')"
  by (auto simp: ent_maybe_send_xon_def op_field_fails maybe_send_xon_def split: stream_flow_control.splits if_splits)

lemma no_panic_xoff: "ent_maybe_send_xoff e \<noteq> (Inl (Panic s), e')"
  by (auto simp: ent_maybe_send_xoff_def op_field_fails maybe_send_xoff_def split: stream_flow_control.splits if_splits)

lemma hop_step_ok:
  assumes g: "sm_good n (hop_map h)"
  shows "step_ok n ev h (hop_step cs n ev h)"
proof (cases ev)
  case (HopBegin u snk r rate drains c)
  show ?thesis
  proof (rule step_okI)
    show "hop_step cs n ev h = op_bind (on_map (add_ent snk r (build_flow_ctrl rate drains h) c)) (\<lambda>_. op_ret []) h"
      using HopBegin by (simp add: hop_step_def hop_begin_stream_def op_bind_def op_ret_def split: prod.split sum.split)
    fix res m' assume a: "add_ent snk r (build_flow_ctrl rate drains h) c (hop_map h) = (res, m')"
    show "sm_good n m' \<and> (\<forall>s. res = Inl (Panic s) \<longrightarrow> s = queue_overflow) \<and>
        (\<forall>x. res = Inr x \<longrightarrow> (case event_id ev of None \<Rightarrow> new_effect (hop_map h) m' | Some i \<Rightarrow> line_effect i (hop_map h) m'))"
      using HopBegin add_ent_good [OF g a] add_ent_line [OF sm_good_ok [OF g]] a by auto
  qed (use HopBegin in simp)
next
  case (HopAccept snk r rate drains i c)
  show ?thesis
  proof (rule step_okI)
    show "hop_step cs n ev h = op_bind (on_map (add_ent_with_id snk r (build_flow_ctrl rate drains h) i c)) (\<lambda>_. op_ret []) h"
      using HopAccept by (simp add: hop_step_def hop_add_ent_with_id_def op_bind_def)
    fix res m' assume a: "add_ent_with_id snk r (build_flow_ctrl rate drains h) i c (hop_map h) = (res, m')"
    show "sm_good n m' \<and> (\<forall>s. res = Inl (Panic s) \<longrightarrow> s = queue_overflow) \<and>
        (\<forall>x. res = Inr x \<longrightarrow> (case event_id ev of None \<Rightarrow> new_effect (hop_map h) m' | Some i \<Rightarrow> line_effect i (hop_map h) m'))"
      using HopAccept add_ent_with_id_good [OF g a] add_ent_with_id_line a by auto
  qed (use HopAccept in simp)
next
  case (HopClose i behav why)
  show ?thesis
  proof (rule step_okI)
    show "hop_step cs n ev h = op_bind (on_map (sm_terminate i why)) (\<lambda>_. op_ret []) h"
      using HopClose by (simp add: hop_step_def hop_close_stream_def op_bind_def op_ret_def split: prod.split sum.split)
    fix res m' assume a: "sm_terminate i why (hop_map h) = (res, m')"
    show "sm_good n m' \<and> (\<forall>s. res = Inl (Panic s) \<longrightarrow> s = queue_overflow) \<and>
        (\<forall>x. res = Inr x \<longrightarrow> (case event_id ev of None \<Rightarrow> new_effect (hop_map h) m' | Some i \<Rightarrow> line_effect i (hop_map h) m'))"
      using HopClose terminate_good [OF g a] terminate_line [OF a] by auto
  qed (use HopClose in simp)
next
  case (HopMsg c i u)
  show ?thesis
  proof (rule step_okI)
    show "hop_step cs n ev h = op_bind (on_map (map_handle_msg cs c i u)) (\<lambda>_. op_ret []) h"
      using HopMsg by (simp add: hop_step_def hop_handle_msg_def)
    fix res m' assume a: "map_handle_msg cs c i u (hop_map h) = (res, m')"
    show "sm_good n m' \<and> (\<forall>s. res = Inl (Panic s) \<longrightarrow> s = queue_overflow) \<and>
        (\<forall>x. res = Inr x \<longrightarrow> (case event_id ev of None \<Rightarrow> new_effect (hop_map h) m' | Some i \<Rightarrow> line_effect i (hop_map h) m'))"
      using HopMsg map_handle_good [OF g a] map_handle_line [OF g a] by auto
  qed (use HopMsg in simp)
next
  case (HopXon rate i)
  let ?f = "if alg_uses_xon_xoff (cc_alg (ccontrol h)) then on_open i (ent_maybe_send_xon rate) (op_ret None) else op_ret None"
  show ?thesis
  proof (rule step_okI)
    show "hop_step cs n ev h = op_bind (on_map ?f) (\<lambda>_. op_ret []) h"
      using HopXon by (simp add: hop_step_def hop_maybe_send_xon_def op_bind_def op_field_def op_ret_def)
    fix res m' assume a: "?f (hop_map h) = (res, m')"
    have "on_open i (ent_maybe_send_xon rate) (\<lambda>m. (Inr None, m)) (hop_map h) = (res, m') \<or> m' = hop_map h \<and> res = Inr None"
      using a by (auto simp: op_ret_def [abs_def] split: if_splits)
    then have "sm_good n m' \<and> line_effect i (hop_map h) m'"
      using on_open_quiet [OF g, where f = "ent_maybe_send_xon rate" and i = i and x = "Inr None"] xon_quiet g by (elim disjE) (blast, simp)
    moreover have "res \<noteq> Inl (Panic s)" for s
      using a no_panic_xon by (auto simp: on_open_def op_ret_def split: if_splits option.splits stream_ent_mut.splits prod.splits)
    ultimately show "sm_good n m' \<and> (\<forall>s. res = Inl (Panic s) \<longrightarrow> s = queue_overflow) \<and>
        (\<forall>x. res = Inr x \<longrightarrow> (case event_id ev of None \<Rightarrow> new_effect (hop_map h) m' | Some i \<Rightarrow> line_effect i (hop_map h) m'))"
      using HopXon by auto
  qed (use HopXon in simp)
next
  case (HopXoff i)
  let ?f = "if alg_uses_xon_xoff (cc_alg (ccontrol h)) then on_open i (ent_maybe_send_xoff) (op_ret None) else op_ret None"
  show ?thesis
  proof (rule step_okI)
    show "hop_step cs n ev h = op_bind (on_map ?f) (\<lambda>_. op_ret []) h"
      using HopXoff by (simp add: hop_step_def hop_maybe_send_xoff_def op_bind_def op_field_def op_ret_def)
    fix res m' assume a: "?f (hop_map h) = (res, m')"
    have "on_open i (ent_maybe_send_xoff) (\<lambda>m. (Inr None, m)) (hop_map h) = (res, m') \<or> m' = hop_map h \<and> res = Inr None"
      using a by (auto simp: op_ret_def [abs_def] split: if_splits)
    then have "sm_good n m' \<and> line_effect i (hop_map h) m'"
      using on_open_quiet [OF g, where f = "ent_maybe_send_xoff" and i = i and x = "Inr None"] xoff_quiet g by (elim disjE) (blast, simp)
    moreover have "res \<noteq> Inl (Panic s)" for s
      using a no_panic_xoff by (auto simp: on_open_def op_ret_def split: if_splits option.splits stream_ent_mut.splits prod.splits)
    ultimately show "sm_good n m' \<and> (\<forall>s. res = Inl (Panic s) \<longrightarrow> s = queue_overflow) \<and>
        (\<forall>x. res = Inr x \<longrightarrow> (case event_id ev of None \<Rightarrow> new_effect (hop_map h) m' | Some i \<Rightarrow> line_effect i (hop_map h) m'))"
      using HopXoff by auto
  qed (use HopXoff in simp)
next
  case (HopWake i)
  then show ?thesis using g ps_wake_good
    by (auto simp: hop_step_def step_ok_def step_effect_def line_effect_def ps_wake_def fun_upd_idem)
next
  case HopServe
  obtain r h' where s: "hop_serve n h = (r, h')" by fastforce
  then show ?thesis using hop_serve_ok [OF g s] HopServe by (simp add: hop_step_def step_ok_def step_effect_def)
qed

lemma hop_run_good:
  "sm_good n (hop_map h) \<Longrightarrow> hop_run cs n evs h = (r, h') \<Longrightarrow>
     sm_good n (hop_map h') \<and> (\<forall>s. r = Inl (Panic s) \<longrightarrow> s = queue_overflow)"
proof (induction evs arbitrary: h r h')
  case Nil
  then show ?case by (auto simp: op_ret_def)
next
  case (Cons ev evs)
  obtain r1 h1 where s: "hop_step cs n ev h = (r1, h1)" by fastforce
  have ok: "sm_good n (hop_map h1)" "\<forall>s. r1 = Inl (Panic s) \<longrightarrow> s = queue_overflow"
    using hop_step_ok [OF Cons.prems(1), of ev cs] s by (auto simp: step_ok_def)
  show ?case
  proof (cases r1)
    case (Inl e)
    then show ?thesis using Cons.prems(2) s ok by (simp add: op_bind_def)
  next
    case (Inr xs)
    obtain r2 h2 where t: "hop_run cs n evs h1 = (r2, h2)" by fastforce
    then show ?thesis using Cons.IH [OF ok(1) t] Cons.prems(2) s Inr
      by (cases r2) (auto simp: op_bind_def op_ret_def)
  qed
qed

lemma hop_new_good:
  "hop_new num settings first = Inr h \<Longrightarrow> first \<noteq> 0 \<Longrightarrow> sm_good n (hop_map h)"
  by (auto simp: hop_new_def res_bind_def sm_new_def ps_good_new split: sum.splits)

lemma polled_ready_or_armed:
  assumes "polled n m opn" and "ps_abs opn i = Some (p, e)"
  shows "(i, answer n e) \<in> set (map (\<lambda>((p, i), e). (i, answer n e)) (ready_streams opn)) \<or> armed (ent_poll_peek n) i e"
proof -
  have inv: "ps_inv opn" using assms(1) by (simp add: polled_def ps_good_def)
  show ?thesis
  proof (cases rule: ps_key_cases [OF inv, of i])
    case (3 q t)
    then have "((p, i), e) \<in> set (ready_streams opn)" using assms(2) by (auto dest: map_of_SomeD)
    then show ?thesis by force
  qed (use assms in \<open>auto simp: polled_def\<close>)
qed

text \<open>No stream of a hop is ever forgotten. Start from a new hop and let anything happen: streams
  begin or are accepted, close, receive messages (data, END, SENDME, XON, XOFF, nonsense), are
  woken by their writers and are served by the reactor, until an error tears the circuit down.
  No operation panics, short of a queue of more than \<open>usize::MAX\<close> bytes; and when the streams
  are polled next, each open stream is either listed as ready or has left its waker with what
  it waits for, its messages or flow control, so that the SENDME or the message that ends the
  wait reports it.\<close>

theorem hop_forgets_no_stream:
  assumes "hop_new num settings first = Inr h0" and "first \<noteq> 0" and "hop_run cs n evs h0 = (r, h)"
  shows "(\<forall>s. r = Inl (Panic s) \<longrightarrow> s = queue_overflow) \<and>
    (\<exists>rs m. poll_ready_streams_iter n (hop_map h) = (Inr rs, m) \<and>
       (\<forall>i p e. ps_abs (open_streams m) i = Some (p, e) \<longrightarrow>
          (i, answer n e) \<in> set rs \<or> armed (ent_poll_peek n) i e))"
proof -
  have g: "sm_good n (hop_map h)" and p: "\<forall>s. r = Inl (Panic s) \<longrightarrow> s = queue_overflow"
    using hop_run_good [OF hop_new_good [OF assms(1,2)] assms(3)] by auto
  obtain opn where opn: "polled n (hop_map h) opn" "poll_ready_streams_iter n (hop_map h) =
      (Inr (map (\<lambda>((p, i), e). (i, answer n e)) (ready_streams opn)), (hop_map h)\<lparr>open_streams := opn\<rparr>)"
    using poll_iter_good [OF g] by blast
  define rs m where "rs = map (\<lambda>((p, i), e). (i, answer n e)) (ready_streams opn)"
    and "m = (hop_map h)\<lparr>open_streams := opn\<rparr>"
  have "(i, answer n e) \<in> set rs \<or> armed (ent_poll_peek n) i e" if "ps_abs (open_streams m) i = Some (p, e)" for i p e
    using polled_ready_or_armed [OF opn(1), of i p e] that unfolding rs_def m_def by simp
  moreover have "poll_ready_streams_iter n (hop_map h) = (Inr rs, m)" using opn(2) by (simp add: rs_def m_def)
  ultimately show ?thesis using p by blast
qed

text \<open>A hop to evaluate: three streams that always have a DATA message to send.\<close>

definition demo_settings :: hop_settings where
  "demo_settings =
     \<lparr>hs_ccontrol =
        \<lparr>alg = FixedWindowAlg \<lparr>circ_window_start = 1000, circ_window_min = 100, circ_window_max = 1000\<rparr>,
         ccp_fixed_window = \<lparr>circ_window_start = 1000, circ_window_min = 100, circ_window_max = 1000\<rparr>,
         ccp_cwnd = \<lparr>cwnd_init = 124, cwnd_inc_pct_ss = 100, cwnd_inc = 1, cwnd_inc_rate = 31,
           cwnd_min = 124, cwnd_max = 4294967295, sendme_inc_param = 31\<rparr>,
         ccp_rtt = \<lparr>ewma_cwnd_pct = 50, ewma_max = 10, ewma_ss_max = 2, rtt_reset_pct = 100\<rparr>\<rparr>,
      hs_protocol = ProtoTor1 FmtV0, hs_n_incoming = None, hs_n_outgoing = None\<rparr>"

definition demo_next :: "unit rx_next" where
  "demo_next w s = (Ready (Some (Data [1])), s)"

definition demo_send :: "unit chan_send" where
  "demo_send u c = (Inr (), c)"

definition demo_accept :: "stream_id \<Rightarrow> (unit, unit, unit) hop_event" where
  "demo_accept i = HopAccept (queue_new ()) () 0 0 i data_checker_connected"

definition demo_hop :: "(unit, unit, unit) circ_hop" where
  "demo_hop = (case hop_new 0 demo_settings 5 of Inr h \<Rightarrow> h)"

lemma demo_hop_new: "hop_new 0 demo_settings 5 = Inr demo_hop"
  by (simp add: demo_hop_def hop_new_def cc_new_def demo_settings_def)

theorem hop_forgets_no_stream_witness:
  "\<exists>rs m. poll_ready_streams_iter demo_next (hop_map (snd (hop_run demo_send demo_next [demo_accept 5, demo_accept 6, HopServe] demo_hop))) = (Inr rs, m) \<and>
     (\<forall>i p e. ps_abs (open_streams m) i = Some (p, e) \<longrightarrow>
        (i, answer demo_next e) \<in> set rs \<or> armed (ent_poll_peek demo_next) i e)"
proof -
  let ?evs = "[demo_accept 5, demo_accept 6, HopServe]"
  have "hop_run demo_send demo_next ?evs demo_hop =
      (fst (hop_run demo_send demo_next ?evs demo_hop), snd (hop_run demo_send demo_next ?evs demo_hop))" by simp
  from hop_forgets_no_stream [OF demo_hop_new _ this] show ?thesis by auto
qed

section \<open>Fairness\<close>

abbreviation prio :: "('c, 'v, 'r) stream_map \<Rightarrow> stream_id \<rightharpoonup> u64" where
  "prio m \<equiv> map_of (priorities (open_streams m))"

text \<open>Priorities are distinct and below the next one.\<close>

definition line_ok :: "('c, 'v, 'r) stream_map \<Rightarrow> bool" where
  "line_ok m \<longleftrightarrow> (\<forall>k p. prio m k = Some p \<longrightarrow> p < next_priority m \<and> (\<forall>k'. prio m k' = Some p \<longrightarrow> k' = k))"

text \<open>The streams ahead of \<open>i\<close>; a stream that waits its turn.\<close>

definition ahead :: "('c, 'v, 'r) stream_map \<Rightarrow> stream_id \<Rightarrow> stream_id set" where
  "ahead m i = {k. \<exists>p q. prio m k = Some p \<and> prio m i = Some q \<and> p < q}"

definition waits :: "('c, 'v, 'r) stream_map \<Rightarrow> stream_id \<Rightarrow> bool" where
  "waits m i \<longleftrightarrow> (\<exists>q. prio m i = Some q \<and> map_of (ready_streams (open_streams m)) (q, i) \<noteq> None)"

lemma ahead_finite: "finite (ahead m i)"
proof -
  have "ahead m i \<subseteq> dom (prio m)" by (auto simp: ahead_def)
  then show ?thesis using finite_dom_map_of finite_subset by blast
qed

lemma line_step:
  assumes "line_ok m" and "waits m i" and "line_effect k m m'" and "k \<noteq> i"
  shows "line_ok m' \<and> waits m' i \<and> ahead m' i \<subseteq> ahead m i"
  using assms by (auto simp: line_ok_def waits_def ahead_def line_effect_def split: if_splits)

lemma next_above: "(x :: u64) + 1 \<noteq> 0 \<Longrightarrow> x < x + 1"
  using unatSuc [of x] by (simp add: word_less_nat_alt add.commute)

text \<open>Giving one stream, possibly a new one, the next priority.\<close>

lemma back_of_line:
  assumes ok: "line_ok m" and p: "prio m' = (prio m)(j \<mapsto> next_priority m)"
    and n: "next_priority m' = next_priority m + 1" "next_priority m + 1 \<noteq> 0"
  shows "line_ok m'" and "i \<noteq> j \<Longrightarrow> ahead m' i = ahead m i - {j}"
proof -
  have lt: "next_priority m < next_priority m + 1" using n(2) by (rule next_above)
  have old: "q < next_priority m \<and> (\<forall>k'. prio m k' = Some q \<longrightarrow> k' = k)" if "prio m k = Some q" for k q
    using ok that by (auto simp: line_ok_def)
  have "q < next_priority m' \<and> (\<forall>k'. prio m' k' = Some q \<longrightarrow> k' = k)" if "prio m' k = Some q" for k q
  proof (cases "k = j")
    case True
    then have q: "q = next_priority m" using that p by simp
    have "k' = j" if k': "prio m' k' = Some q" for k'
    proof (rule ccontr)
      assume "k' \<noteq> j"
      then have "prio m k' = Some q" using k' p by simp
      then show False using old [of k' q] q by simp
    qed
    then show ?thesis using q lt n(1) True by simp
  next
    case False
    then have q: "prio m k = Some q" using that p by simp
    have "k' = k" if k': "prio m' k' = Some q" for k'
    proof (cases "k' = j")
      case True
      then have "q = next_priority m" using k' p by simp
      then show ?thesis using old [OF q] by simp
    next
      case False
      then have "prio m k' = Some q" using k' p by simp
      then show ?thesis using old [OF q] by blast
    qed
    moreover have "q < next_priority m'" using old [OF q] lt n(1) by (metis order.strict_trans)
    ultimately show ?thesis by blast
  qed
  then show "line_ok m'" by (simp add: line_ok_def)
  assume i: "i \<noteq> j"
  show "ahead m' i = ahead m i - {j}"
  proof (intro set_eqI iffI)
    fix k assume "k \<in> ahead m' i"
    then obtain a b where "prio m' k = Some a" "prio m i = Some b" "a < b" using p i by (auto simp: ahead_def)
    moreover have "k \<noteq> j"
    proof
      assume "k = j"
      then have "next_priority m < b" using calculation p by simp
      then show False using old [of i b] calculation(2) by (meson order.asym)
    qed
    ultimately show "k \<in> ahead m i - {j}" using p by (auto simp: ahead_def)
  qed (use p i in \<open>auto simp: ahead_def\<close>)
qed

lemma new_step:
  assumes "line_ok m" and "waits m i" and "new_effect m m'" and "next_priority m + 1 \<noteq> 0"
  shows "line_ok m' \<and> waits m' i \<and> ahead m' i \<subseteq> ahead m i"
proof -
  obtain j where j: "prio m j = None" "prio m' = (prio m)(j \<mapsto> next_priority m)"
      "ready_streams (open_streams m') = ready_streams (open_streams m)" "next_priority m' = next_priority m + 1"
    using assms(3) by (auto simp: new_effect_def)
  have "i \<noteq> j" using assms(2) j(1) by (auto simp: waits_def)
  then show ?thesis using back_of_line [OF assms(1) j(2,4) assms(4)] assms(2) j by (auto simp: waits_def)
qed

text \<open>A round that serves another stream takes one stream from ahead.\<close>

lemma serve_step:
  assumes ok: "line_ok m" and w: "waits m i" and s: "serve_effect n m m' xs" and n: "next_priority m + 1 \<noteq> 0"
    and i: "i \<notin> set xs"
  shows "line_ok m' \<and> waits m' i \<and> card (ahead m' i) + length xs \<le> card (ahead m i)"
proof -
  obtain q e0 where q: "prio m i = Some q" "map_of (ready_streams (open_streams m)) (q, i) = Some e0"
    using w by (auto simp: waits_def)
  obtain opn where opn: "polled n m opn" and c: "xs = [] \<and> ready_streams opn = [] \<and> prio m' = prio m \<and> next_priority m' = next_priority m \<or>
         (\<exists>p j e es. ready_streams opn = ((p, j), e) # es \<and> xs = [j] \<and>
            (prio m' = (prio m)(j := None) \<and> next_priority m' = next_priority m \<or>
             prio m' = (prio m)(j \<mapsto> next_priority m) \<and> next_priority m' = next_priority m + 1) \<and>
            (\<forall>q i. i \<noteq> j \<longrightarrow> map_of (ready_streams (open_streams m')) (q, i) = map_of (ready_streams opn) (q, i)))"
    using s unfolding serve_effect_def by blast
  have r: "map_of (ready_streams opn) (q, i) = Some e0" using opn q(2) by (simp add: polled_def)
  then obtain p j e es where h: "ready_streams opn = ((p, j), e) # es" "xs = [j]"
      "prio m' = (prio m)(j := None) \<and> next_priority m' = next_priority m \<or>
       prio m' = (prio m)(j \<mapsto> next_priority m) \<and> next_priority m' = next_priority m + 1"
      "\<forall>q i. i \<noteq> j \<longrightarrow> map_of (ready_streams (open_streams m')) (q, i) = map_of (ready_streams opn) (q, i)"
    using c by auto
  have ij: "i \<noteq> j" using i h(2) by simp
  have pj: "prio m j = Some p" using polled_head(1) [OF opn h(1)] opn by (simp add: polled_def)
  have "((q, i), e0) \<in> set es" using map_of_SomeD [OF r] h(1) ij by auto
  moreover have "\<forall>x \<in> set es. (p, j) < fst x"
    using opn h(1) by (simp add: polled_def ps_good_def ps_inv_def)
  ultimately have "(p, j) < (q, i)" by fastforce
  then have "p \<le> q" by (auto simp: less_prod_def)
  moreover have "p \<noteq> q" using ok pj q(1) ij by (auto simp: line_ok_def)
  ultimately have a: "j \<in> ahead m i" using pj q(1) by (auto simp: ahead_def)
  have w': "waits m' i" using h(3,4) q(1) r ij by (auto simp: waits_def)
  have "line_ok m' \<and> ahead m' i = ahead m i - {j}"
  proof (cases "prio m' = (prio m)(j := None) \<and> next_priority m' = next_priority m")
    case True
    then have "line_ok m'" using ok by (auto simp: line_ok_def split: if_splits)
    moreover have "ahead m' i = ahead m i - {j}" using True ij by (auto simp: ahead_def split: if_splits)
    ultimately show ?thesis ..
  next
    case False
    then show ?thesis using h(3) back_of_line [OF ok _ _ n] ij by blast
  qed
  moreover have "card (ahead m i) > 0" using a ahead_finite card_gt_0_iff by blast
  ultimately show ?thesis using a h(2) w' ahead_finite [of m i] by (simp add: card_Diff_singleton)
qed

lemma step_line_ok:
  assumes ok: "line_ok m" and s: "step_effect n ev m m' xs" and n: "next_priority m + 1 \<noteq> 0"
  shows "line_ok m' \<and> unat (next_priority m') \<le> Suc (unat (next_priority m))"
proof -
  have le: "unat (next_priority m + 1) \<le> Suc (unat (next_priority m))"
    using unatSuc [of "next_priority m"] n by (simp add: add.commute)
  have leave: "line_ok m'" if "prio m' = (prio m)(j := x)" "x \<in> {prio m j, None}" "next_priority m' = next_priority m" for j x
    using ok that by (auto simp: line_ok_def split: if_splits)
  have to_back: "line_ok m'" if "prio m' = (prio m)(j \<mapsto> next_priority m)" "next_priority m' = next_priority m + 1" for j
    using back_of_line(1) [OF ok that n] .
  show ?thesis
  proof (cases "ev = HopServe")
    case True
    then have "serve_effect n m m' xs" using s by (simp add: step_effect_def)
    then consider "prio m' = prio m" "next_priority m' = next_priority m"
      | j where "prio m' = (prio m)(j := None)" "next_priority m' = next_priority m"
      | j where "prio m' = (prio m)(j \<mapsto> next_priority m)" "next_priority m' = next_priority m + 1"
      unfolding serve_effect_def by blast
    then show ?thesis
    proof cases
      case 1
      then show ?thesis using ok by (simp add: line_ok_def)
    next
      case (2 j)
      then show ?thesis using leave by simp
    next
      case (3 j)
      then show ?thesis using to_back le by simp
    qed
  next
    case False
    show ?thesis
    proof (cases "event_id ev")
      case None
      then have "new_effect m m'" using s False by (simp add: step_effect_def)
      then show ?thesis using to_back le by (auto simp: new_effect_def)
    next
      case (Some k)
      then have "line_effect k m m'" using s False by (simp add: step_effect_def)
      then obtain x where "x \<in> {prio m k, None}" "prio m' = (prio m)(k := x)" "next_priority m' = next_priority m"
        unfolding line_effect_def by blast
      then show ?thesis using leave by simp
    qed
  qed
qed

lemma hop_step_Inr:
  "sm_good n (hop_map h) \<Longrightarrow> hop_step cs n ev h = (Inr xs, h') \<Longrightarrow>
     sm_good n (hop_map h') \<and> step_effect n ev (hop_map h) (hop_map h') xs"
  using hop_step_ok [of n h ev cs] by (simp add: step_ok_def)

lemma hop_run_ConsD:
  assumes "hop_run cs n (ev # evs) h = (Inr zs, h')"
  obtains xs h1 ys where "hop_step cs n ev h = (Inr xs, h1)" "hop_run cs n evs h1 = (Inr ys, h')" "zs = xs @ ys"
  using assms by (auto simp: op_bind_def op_ret_def split: prod.splits sum.splits)

lemma no_wrap: "unat (x :: u64) + Suc k < 2 ^ 64 \<Longrightarrow> x + 1 \<noteq> 0"
proof
  assume b: "unat x + Suc k < 2 ^ 64" and z: "x + 1 = 0"
  have "Suc (unat x) < 2 ^ 64" using b by linarith
  then have "unat (x + 1) = Suc (unat x)" by (simp add: unat_word_ariths)
  then show False using z by simp
qed

lemma hop_run_line_ok:
  "sm_good n (hop_map h) \<Longrightarrow> line_ok (hop_map h) \<Longrightarrow> unat (next_priority (hop_map h)) + length evs < 2 ^ 64 \<Longrightarrow>
   hop_run cs n evs h = (Inr xs, h') \<Longrightarrow>
     line_ok (hop_map h') \<and> unat (next_priority (hop_map h')) \<le> unat (next_priority (hop_map h)) + length evs"
proof (induction evs arbitrary: h xs)
  case Nil
  then show ?case by (simp add: op_ret_def)
next
  case (Cons ev evs)
  obtain ys h1 zs where s: "hop_step cs n ev h = (Inr ys, h1)" "hop_run cs n evs h1 = (Inr zs, h')"
    using Cons.prems(4) by (rule hop_run_ConsD)
  have e: "sm_good n (hop_map h1)" "step_effect n ev (hop_map h) (hop_map h1) ys"
    using hop_step_Inr [OF Cons.prems(1) s(1)] by auto
  have "next_priority (hop_map h) + 1 \<noteq> 0" using Cons.prems(3) by (intro no_wrap) simp
  note l = step_line_ok [OF Cons.prems(2) e(2) this]
  then have "unat (next_priority (hop_map h1)) + length evs < 2 ^ 64" using Cons.prems(3) by simp
  then show ?case using Cons.IH [OF e(1) _ _ s(2)] l by auto
qed

lemma hop_run_fair:
  "sm_good n (hop_map h) \<Longrightarrow> line_ok (hop_map h) \<Longrightarrow> unat (next_priority (hop_map h)) + length evs < 2 ^ 64 \<Longrightarrow>
   waits (hop_map h) i \<Longrightarrow> \<forall>ev \<in> set evs. event_id ev \<noteq> Some i \<Longrightarrow>
   hop_run cs n evs h = (Inr xs, h') \<Longrightarrow> i \<notin> set xs \<Longrightarrow>
     length xs \<le> card (ahead (hop_map h) i)"
proof (induction evs arbitrary: h xs)
  case Nil
  then show ?case by (simp add: op_ret_def)
next
  case (Cons ev evs)
  obtain ys h1 zs where s: "hop_step cs n ev h = (Inr ys, h1)" "hop_run cs n evs h1 = (Inr zs, h')" "xs = ys @ zs"
    using Cons.prems(6) by (rule hop_run_ConsD)
  have e: "sm_good n (hop_map h1)" "step_effect n ev (hop_map h) (hop_map h1) ys"
    using hop_step_Inr [OF Cons.prems(1) s(1)] by auto
  have nz: "next_priority (hop_map h) + 1 \<noteq> 0" using Cons.prems(3) by (intro no_wrap) simp
  note l = step_line_ok [OF Cons.prems(2) e(2) nz]
  have "waits (hop_map h1) i \<and> card (ahead (hop_map h1) i) + length ys \<le> card (ahead (hop_map h) i)"
  proof (cases "ev = HopServe")
    case True
    then show ?thesis using serve_step [OF Cons.prems(2,4) _ nz] e(2) Cons.prems(7) s(3) by (simp add: step_effect_def)
  next
    case False
    then have "ys = []" using e(2) by (simp add: step_effect_def)
    moreover have "waits (hop_map h1) i \<and> ahead (hop_map h1) i \<subseteq> ahead (hop_map h) i"
    proof (cases "event_id ev")
      case None
      then show ?thesis using new_step [OF Cons.prems(2,4) _ nz] e(2) False by (simp add: step_effect_def)
    next
      case (Some k)
      then have "line_effect k (hop_map h) (hop_map h1)" using e(2) False by (simp add: step_effect_def)
      moreover have "k \<noteq> i" using Some Cons.prems(5) by auto
      ultimately show ?thesis using line_step [OF Cons.prems(2,4)] by blast
    qed
    ultimately show ?thesis using card_mono [OF ahead_finite] by auto
  qed
  moreover have "length zs \<le> card (ahead (hop_map h1) i)"
  proof (rule Cons.IH [OF e(1) _ _ _ _ s(2)])
    show "unat (next_priority (hop_map h1)) + length evs < 2 ^ 64" using l Cons.prems(3) by simp
  qed (use l calculation Cons.prems s(3) in auto)
  ultimately show ?case using s(3) by simp
qed

lemma ahead_below_open:
  assumes "sm_ok m" and "waits m i"
  shows "card (ahead m i) < n_open_streams m"
proof -
  have d: "distinct (map fst (priorities (open_streams m)))" using assms(1) by (simp add: sm_ok_def ps_inv_def)
  have "ahead m i \<subseteq> dom (prio m) - {i}" by (auto simp: ahead_def)
  then have "card (ahead m i) \<le> card (dom (prio m) - {i})" by (intro card_mono) (auto simp: finite_dom_map_of)
  also have "\<dots> < card (dom (prio m))"
    using assms(2) by (intro psubset_card_mono) (auto simp: waits_def finite_dom_map_of)
  also have "card (dom (prio m)) = n_open_streams m"
    using d by (simp add: dom_map_of_conv_image_fst n_open_streams_def ps_len_def card_image distinct_map distinct_card)
  finally show ?thesis .
qed

text \<open>C8: round robin is fair. Once a stream is among the ready streams of a hop, fewer rounds than the
  hop has open streams can serve another stream before it is served itself, whatever else
  happens to the other streams in between: new streams begin, others close or receive messages.
  (The 64-bit counter of priorities must not have wrapped, which takes \<open>2 ^ 64\<close> operations.)\<close>

theorem round_robin_fair:
  assumes "hop_new num settings first = Inr h0" and "first \<noteq> 0" and "hop_run cs n evs0 h0 = (Inr ys, h)"
    and "waits (hop_map h) i" and "\<forall>ev \<in> set evs. event_id ev \<noteq> Some i"
    and "hop_run cs n evs h = (Inr xs, h')" and "i \<notin> set xs" and "length evs0 + length evs < 2 ^ 64"
  shows "length xs < hop_n_open_streams h"
proof -
  have n0: "next_priority (hop_map h0) = 0" "line_ok (hop_map h0)"
    using assms(1) by (auto simp: hop_new_def res_bind_def sm_new_def ps_new_def line_ok_def split: sum.splits)
  note g0 = hop_new_good [OF assms(1,2)]
  have g: "sm_good n (hop_map h)" using hop_run_good [OF g0 assms(3)] by blast
  have l: "line_ok (hop_map h)" "unat (next_priority (hop_map h)) \<le> length evs0"
    using hop_run_line_ok [OF g0 n0(2) _ assms(3)] n0(1) assms(8) by auto
  have "unat (next_priority (hop_map h)) + length evs < 2 ^ 64" using l(2) assms(8) by simp
  from hop_run_fair [OF g l(1) this assms(4,5,6,7)] show ?thesis
    using ahead_below_open [OF sm_good_ok [OF g] assms(4)] by (simp add: hop_n_open_streams_def)
qed

definition demo_run :: "(proto_error + stream_id list) \<times> (unit, unit, unit) circ_hop" where
  "demo_run = hop_run demo_send demo_next [demo_accept 5, demo_accept 6, demo_accept 7, HopServe] demo_hop"

lemma demo_run_state:
  "(case demo_run of (r, h) \<Rightarrow>
      (r, priorities (open_streams (hop_map h)), map fst (ready_streams (open_streams (hop_map h))))) =
   (Inr [5], [(5, 3), (6, 1), (7, 2)], [(1, 6), (2, 7)])"
  by code_simp

lemma demo_run_next: "(case demo_run of (r, h) \<Rightarrow> fst (hop_run demo_send demo_next [HopServe] h)) = Inr [6]"
  by code_simp

theorem round_robin_fair_witness:
  "\<exists>h ys xs h'. hop_run demo_send demo_next [demo_accept 5, demo_accept 6, demo_accept 7, HopServe] demo_hop = (Inr ys, h) \<and>
     hop_run demo_send demo_next [HopServe] h = (Inr xs, h') \<and> xs = [6] \<and> length xs < hop_n_open_streams h"
proof -
  obtain r0 h where d: "demo_run = (r0, h)" by (cases demo_run)
  have s: "(r0, priorities (open_streams (hop_map h)), map fst (ready_streams (open_streams (hop_map h)))) =
      (Inr [5], [(5, 3), (6, 1), (7, 2)], [(1, 6), (2, 7)])"
    using demo_run_state unfolding d prod.case .
  then have r: "demo_run = (Inr [5], h)" and p: "priorities (open_streams (hop_map h)) = [(5, 3), (6, 1), (7, 2)]"
      and f: "map fst (ready_streams (open_streams (hop_map h))) = [(1, 6), (2, 7)]"
    unfolding d prod.inject by blast+
  obtain h' where x: "hop_run demo_send demo_next [HopServe] h = (Inr [6], h')"
    using demo_run_next unfolding d prod.case by (metis prod.collapse)
  have "(2, 7) \<in> fst ` set (ready_streams (open_streams (hop_map h)))" using arg_cong [OF f, of set] by simp
  then have w: "waits (hop_map h) 7" using p by (simp add: waits_def map_of_eq_None_iff)
  have "length [6 :: stream_id] < hop_n_open_streams h"
    by (rule round_robin_fair [OF demo_hop_new _ r [unfolded demo_run_def] w _ x]) simp_all
  then show ?thesis using r x by (auto simp: demo_run_def)
qed

section \<open>Limits on cells\<close>

text \<open>How many of \<open>k\<close> cells pass a limit before it refuses.\<close>

fun cells_passed :: "('h, unit) op \<Rightarrow> nat \<Rightarrow> 'h \<Rightarrow> nat" where
  "cells_passed limit 0 h = 0"
| "cells_passed limit (Suc k) h =
     (case limit h of (Inl _, _) \<Rightarrow> 0 | (Inr _, h') \<Rightarrow> Suc (cells_passed limit k h'))"

lemma limit_step:
  assumes "x \<noteq> 0"
  shows "try_decrement_cell_limit (Some x) = (if unat x = 1 then None else Some (Some (x - 1)))"
    and "unat x \<noteq> 1 \<Longrightarrow> x - 1 \<noteq> 0 \<and> unat (x - 1) = unat x - 1"
proof -
  show "try_decrement_cell_limit (Some x) = (if unat x = 1 then None else Some (Some (x - 1)))"
    by (simp add: try_decrement_cell_limit_def word_unat_eq_iff)
  have "unat (x - 1) = unat x - 1" using assms by (intro unat_minus_one_w) simp
  then show "unat x \<noteq> 1 \<Longrightarrow> x - 1 \<noteq> 0 \<and> unat (x - 1) = unat x - 1" by auto
qed

text \<open>Both limits are the same operation on different fields.\<close>

lemma limit_passed:
  assumes limit: "\<And>h. limit h = (case try_decrement_cell_limit (get h) of None \<Rightarrow> (Inl e, h) | Some v \<Rightarrow> (Inr (), put v h))"
    and put: "\<And>v h. get (put v h) = v"
  shows "get h = Some x \<Longrightarrow> x \<noteq> 0 \<Longrightarrow> cells_passed limit k h = min k (unat x - 1)"
proof (induction k arbitrary: h x)
  case (Suc k)
  note l = limit_step [OF Suc.prems(2)]
  show ?case
  proof (cases "unat x = 1")
    case True
    then show ?thesis using Suc.prems l(1) by (simp add: limit)
  next
    case False
    then have "limit h = (Inr (), put (Some (x - 1)) h)" using Suc.prems(1) l(1) by (simp add: limit)
    moreover have "cells_passed limit k (put (Some (x - 1)) h) = min k (unat (x - 1) - 1)"
      using Suc.IH [OF put] l(2) [OF False] by blast
    moreover have "0 < unat x" using Suc.prems(2) by (simp add: unat_gt_0)
    ultimately show ?thesis using l(2) [OF False] False by simp
  qed
qed simp

lemmas outbound_passed = limit_passed [where get = n_outgoing_cells_permitted
    and put = "\<lambda>v h. h\<lparr>n_outgoing_cells_permitted := v\<rparr>", OF decrement_outbound_cell_limit_def, simplified]
lemmas inbound_passed = limit_passed [where get = n_incoming_cells_permitted
    and put = "\<lambda>v h. h\<lparr>n_incoming_cells_permitted := v\<rparr>", OF decrement_inbound_cell_limit_def, simplified]

lemma cvt_limit_unat: "unat (cvt_limit x) = min (unat x + 1) (2 ^ 32 - 1) \<and> cvt_limit x \<noteq> 0"
proof -
  have "unat (- 1 :: u32) = 4294967295" by (simp add: unsigned_minus_1_eq_mask mask_eq_exp_minus_1)
  then have "unat (cvt_limit x) = min (unat x + 1) (2 ^ 32 - 1)"
    by (auto simp: cvt_limit_def saturating_add_w_def unat_word_ariths)
  moreover have "unat (cvt_limit x) \<noteq> 0" unfolding calculation by simp
  ultimately show ?thesis by auto
qed

text \<open>C27: the limit on the cells of a hop. A new hop with a limit of \<open>k\<close> outgoing (incoming) cells lets
  exactly \<open>k\<close> cells pass and refuses every further one with an error, except that the largest
  limit of \<open>2 ^ 32 - 1\<close> counts as one less.\<close>

theorem cell_limit_exact:
  assumes "hop_new num settings first = Inr h"
  shows "(\<forall>k. hs_n_outgoing settings = Some k \<longrightarrow>
      cells_passed decrement_outbound_cell_limit j h = min j (min (unat k) (2 ^ 32 - 2))) \<and>
    (\<forall>k. hs_n_incoming settings = Some k \<longrightarrow>
      cells_passed decrement_inbound_cell_limit j h = min j (min (unat k) (2 ^ 32 - 2)))"
proof -
  have o: "n_outgoing_cells_permitted h = map_option cvt_limit (hs_n_outgoing settings)"
    and i: "n_incoming_cells_permitted h = map_option cvt_limit (hs_n_incoming settings)"
    using assms by (auto simp: hop_new_def res_bind_def split: sum.splits)
  have n: "cvt_limit k \<noteq> 0" "unat (cvt_limit k) - Suc 0 = min (unat k) (2 ^ 32 - 2)" for k
    using cvt_limit_unat [of k] by simp_all
  have "cells_passed decrement_outbound_cell_limit j h = min j (min (unat k) (2 ^ 32 - 2))"
    if "hs_n_outgoing settings = Some k" for k
    using outbound_passed [of h "cvt_limit k" j] o that n by simp
  moreover have "cells_passed decrement_inbound_cell_limit j h = min j (min (unat k) (2 ^ 32 - 2))"
    if "hs_n_incoming settings = Some k" for k
    using inbound_passed [of h "cvt_limit k" j] i that n by simp
  ultimately show ?thesis by blast
qed

theorem cell_limit_exact_witness:
  "\<exists>h. hop_new 0 (demo_settings\<lparr>hs_n_outgoing := Some 8\<rparr>) 5 = Inr (h :: (unit, unit, unit) circ_hop) \<and>
     cells_passed decrement_outbound_cell_limit 10 h = 8"
proof -
  obtain h :: "(unit, unit, unit) circ_hop" where h: "hop_new 0 (demo_settings\<lparr>hs_n_outgoing := Some 8\<rparr>) 5 = Inr h"
    by (simp add: hop_new_def cc_new_def demo_settings_def)
  from cell_limit_exact [OF h, of 10] h show ?thesis by simp
qed

end
