(* ===== verification/Conflux_Handler.thy ===== *)
theory Conflux_Handler
  imports Circ_Hop
begin

text \<open>
  The conflux message handler of one circuit of a multipath tunnel
  (\<open>tor-proto/src/tunnel/reactor/conflux/msghandler.rs\<close> and \<open>msghandler/client.rs\<close>): the linking
  handshake, and the sequence numbers that put the messages of several circuits back in order.
  The number of the last message delivered is shared by the circuits of a set (an atomic behind
  an \<open>Arc\<close>); here it is an argument of the functions that read it and a result of those that
  change it. The wall clock is the argument \<open>now\<close>, in nanoseconds.
\<close>

section \<open>Which commands are multiplexed\<close>

definition cmd_counts_towards_seqno :: "relay_cmd \<Rightarrow> bool" where
  "cmd_counts_towards_seqno cmd \<longleftrightarrow>
     cmd \<in> {RelayCmd_BEGIN, RelayCmd_DATA, RelayCmd_END, RelayCmd_CONNECTED, RelayCmd_RESOLVE, RelayCmd_RESOLVED,
            RelayCmd_XOFF, RelayCmd_XON}"

section \<open>The client's handler\<close>

datatype conflux_state = StUnlinked | StAwaitingLink v1_nonce | StLinked

datatype conflux_status = Unlinked | LinkPending | Linked

record conflux_msg_handler =
  cx_state :: conflux_state
  cx_nonce :: v1_nonce
  cx_join_point :: hop_num
  cx_init_rtt :: "nat option"
  cx_link_sent :: "nat option"
  cx_last_seq_recv :: u64
  cx_last_seq_sent :: u64

definition conflux_handler_new :: "hop_num \<Rightarrow> v1_nonce \<Rightarrow> conflux_msg_handler" where
  "conflux_handler_new join_point n =
     \<lparr>cx_state = StUnlinked, cx_nonce = n, cx_join_point = join_point, cx_init_rtt = None, cx_link_sent = None,
      cx_last_seq_recv = 0, cx_last_seq_sent = 0\<rparr>"

definition validate_source_hop :: "hop_num \<Rightarrow> (conflux_msg_handler, unit) op" where
  "validate_source_hop hop c =
     (if hop \<noteq> cx_join_point c
      then (Inl (CircProto ''Received a cell from unexpected hop on client conflux circuit''), c)
      else (Inr (), c))"

definition unsupported_client_cell :: proto_error where
  "unsupported_client_cell = CircProto ''Unexpected cell on client circuit''"

text \<open>\<open>Duration::from_secs(u64::MAX)\<close>, used when the clock has gone backwards.\<close>

definition rtt_since :: "nat \<Rightarrow> nat \<Rightarrow> nat" where
  "rtt_since link_sent now = (if link_sent \<le> now then now - link_sent else 18446744073709551615 * 1000000000)"

definition handle_conflux_linked :: "nat \<Rightarrow> unparsed_relay_msg \<Rightarrow> hop_num \<Rightarrow> (conflux_msg_handler, circuit_cmd option) op" where
  "handle_conflux_linked now m hop c =
     (case cx_link_sent c of
        None \<Rightarrow> (Inl (CircProto ''Received CONFLUX_LINKED cell before sending CONFLUX_LINK?!''), c)
      | Some link_sent \<Rightarrow>
          (case cx_state c of
             StUnlinked \<Rightarrow> (Inl (CircProto ''Received CONFLUX_LINKED cell before sending CONFLUX_LINK?!''), c)
           | StLinked \<Rightarrow> (Inl (CircProto ''Received CONFLUX_LINKED on already linked circuit''), c)
           | StAwaitingLink expected_nonce \<Rightarrow>
               (case unparsed_decode (decode_as RelayCmd_CONFLUX_LINKED conflux_link_decode) m of
                  Inl e \<Rightarrow> (Inl (BytesErr e ''linked message''), c)
                | Inr linked \<Rightarrow>
                    (if expected_nonce \<noteq> lk_nonce (lk_payload (rmsg linked))
                     then (Inl (CircProto ''Received CONFLUX_LINKED cell with mismatched nonce''), c)
                     else
                       (let c = c\<lparr>cx_state := StLinked\<rparr>;
                            c = c\<lparr>cx_init_rtt := Some (rtt_since link_sent now)\<rparr> in
                        (Inr (Some (CmdConfluxHandshakeComplete
                           \<lparr>src_hop = hop, src_early = False,
                            src_cell = \<lparr>streamid = None, rmsg = ConfluxLinkedAck\<rparr>\<rparr>)), c))))))"

definition validate_switch_seqno :: "u32 \<Rightarrow> proto_error + unit" where
  "validate_switch_seqno rel_seqno =
     (if rel_seqno = 0 then Inl (CircProto ''Received SWITCH cell with seqno = 0'') else Inr ())"

definition handle_conflux_switch :: "unparsed_relay_msg \<Rightarrow> (conflux_msg_handler, circuit_cmd option) op" where
  "handle_conflux_switch m c =
     (if cx_state c \<noteq> StLinked then (Inl (CircProto ''Received CONFLUX_SWITCH on unlinked circuit?!''), c)
      else
        (case unparsed_decode (decode_as RelayCmd_CONFLUX_SWITCH conflux_switch_decode) m of
           Inl e \<Rightarrow> (Inl (BytesErr e ''switch message''), c)
         | Inr switch \<Rightarrow>
             (case validate_switch_seqno (rmsg switch) of
                Inl e \<Rightarrow> (Inl e, c)
              | Inr _ \<Rightarrow> (Inr None, c\<lparr>cx_last_seq_recv := cx_last_seq_recv c + ucast (rmsg switch)\<rparr>))))"

definition client_handle_msg :: "nat \<Rightarrow> unparsed_relay_msg \<Rightarrow> hop_num \<Rightarrow> (conflux_msg_handler, circuit_cmd option) op" where
  "client_handle_msg now m hop =
     (let cmd = unparsed_cmd m in
      if cmd = RelayCmd_CONFLUX_LINK then op_fail unsupported_client_cell
      else if cmd = RelayCmd_CONFLUX_LINKED then handle_conflux_linked now m hop
      else if cmd = RelayCmd_CONFLUX_LINKED_ACK then op_fail unsupported_client_cell
      else if cmd = RelayCmd_CONFLUX_SWITCH then handle_conflux_switch m
      else op_fail (ProtoBug ''received non-conflux cell in conflux handler?!''))"

definition conflux_handler_status :: "conflux_msg_handler \<Rightarrow> conflux_status" where
  "conflux_handler_status c =
     (case cx_state c of StUnlinked \<Rightarrow> Unlinked | StAwaitingLink _ \<Rightarrow> LinkPending | StLinked \<Rightarrow> Linked)"

definition note_link_sent :: "nat \<Rightarrow> (conflux_msg_handler, unit) op" where
  "note_link_sent ts c =
     (case cx_state c of
        StUnlinked \<Rightarrow> (Inr (), c\<lparr>cx_state := StAwaitingLink (cx_nonce c), cx_link_sent := Some ts\<rparr>)
      | _ \<Rightarrow> (Inl (ProtoBug ''Sent duplicate LINK cell?!''), c))"

definition handshake_timeout :: "conflux_msg_handler \<Rightarrow> nat option" where
  "handshake_timeout c = map_option (\<lambda>link_sent. link_sent + 60 * 1000000000) (cx_link_sent c)"

definition inc_last_seq_recv :: "conflux_msg_handler \<Rightarrow> conflux_msg_handler" where
  "inc_last_seq_recv c = c\<lparr>cx_last_seq_recv := cx_last_seq_recv c + 1\<rparr>"

definition inc_last_seq_sent :: "conflux_msg_handler \<Rightarrow> conflux_msg_handler" where
  "inc_last_seq_sent c = c\<lparr>cx_last_seq_sent := cx_last_seq_sent c + 1\<rparr>"

section \<open>The handler of a circuit\<close>

definition handle_conflux_msg :: "nat \<Rightarrow> unparsed_relay_msg \<Rightarrow> hop_num \<Rightarrow> conflux_msg_handler \<Rightarrow> circuit_cmd option \<times> conflux_msg_handler" where
  "handle_conflux_msg now m hop c =
     (case op_bind (validate_source_hop hop) (\<lambda>_. client_handle_msg now m hop) c of
        (Inr cmd, c) \<Rightarrow> (cmd, c)
      | (Inl e, c) \<Rightarrow> (Some (CmdConfluxRemove (ConfluxHandshakeErr e)), c))"

definition is_msg_in_order :: "u64 \<Rightarrow> conflux_msg_handler \<Rightarrow> proto_error + bool" where
  "is_msg_in_order last_seq_delivered c =
     (if cx_last_seq_recv c < last_seq_delivered + 1
      then Inl (ProtoBug ''Got a conflux cell with a sequence number less than the last delivered'')
      else Inr (cx_last_seq_recv c = last_seq_delivered + 1))"

definition prepare_ooo_entry :: "hop_num \<Rightarrow> bool \<Rightarrow> stream_id \<Rightarrow> unparsed_relay_msg \<Rightarrow> conflux_msg_handler \<Rightarrow> ooo_relay_msg" where
  "prepare_ooo_entry hopnum counts sid m c =
     \<lparr>ooo_seqno = cx_last_seq_recv c, ooo_hopnum = hopnum, ooo_counts = counts, ooo_streamid = sid, ooo_msg = m\<rparr>"

datatype conflux_action = ConfluxDeliver unparsed_relay_msg | ConfluxEnqueue ooo_relay_msg

definition action_for_msg :: "u64 \<Rightarrow> hop_num \<Rightarrow> bool \<Rightarrow> stream_id \<Rightarrow> unparsed_relay_msg \<Rightarrow> (conflux_msg_handler, conflux_action) op" where
  "action_for_msg last_seq_delivered hopnum counts sid m c =
     (if \<not> cmd_counts_towards_seqno (unparsed_cmd m) then (Inr (ConfluxDeliver m), c)
      else
        (let c = inc_last_seq_recv c in
         case is_msg_in_order last_seq_delivered c of
           Inl e \<Rightarrow> (Inl e, c)
         | Inr True \<Rightarrow> (Inr (ConfluxDeliver m), c)
         | Inr False \<Rightarrow> (Inr (ConfluxEnqueue (prepare_ooo_entry hopnum counts sid m c)), c)))"

definition inc_last_seq_delivered :: "unparsed_relay_msg \<Rightarrow> u64 \<Rightarrow> u64" where
  "inc_last_seq_delivered m last_seq_delivered =
     (if cmd_counts_towards_seqno (unparsed_cmd m) then last_seq_delivered + 1 else last_seq_delivered)"

definition note_cell_sent :: "relay_cmd \<Rightarrow> conflux_msg_handler \<Rightarrow> conflux_msg_handler" where
  "note_cell_sent cmd c = (if cmd_counts_towards_seqno cmd then inc_last_seq_sent c else c)"

section \<open>The handshake\<close>

text \<open>
  The handler leaves its unlinked state only by sending LINK, and becomes linked only by a
  LINKED with its nonce from the join point; every other conflux message in the handshake
  asks for the circuit to be removed and changes nothing.
\<close>

lemma handle_conflux_msg_outcome:
  assumes "handle_conflux_msg now m hop c = (cmd, c')"
  shows "(\<exists>e. cmd = Some (CmdConfluxRemove (ConfluxHandshakeErr e)) \<and> c' = c) \<or>
    (hop = cx_join_point c \<and> unparsed_cmd m = RelayCmd_CONFLUX_LINKED \<and> cx_state c' = StLinked \<and>
       (\<exists>x. cx_state c = StAwaitingLink (lk_nonce (lk_payload x)) \<and>
          (\<exists>o'. unparsed_decode (decode_as RelayCmd_CONFLUX_LINKED conflux_link_decode) m = Inr o' \<and> rmsg o' = x)) \<and>
       cx_last_seq_recv c' = cx_last_seq_recv c \<and> cx_last_seq_sent c' = cx_last_seq_sent c) \<or>
    (hop = cx_join_point c \<and> unparsed_cmd m = RelayCmd_CONFLUX_SWITCH \<and> cx_state c = StLinked \<and> cmd = None \<and>
       (\<exists>d. d \<noteq> 0 \<and> c' = c\<lparr>cx_last_seq_recv := cx_last_seq_recv c + ucast (d :: u32)\<rparr>))"
  using assms
  by (auto simp: handle_conflux_msg_def op_bind_def op_fail_def validate_source_hop_def client_handle_msg_def Let_def
      handle_conflux_linked_def handle_conflux_switch_def validate_switch_seqno_def
      split: if_splits option.splits conflux_state.splits sum.splits)

end
