(* ===== verification/Unbounded_Sink.thy ===== *)
theory Unbounded_Sink
  imports Stream_Queue
begin

text \<open>
  A sink with an unbounded buffer in front of it (\<open>tor-proto/src/util/sometimes_unbounded_sink.rs\<close>).
  A circuit hands its cells to such a sink, whose inner sink is the sender of the channel. What an
  inner sink does is the record \<open>sink_ops\<close>; \<open>Poll::Pending\<close>, \<open>Ready(Ok(()))\<close> and \<open>Ready(Err(e))\<close>
  are \<open>Inr Pending\<close>, \<open>Inr (Ready ())\<close> and \<open>Inl e\<close>. The contract of a sink that keeps the order of
  its items is the locale \<open>item_sink\<close>; the buffered sink provides it whenever its inner sink does.
\<close>

section \<open>The sink\<close>

record ('i, 's) sink_ops =
  sk_poll_ready :: "('s, unit poll) op"
  sk_start_send :: "'i \<Rightarrow> ('s, unit) op"
  sk_poll_flush :: "('s, unit poll) op"
  sk_poll_close :: "('s, unit poll) op"

record ('i, 's) sometimes_unbounded_sink =
  sus_buf :: "'i list"
  sus_inner :: 's

definition sus_new :: "'s \<Rightarrow> ('i, 's) sometimes_unbounded_sink" where
  "sus_new s = \<lparr>sus_buf = [], sus_inner = s\<rparr>"

definition n_queued :: "('i, 's) sometimes_unbounded_sink \<Rightarrow> nat" where
  "n_queued s = length (sus_buf s)"

abbreviation on_inner :: "('s, 'a) op \<Rightarrow> (('i, 's) sometimes_unbounded_sink, 'a) op" where
  "on_inner \<equiv> op_field sus_inner (\<lambda>i s. s\<lparr>sus_inner := i\<rparr>)"

text \<open>The loop of \<open>flush_buf\<close>, on the buffer and the inner sink.\<close>

fun flush_loop :: "('i, 's) sink_ops \<Rightarrow> 'i list \<Rightarrow> 's \<Rightarrow> (proto_error + unit poll) \<times> 'i list \<times> 's" where
  "flush_loop I [] s = (Inr (Ready ()), [], s)"
| "flush_loop I (item # items) s =
     (case sk_poll_ready I s of
        (Inl e, s) \<Rightarrow> (Inl e, item # items, s)
      | (Inr Pending, s) \<Rightarrow> (Inr Pending, item # items, s)
      | (Inr (Ready _), s) \<Rightarrow>
          (case sk_start_send I item s of
             (Inl e, s) \<Rightarrow> (Inl e, items, s)
           | (Inr _, s) \<Rightarrow> flush_loop I items s))"

definition flush_buf :: "('i, 's) sink_ops \<Rightarrow> (('i, 's) sometimes_unbounded_sink, unit poll) op" where
  "flush_buf I s = (case flush_loop I (sus_buf s) (sus_inner s) of (r, b, i) \<Rightarrow> (r, \<lparr>sus_buf = b, sus_inner = i\<rparr>))"

text \<open>\<open>ready!(...)?\<close> followed by an operation on the inner sink.\<close>

definition flush_then :: "('i, 's) sink_ops \<Rightarrow> ('s, unit poll) op \<Rightarrow> (('i, 's) sometimes_unbounded_sink, unit poll) op" where
  "flush_then I m = op_bind (flush_buf I) (\<lambda>p. case p of Pending \<Rightarrow> op_ret Pending | Ready _ \<Rightarrow> on_inner m)"

definition sus_poll_ready :: "('i, 's) sink_ops \<Rightarrow> (('i, 's) sometimes_unbounded_sink, unit poll) op" where
  "sus_poll_ready I = flush_then I (sk_poll_ready I)"

definition sus_start_send :: "('i, 's) sink_ops \<Rightarrow> 'i \<Rightarrow> (('i, 's) sometimes_unbounded_sink, unit) op" where
  "sus_start_send I item s =
     (if sus_buf s \<noteq> [] then (Inl (Panic ''start_send without poll_ready''), s)
      else on_inner (sk_start_send I item) s)"

definition sus_poll_flush :: "('i, 's) sink_ops \<Rightarrow> (('i, 's) sometimes_unbounded_sink, unit poll) op" where
  "sus_poll_flush I = flush_then I (sk_poll_flush I)"

definition sus_poll_close :: "('i, 's) sink_ops \<Rightarrow> (('i, 's) sometimes_unbounded_sink, unit poll) op" where
  "sus_poll_close I = flush_then I (sk_poll_close I)"

definition send_unbounded :: "('i, 's) sink_ops \<Rightarrow> 'i \<Rightarrow> (('i, 's) sometimes_unbounded_sink, unit) op" where
  "send_unbounded I item =
     op_bind (sus_poll_ready I) (\<lambda>p.
       case p of
         Ready _ \<Rightarrow> sus_start_send I item
       | Pending \<Rightarrow> (\<lambda>s. (Inr (), s\<lparr>sus_buf := sus_buf s @ [item]\<rparr>)))"

definition sus_ops :: "('i, 's) sink_ops \<Rightarrow> ('i, ('i, 's) sometimes_unbounded_sink) sink_ops" where
  "sus_ops I = \<lparr>sk_poll_ready = sus_poll_ready I, sk_start_send = sus_start_send I,
                sk_poll_flush = sus_poll_flush I, sk_poll_close = sus_poll_close I\<rparr>"

section \<open>Sinks that keep their items in order\<close>

text \<open>\<open>holds s xs\<close>: the items \<open>xs\<close>, in this order, are what the sink has accepted.\<close>

locale item_sink =
  fixes I :: "('i, 's) sink_ops"
    and holds :: "'s \<Rightarrow> 'i list \<Rightarrow> bool"
  assumes ready_keeps: "holds s xs \<Longrightarrow> sk_poll_ready I s = (Inr p, s') \<Longrightarrow> holds s' xs"
    and flush_keeps: "holds s xs \<Longrightarrow> sk_poll_flush I s = (Inr p, s') \<Longrightarrow> holds s' xs"
    and close_keeps: "holds s xs \<Longrightarrow> sk_poll_close I s = (Inr p, s') \<Longrightarrow> holds s' xs"
    and send_adds: "holds s xs \<Longrightarrow> sk_start_send I x s = (Inr (), s') \<Longrightarrow> holds s' (xs @ [x])"
begin

lemma flush_loop_holds:
  "flush_loop I buf s = (Inr p, buf', s') \<Longrightarrow> holds s ys \<Longrightarrow>
     (p = Ready () \<longrightarrow> buf' = []) \<and> (\<exists>ys'. holds s' ys' \<and> ys @ buf = ys' @ buf')"
proof (induction buf arbitrary: s ys)
  case (Cons item items)
  obtain q t where q: "sk_poll_ready I s = (Inr q, t)"
    using Cons.prems(1) by (auto split: prod.splits sum.splits)
  have t: "holds t ys" by (rule ready_keeps [OF Cons.prems(2) q])
  show ?case
  proof (cases q)
    case Pending
    then show ?thesis using Cons.prems(1) q t by auto
  next
    case (Ready u)
    then obtain v where v: "sk_start_send I item t = (Inr (), v)" "flush_loop I items v = (Inr p, buf', s')"
      using Cons.prems(1) q by (auto split: prod.splits sum.splits)
    show ?thesis using Cons.IH [OF v(2) send_adds [OF t v(1)]] by simp
  qed
qed auto

text \<open>What a buffered sink has accepted: what its inner sink has, then what is in the buffer.\<close>

lemma flush_buf_holds:
  assumes "flush_buf I s = (Inr p, s')" "holds (sus_inner s) ys"
  shows "(p = Ready () \<longrightarrow> sus_buf s' = []) \<and> (\<exists>ys'. holds (sus_inner s') ys' \<and> ys @ sus_buf s = ys' @ sus_buf s')"
  using assms flush_loop_holds [of "sus_buf s" "sus_inner s" p]
  by (auto simp: flush_buf_def split: prod.splits)

lemma flush_then_holds:
  assumes "flush_then I m s = (Inr p, s')" "holds (sus_inner s) ys"
    and m: "\<forall>i i' xs p. m i = (Inr p, i') \<longrightarrow> holds i xs \<longrightarrow> holds i' xs"
  shows "(p = Ready () \<longrightarrow> sus_buf s' = []) \<and> (\<exists>ys'. holds (sus_inner s') ys' \<and> ys @ sus_buf s = ys' @ sus_buf s')"
proof -
  obtain q t where q: "flush_buf I s = (Inr q, t)"
    and r: "(case q of Pending \<Rightarrow> op_ret Pending | Ready _ \<Rightarrow> on_inner m) t = (Inr p, s')"
    using assms(1) by (auto simp: flush_then_def op_bind_Inr_iff)
  obtain zs where z: "holds (sus_inner t) zs" "ys @ sus_buf s = zs @ sus_buf t" "q = Ready () \<Longrightarrow> sus_buf t = []"
    using flush_buf_holds [OF q assms(2)] by blast
  show ?thesis
  proof (cases q)
    case (Ready u)
    then obtain i where "m (sus_inner t) = (Inr p, i)" "s' = t\<lparr>sus_inner := i\<rparr>"
      using r by (auto simp: op_field_def split: prod.splits)
    with m z Ready show ?thesis by auto
  qed (use r z in \<open>auto simp: op_ret_def\<close>)
qed

lemmas sus_poll_ready_holds = flush_then_holds [of "sk_poll_ready I", folded sus_poll_ready_def]

text \<open>An item sent through the buffer comes after all that were sent before it.\<close>

lemma send_unbounded_holds:
  assumes "send_unbounded I x s = (Inr (), s')" "holds (sus_inner s) ys"
  shows "\<exists>ys'. holds (sus_inner s') ys' \<and> ys @ sus_buf s @ [x] = ys' @ sus_buf s'"
proof -
  obtain p t where p: "sus_poll_ready I s = (Inr p, t)"
    and r: "(case p of Ready _ \<Rightarrow> sus_start_send I x | Pending \<Rightarrow> (\<lambda>s. (Inr (), s\<lparr>sus_buf := sus_buf s @ [x]\<rparr>))) t = (Inr (), s')"
    using assms(1) by (auto simp: send_unbounded_def op_bind_Inr_iff)
  obtain zs where z: "holds (sus_inner t) zs" "ys @ sus_buf s = zs @ sus_buf t" "p = Ready () \<Longrightarrow> sus_buf t = []"
    using sus_poll_ready_holds [OF p assms(2)] ready_keeps by blast
  have zx: "ys @ sus_buf s @ [x] = zs @ sus_buf t @ [x]" using z(2) by (simp add: append_assoc [symmetric] del: append_assoc)
  show ?thesis
  proof (cases p)
    case (Ready u)
    then obtain i where "sk_start_send I x (sus_inner t) = (Inr (), i)" "s' = t\<lparr>sus_inner := i\<rparr>"
      using r by (auto simp: sus_start_send_def op_field_def split: prod.splits if_splits)
    then show ?thesis using send_adds [OF z(1)] z(3) zx Ready by auto
  qed (use r z(1) zx in auto)
qed

end

definition sus_holds :: "('i, 's) sink_ops \<Rightarrow> ('s \<Rightarrow> 'i list \<Rightarrow> bool) \<Rightarrow> ('i, 's) sometimes_unbounded_sink \<Rightarrow> 'i list \<Rightarrow> bool" where
  "sus_holds I holds s xs \<longleftrightarrow> item_sink I holds \<and> (\<exists>ys. holds (sus_inner s) ys \<and> xs = ys @ sus_buf s)"

text \<open>The buffered sink keeps the contract of its inner sink.\<close>

lemma sus_flush_then:
  assumes "sus_holds I holds s xs" "flush_then I m s = (Inr p, s')"
    "\<forall>i i' xs p. m i = (Inr p, i') \<longrightarrow> holds i xs \<longrightarrow> holds i' xs"
  shows "sus_holds I holds s' xs"
  using assms item_sink.flush_then_holds [of I holds m s p s'] by (fastforce simp: sus_holds_def)

interpretation sus: item_sink "sus_ops I" "sus_holds I holds"
  for I :: "('i, 's) sink_ops" and holds
proof
  fix s s' :: "('i, 's) sometimes_unbounded_sink" and xs p x
  assume h: "sus_holds I holds s xs"
  then have I: "item_sink I holds" by (simp add: sus_holds_def)
  show "sk_poll_ready (sus_ops I) s = (Inr p, s') \<Longrightarrow> sus_holds I holds s' xs"
    unfolding sus_ops_def sus_poll_ready_def sink_ops.simps
    by (erule sus_flush_then [OF h]) (use item_sink.ready_keeps [OF I] in blast)
  show "sk_poll_flush (sus_ops I) s = (Inr p, s') \<Longrightarrow> sus_holds I holds s' xs"
    unfolding sus_ops_def sus_poll_flush_def sink_ops.simps
    by (erule sus_flush_then [OF h]) (use item_sink.flush_keeps [OF I] in blast)
  show "sk_poll_close (sus_ops I) s = (Inr p, s') \<Longrightarrow> sus_holds I holds s' xs"
    unfolding sus_ops_def sus_poll_close_def sink_ops.simps
    by (erule sus_flush_then [OF h]) (use item_sink.close_keeps [OF I] in blast)
  show "sk_start_send (sus_ops I) x s = (Inr (), s') \<Longrightarrow> sus_holds I holds s' (xs @ [x])"
    using h item_sink.send_adds [OF I]
    by (auto simp: sus_holds_def sus_ops_def sus_start_send_def op_field_def split: prod.splits if_splits)
qed

lemma sus_new_holds: "item_sink I holds \<Longrightarrow> holds i xs \<Longrightarrow> sus_holds I holds (sus_new i) xs"
  by (simp add: sus_holds_def sus_new_def)

lemma send_unbounded_adds:
  "sus_holds I holds s xs \<Longrightarrow> send_unbounded I x s = (Inr (), s') \<Longrightarrow> sus_holds I holds s' (xs @ [x])"
  using item_sink.send_unbounded_holds [of I holds x s s'] by (fastforce simp: sus_holds_def)

end
