(* ===== verification/Circuit.thy ===== *)
theory Circuit
  imports Conflux_Handler Unbounded_Sink
begin

text \<open>
  One circuit of a client, a leg of a tunnel (\<open>tor-proto/src/tunnel/reactor/circuit.rs\<close>): its
  cryptographic layers, hops and conflux handler, the sending of a relay message, and the
  handling of a cell from the channel down to the stream it is for. The \<open>dyn\<close> traits a circuit
  holds are records of functions: the cryptographic layers (\<open>layer_ops\<close>), the channel's sender
  (\<open>sink_ops\<close>), the handler of meta cells (\<open>meta_ops\<close>) and what an onion service supplies for
  incoming streams (\<open>incoming_ops\<close>). The clock and the random padding are arguments. Cells are
  handled on a state of the circuit, the reactor's handlers and the sequence number of the last
  message delivered, which the legs of a tunnel share.
\<close>

section \<open>Circuits\<close>

record ('ol, 'il) layer_ops =
  lo_originate_for :: "u8 \<Rightarrow> ('ol, sendme_tag) layer_op"
  lo_encrypt_outbound :: "u8 \<Rightarrow> ('ol, unit) layer_op"
  lo_decrypt_inbound :: "u8 \<Rightarrow> ('il, sendme_tag option) layer_op"

record ('c, 'v, 'r, 'ol, 'il, 's, 'p) circuit =
  chan_sender :: "(any_chan_msg chan_cell, 's) sometimes_unbounded_sink"
  crypto_in :: "'il list"
  crypto_out :: "'ol list"
  hops :: "('c, 'v, 'r) circ_hop_list"
  path_hops :: "('p \<times> circuit_binding option) list"
  channel_id :: circ_id
  unique_id :: nat
  conflux_handler :: "conflux_msg_handler option"

definition circuit_new :: "'s \<Rightarrow> circ_id \<Rightarrow> nat \<Rightarrow> ('c, 'v, 'r, 'ol, 'il, 's, 'p) circuit" where
  "circuit_new sender cid uid =
     \<lparr>chan_sender = sus_new sender, crypto_in = [], crypto_out = [], hops = [], path_hops = [],
      channel_id = cid, unique_id = uid, conflux_handler = None\<rparr>"

text \<open>An operation on a hop, on its congestion control, and on the sink.\<close>

definition on_hop :: "hop_num \<Rightarrow> proto_error \<Rightarrow> (('c, 'v, 'r) circ_hop, 'a) op \<Rightarrow> (('c, 'v, 'r, 'ol, 'il, 's, 'p) circuit, 'a) op" where
  "on_hop n otherwise f c =
     (case hops_get n (hops c) of
        None \<Rightarrow> (Inl otherwise, c)
      | Some h \<Rightarrow> (case f h of (r, h) \<Rightarrow> (r, c\<lparr>hops := (hops c)[unat n := h]\<rparr>)))"

abbreviation on_cc :: "(congestion_control, 'a) op \<Rightarrow> (('c, 'v, 'r) circ_hop, 'a) op" where
  "on_cc \<equiv> op_field ccontrol (\<lambda>x h. h\<lparr>ccontrol := x\<rparr>)"

abbreviation on_sender :: "((any_chan_msg chan_cell, 's) sometimes_unbounded_sink, 'a) op \<Rightarrow> (('c, 'v, 'r, 'ol, 'il, 's, 'p) circuit, 'a) op" where
  "on_sender \<equiv> op_field chan_sender (\<lambda>x c. c\<lparr>chan_sender := x\<rparr>)"

definition conflux_status_of :: "('c, 'v, 'r, 'ol, 'il, 's, 'p) circuit \<Rightarrow> conflux_status option" where
  "conflux_status_of c = map_option conflux_handler_status (conflux_handler c)"

definition is_conflux_pending :: "('c, 'v, 'r, 'ol, 'il, 's, 'p) circuit \<Rightarrow> bool" where
  "is_conflux_pending c = (case conflux_status_of c of None \<Rightarrow> False | Some status \<Rightarrow> status \<noteq> Linked)"

definition add_to_conflux_tunnel :: "conflux_msg_handler \<Rightarrow> ('c, 'v, 'r, 'ol, 'il, 's, 'p) circuit \<Rightarrow> ('c, 'v, 'r, 'ol, 'il, 's, 'p) circuit" where
  "add_to_conflux_tunnel handler c = c\<lparr>conflux_handler := Some handler\<rparr>"

definition num_hops :: "('c, 'v, 'r, 'ol, 'il, 's, 'p) circuit \<Rightarrow> proto_error + u8" where
  "num_hops c =
     (if length (hops c) < 256 then Inr (of_nat (length (hops c)))
      else Inl (Panic ''`hops.len()` has more than `u8::MAX` hops''))"

definition last_hop_num :: "('c, 'v, 'r, 'ol, 'il, 's, 'p) circuit \<Rightarrow> proto_error + hop_num option" where
  "last_hop_num c = res_bind (num_hops c) (\<lambda>n. Inr (if n = 0 then None else Some (n - 1)))"

definition add_hop :: "'p \<Rightarrow> 'ol \<Rightarrow> 'il \<Rightarrow> circuit_binding option \<Rightarrow> hop_settings \<Rightarrow> stream_id \<Rightarrow> (('c, 'v, 'r, 'ol, 'il, 's, 'p) circuit, unit) op" where
  "add_hop peer_id fwd_layer rev_layer bind settings first c =
     (let hop_num = length (hops c) in
      if hop_num = 255 then (Inl (ProtoBug ''cannot add more hops to a circuit with `u8::MAX` hops''), c)
      else
        (case hop_new (of_nat hop_num) settings first of
           Inl e \<Rightarrow> (Inl e, c)
         | Inr h \<Rightarrow>
             op_bind (op_field crypto_in (\<lambda>x c. c\<lparr>crypto_in := x\<rparr>) (add_layer rev_layer)) (\<lambda>_.
             op_bind (op_field crypto_out (\<lambda>x c. c\<lparr>crypto_out := x\<rparr>) (add_layer fwd_layer)) (\<lambda>_ c.
             (Inr (), c\<lparr>path_hops := path_hops c @ [(peer_id, bind)]\<rparr>)))
             (c\<lparr>hops := hops_push h (hops c)\<rparr>)))"

section \<open>Sending\<close>

definition encode_relay_cell ::
  "('ol, 'il) layer_ops \<Rightarrow> relay_cell_format \<Rightarrow> hop_num \<Rightarrow> bool \<Rightarrow> (nat \<Rightarrow> bytes) \<Rightarrow> any_relay_msg relay_msg_outer \<Rightarrow>
     ('ol list, any_chan_msg \<times> sendme_tag) op" where
  "encode_relay_cell L format hop early fill m layers =
     (case encode_relay any_relay_cmd any_relay_encode format fill m of
        Inl e \<Rightarrow> (Inl (CellEncodeErr e ''relay cell body''), layers)
      | Inr body \<Rightarrow>
          (let cmd = (if early then ChanCmd_RELAY_EARLY else ChanCmd_RELAY) in
           case client_encrypt (lo_originate_for L cmd) (lo_encrypt_outbound L cmd) hop (body, layers) of
             (Inl e, _, layers) \<Rightarrow> (Inl e, layers)
           | (Inr tag, body, layers) \<Rightarrow> (Inr (if early then RelayEarly body else Relay body, tag), layers)))"

definition send_msg :: "(any_chan_msg chan_cell, 's) sink_ops \<Rightarrow> any_chan_msg \<Rightarrow> (('c, 'v, 'r, 'ol, 'il, 's, 'p) circuit, unit) op" where
  "send_msg I m c = on_sender (send_unbounded I \<lparr>circid = Some (channel_id c), msg = m\<rparr>) c"

definition note_conflux_sent :: "relay_cmd \<Rightarrow> ('c, 'v, 'r, 'ol, 'il, 's, 'p) circuit \<Rightarrow> ('c, 'v, 'r, 'ol, 'il, 's, 'p) circuit" where
  "note_conflux_sent cmd c = c\<lparr>conflux_handler := map_option (note_cell_sent cmd) (conflux_handler c)\<rparr>"

definition circ_send_relay_cell ::
  "('ol, 'il) layer_ops \<Rightarrow> (any_chan_msg chan_cell, 's) sink_ops \<Rightarrow> instant \<Rightarrow> (nat \<Rightarrow> bytes) \<Rightarrow> send_relay_cell \<Rightarrow>
     (('c, 'v, 'r, 'ol, 'il, 's, 'p) circuit, unit) op" where
  "circ_send_relay_cell L I now fill m c =
     (let hop = src_hop m; cmd = any_relay_cmd (rmsg (src_cell m));
          c_t_w = cmd_counts_towards_windows cmd in
      if cmd \<noteq> RelayCmd_CONFLUX_LINK \<and> is_conflux_pending c
      then (Inl (ProtoBug ''tried to send cell on unlinked circuit''), c)
      else
        op_bind (on_hop hop NoSuchHop decrement_outbound_cell_limit) (\<lambda>_.
        op_bind (if c_t_w then
                   (case streamid (src_cell m) of
                      Some i \<Rightarrow> on_hop hop NoSuchHop (hop_take_capacity_to_send i (rmsg (src_cell m)))
                    | None \<Rightarrow> op_ret ())
                 else op_ret ()) (\<lambda>_.
        op_bind (\<lambda>c. op_field crypto_out (\<lambda>x c. c\<lparr>crypto_out := x\<rparr>)
                   (encode_relay_cell L (relay_format (hops c ! unat hop)) hop (src_early m) fill (src_cell m)) c)
          (\<lambda>(chan_msg, tag).
        op_bind (if c_t_w then on_hop hop NoSuchHop (on_cc (note_data_sent now tag)) else op_ret ()) (\<lambda>_.
        op_bind (send_msg I chan_msg) (\<lambda>_ c.
        (Inr (), note_conflux_sent cmd c)))))) c)"

definition begin_conflux_link ::
  "('ol, 'il) layer_ops \<Rightarrow> (any_chan_msg chan_cell, 's) sink_ops \<Rightarrow> instant \<Rightarrow> nat \<Rightarrow> (nat \<Rightarrow> bytes) \<Rightarrow> hop_num \<Rightarrow>
     any_relay_msg relay_msg_outer \<Rightarrow> (('c, 'v, 'r, 'ol, 'il, 's, 'p) circuit, unit) op" where
  "begin_conflux_link L I now wallclock fill hop cell c =
     (if conflux_handler c = None
      then (Inl (ProtoBug ''tried to send LINK cell before installing a ConfluxMsgHandler?!''), c)
      else
        op_bind (circ_send_relay_cell L I now fill \<lparr>src_hop = hop, src_early = False, src_cell = cell\<rparr>) (\<lambda>_ c.
          case conflux_handler c of
            None \<Rightarrow> (Inl (ProtoBug ''ConfluxMsgHandler disappeared?!''), c)
          | Some handler \<Rightarrow>
              (case note_link_sent wallclock handler of (r, handler) \<Rightarrow> (r, c\<lparr>conflux_handler := Some handler\<rparr>))) c)"

definition conflux_hs_timeout :: "('c, 'v, 'r, 'ol, 'il, 's, 'p) circuit \<Rightarrow> nat option" where
  "conflux_hs_timeout c = Option.bind (conflux_handler c) handshake_timeout"

text \<open>The sequence numbers of a leg.\<close>

definition last_seq_sent :: "('c, 'v, 'r, 'ol, 'il, 's, 'p) circuit \<Rightarrow> proto_error + u64" where
  "last_seq_sent c =
     (case conflux_handler c of
        None \<Rightarrow> Inl (ProtoBug ''tried to get last_seq_sent of non-conflux circ'')
      | Some handler \<Rightarrow> Inr (cx_last_seq_sent handler))"

definition set_last_seq_sent :: "u64 \<Rightarrow> (('c, 'v, 'r, 'ol, 'il, 's, 'p) circuit, unit) op" where
  "set_last_seq_sent n c =
     (case conflux_handler c of
        None \<Rightarrow> (Inl (ProtoBug ''tried to get last_seq_sent of non-conflux circ''), c)
      | Some handler \<Rightarrow> (Inr (), c\<lparr>conflux_handler := Some (handler\<lparr>cx_last_seq_sent := n\<rparr>)\<rparr>))"

definition last_seq_recv :: "('c, 'v, 'r, 'ol, 'il, 's, 'p) circuit \<Rightarrow> proto_error + u64" where
  "last_seq_recv c =
     (case conflux_handler c of
        None \<Rightarrow> Inl (ProtoBug ''tried to get last_seq_recv of non-conflux circ'')
      | Some handler \<Rightarrow> Inr (cx_last_seq_recv handler))"

definition circ_close_stream ::
  "('ol, 'il) layer_ops \<Rightarrow> (any_chan_msg chan_cell, 's) sink_ops \<Rightarrow> instant \<Rightarrow> (nat \<Rightarrow> bytes) \<Rightarrow> hop_num \<Rightarrow> stream_id \<Rightarrow>
     close_stream_behavior \<Rightarrow> terminate_reason \<Rightarrow> (('c, 'v, 'r, 'ol, 'il, 's, 'p) circuit, unit) op" where
  "circ_close_stream L I now fill hop sid behav reason c =
     (case hops_get hop (hops c) of
        None \<Rightarrow> (Inr (), c)
      | Some _ \<Rightarrow>
          op_bind (on_hop hop NoSuchHop (hop_close_stream sid behav reason)) (\<lambda>res.
            case res of
              None \<Rightarrow> op_ret ()
            | Some cell \<Rightarrow> circ_send_relay_cell L I now fill cell) c)"

definition circ_begin_stream ::
  "hop_num \<Rightarrow> any_relay_msg \<Rightarrow> ('c, 'v) stream_queue \<Rightarrow> 'r \<Rightarrow> u64 \<Rightarrow> nat \<Rightarrow> cmd_checker \<Rightarrow>
     (('c, 'v, 'r, 'ol, 'il, 's, 'p) circuit, send_relay_cell \<times> stream_id) op" where
  "circ_begin_stream hop message snk r rate drains checker =
     on_hop hop (ProtoBug ''Attempting to send a BEGIN cell to an unknown hop'')
       (hop_begin_stream message snk r rate drains checker)"

definition circ_handle_sendme ::
  "instant \<Rightarrow> hop_num \<Rightarrow> sendme_msg \<Rightarrow> congestion_signals \<Rightarrow> (('c, 'v, 'r, 'ol, 'il, 's, 'p) circuit, circuit_cmd option) op" where
  "circ_handle_sendme now hop m signals =
     on_hop hop (CircProto ''Couldn't find hop'')
       (case m of
          None \<Rightarrow> op_fail (CircProto ''missing tag on circuit sendme'')
        | Some tag \<Rightarrow> op_bind (on_cc (note_sendme_received now tag signals)) (\<lambda>_. op_ret None))"

definition circ_congestion_signals :: "(any_chan_msg chan_cell, 's) sink_ops \<Rightarrow> ('c, 'v, 'r, 'ol, 'il, 's, 'p) circuit \<Rightarrow>
    congestion_signals \<times> ('c, 'v, 'r, 'ol, 'il, 's, 'p) circuit" where
  "circ_congestion_signals I c =
     (case sus_poll_ready I (chan_sender c) of
        (r, s) \<Rightarrow> (signals_new (case r of Inr (Ready _) \<Rightarrow> True | Inr Pending \<Rightarrow> False | Inl _ \<Rightarrow> False) (n_queued s),
                   c\<lparr>chan_sender := s\<rparr>))"

end
