(* ===== verification/Circuit_Cells.thy ===== *)
theory Circuit_Cells
  imports Circuit
begin

text \<open>
  The handling of a cell that arrives on a circuit (\<open>tor-proto/src/tunnel/reactor/circuit.rs\<close>,
  with \<open>CellHandlers\<close>, \<open>MetaCellHandler\<close> and \<open>IncomingStreamRequestHandler\<close> of \<open>reactor.rs\<close>):
  decryption, the circuit's SENDME window, the split into meta cells and stream messages, the
  order of the messages of a conflux tunnel, and requests for new streams.
\<close>

section \<open>Handlers\<close>

datatype meta_cell_disposition = Consumed | ConversationFinished | CloseCirc

text \<open>
  A handler of meta cells: the leg and hop it expects messages from, and what it does with one,
  on itself and the circuit.
\<close>

record ('mh, 'ci) meta_ops =
  mh_expected_hop :: "'mh \<Rightarrow> nat \<times> hop_num"
  mh_handle_msg :: "unparsed_relay_msg \<Rightarrow> ('mh \<times> 'ci, meta_cell_disposition) op"

datatype incoming_disposition = DispAccept | DispCloseCircuit | DispRejectRequest end_msg

datatype req_send_error = ReqFull | ReqDisconnected | ReqOther

record stream_req_info =
  sri_req :: begin_msg
  sri_stream_id :: stream_id
  sri_hop :: "nat \<times> hop_num"
  sri_format :: relay_cell_format

record ('f, 'q) incoming_handler =
  ih_sender :: 'q
  ih_checker :: cmd_checker
  ih_hop_num :: hop_num
  ih_filter :: 'f

text \<open>
  What is supplied for incoming streams: the filter, which sees the request and the number of
  open streams; the queues of a new stream, whose allocation may fail; the sender of requests.
\<close>

record ('f, 'q, 'c, 'v, 'r) incoming_ops =
  in_disposition :: "begin_msg \<Rightarrow> nat \<Rightarrow> 'f \<Rightarrow> (proto_error + incoming_disposition) \<times> 'f"
  in_new_queues :: "proto_error + (('c, 'v) stream_queue \<times> 'r)"
  in_try_send :: "stream_req_info \<Rightarrow> 'q \<Rightarrow> (req_send_error + unit) \<times> 'q"

record ('mh, 'f, 'q) cell_handlers =
  meta_handler :: "'mh option"
  incoming_stream_req_handler :: "('f, 'q) incoming_handler option"

record ('ci, 'hs) cell_state =
  st_circ :: 'ci
  st_handlers :: 'hs
  st_delivered :: u64

abbreviation on_circ :: "('ci, 'a) op \<Rightarrow> (('ci, 'hs) cell_state, 'a) op" where
  "on_circ \<equiv> op_field st_circ (\<lambda>c s. s\<lparr>st_circ := c\<rparr>)"

section \<open>Requests for streams\<close>

text \<open>\<open>StreamRateLimit::MAX\<close> is \<open>u64::MAX\<close>; a new request channel for drain rates has no requests.\<close>

definition send_end :: "hop_num \<Rightarrow> stream_id \<Rightarrow> end_msg \<Rightarrow> circuit_cmd" where
  "send_end hop sid end_message =
     CmdSend \<lparr>src_hop = hop, src_early = False, src_cell = \<lparr>streamid = Some sid, rmsg = End end_message\<rparr>\<rparr>"

definition accept_stream where
  "accept_stream Q handlers handler req sid hop leg =
     (case in_new_queues Q of
        Inl e \<Rightarrow> op_fail e
      | Inr (snk, r) \<Rightarrow>
          op_bind (on_circ (on_hop hop CircuitClosed (hop_add_ent_with_id snk r (- 1) 0 sid data_checker_connected))) (\<lambda>_ s.
          case in_try_send Q \<lparr>sri_req = req, sri_stream_id = sid, sri_hop = (leg, hop),
                              sri_format = relay_format (hops (st_circ s) ! unat hop)\<rparr> (ih_sender handler) of
            (r, q) \<Rightarrow>
              (let s = s\<lparr>st_handlers := handlers\<lparr>incoming_stream_req_handler := Some (handler\<lparr>ih_sender := q\<rparr>)\<rparr>\<rparr> in
               (case r of
                  Inr _ \<Rightarrow> Inr None
                | Inl ReqFull \<Rightarrow> Inr (Some (send_end hop sid (End_new_with_reason 11)))
                | Inl ReqDisconnected \<Rightarrow> Inl CircuitClosed
                | Inl ReqOther \<Rightarrow> Inl (ProtoBug ''try_send failed unexpectedly''), s))))"

definition handle_incoming_stream_request where
  "handle_incoming_stream_request Q m sid hop leg s =
     (let handlers = st_handlers s in
      case incoming_stream_req_handler handlers of
        None \<Rightarrow> (Inl (CircProto ''Cannot handle BEGIN cells on this circuit''), s)
      | Some handler \<Rightarrow>
          (if hop \<noteq> ih_hop_num handler
           then (Inl (CircProto ''Expecting incoming streams from another hop''), s)
           else
             (case check_msg m (ih_checker handler) of
                (r, checker) \<Rightarrow>
                  (let handler = handler\<lparr>ih_checker := checker\<rparr>;
                       s = s\<lparr>st_handlers := handlers\<lparr>incoming_stream_req_handler := Some handler\<rparr>\<rparr> in
                   case r of
                     Inl e \<Rightarrow> (Inl e, s)
                   | Inr status \<Rightarrow>
                       (if hops_get hop (hops (st_circ s)) = None then (Inl CircuitClosed, s)
                        else if status = StreamClosed
                        then op_bind (on_circ (on_hop hop CircuitClosed (hop_ending_msg_received sid))) (\<lambda>_. op_ret None) s
                        else
                          (case unparsed_decode (decode_as RelayCmd_BEGIN begin_decode) m of
                             Inl e \<Rightarrow> (Inl (BytesErr e ''Invalid Begin message''), s)
                           | Inr b \<Rightarrow>
                               (case in_disposition Q (rmsg b) (hops_n_open_streams (hops (st_circ s))) (ih_filter handler) of
                                  (d, f) \<Rightarrow>
                                    (let handler = handler\<lparr>ih_filter := f\<rparr>;
                                         s = s\<lparr>st_handlers := handlers\<lparr>incoming_stream_req_handler := Some handler\<rparr>\<rparr> in
                                     case d of
                                       Inl e \<Rightarrow> (Inl e, s)
                                     | Inr DispCloseCircuit \<Rightarrow> (Inr (Some CmdCleanShutdown), s)
                                     | Inr (DispRejectRequest e) \<Rightarrow> (Inr (Some (send_end hop sid e)), s)
                                     | Inr DispAccept \<Rightarrow> accept_stream Q handlers handler (rmsg b) sid hop leg s))))))))"

section \<open>Meta cells\<close>

definition circ_handle_conflux_msg where
  "circ_handle_conflux_msg wallclock hop m c =
     (case conflux_handler c of
        None \<Rightarrow> (Inl (CircProto ''Received cell on non-conflux client circuit?!''), c)
      | Some handler \<Rightarrow>
          (case handle_conflux_msg wallclock m hop handler of
             (cmd, handler) \<Rightarrow> (Inr cmd, c\<lparr>conflux_handler := Some handler\<rparr>)))"

abbreviation is_conflux_cmd :: "relay_cmd \<Rightarrow> bool" where
  "is_conflux_cmd cmd \<equiv> cmd = RelayCmd_CONFLUX_LINK \<or> cmd = RelayCmd_CONFLUX_LINKED \<or>
     cmd = RelayCmd_CONFLUX_LINKED_ACK \<or> cmd = RelayCmd_CONFLUX_SWITCH"

definition run_meta_handler where
  "run_meta_handler M handler hop m s =
     (let s = s\<lparr>st_handlers := (st_handlers s)\<lparr>meta_handler := None\<rparr>\<rparr> in
      if mh_expected_hop M handler = (unique_id (st_circ s), hop) then
        (case mh_handle_msg M m (handler, st_circ s) of
           (r, handler, c) \<Rightarrow>
             (let s = s\<lparr>st_circ := c\<rparr> in
              case r of
                Inr Consumed \<Rightarrow> (Inr None, s\<lparr>st_handlers := (st_handlers s)\<lparr>meta_handler := Some handler\<rparr>\<rparr>)
              | Inr ConversationFinished \<Rightarrow> (Inr None, s)
              | Inr CloseCirc \<Rightarrow> (Inr (Some CmdCleanShutdown), s)
              | Inl e \<Rightarrow> (Inl e, s)))
      else (Inl unsupported_client_cell, s\<lparr>st_handlers := (st_handlers s)\<lparr>meta_handler := Some handler\<rparr>\<rparr>))"

definition handle_meta_cell where
  "handle_meta_cell M wallclock hop m s =
     (let cmd = unparsed_cmd m in
      if cmd = RelayCmd_SENDME then
        (case unparsed_decode (decode_as RelayCmd_SENDME sendme_decode) m of
           Inl e \<Rightarrow> (Inl (BytesErr e ''sendme message''), s)
         | Inr sendme \<Rightarrow> (Inr (Some (CmdHandleSendMe hop (rmsg sendme))), s))
      else if cmd = RelayCmd_TRUNCATED then
        (case unparsed_decode (decode_as RelayCmd_TRUNCATED truncated_decode) m of
           Inl e \<Rightarrow> (Inl (BytesErr e ''truncated message''), s)
         | Inr _ \<Rightarrow> (Inr (Some CmdCleanShutdown), s))
      else if is_conflux_cmd cmd then on_circ (circ_handle_conflux_msg wallclock hop m) s
      else if is_conflux_pending (st_circ s)
      then (Inl (CircProto ''Received unexpected cell on unlinked circuit''), s)
      else
        (case meta_handler (st_handlers s) of
           None \<Rightarrow> (Inl unsupported_client_cell, s)
         | Some handler \<Rightarrow> run_meta_handler M handler hop m s))"

section \<open>Relay messages\<close>

definition msg_streamid :: "unparsed_relay_msg \<Rightarrow> proto_error + stream_id option" where
  "msg_streamid m =
     (if accepts_streamid_val (unparsed_cmd m) (unparsed_stream_id m) then Inr (unparsed_stream_id m)
      else Inl (CircProto ''Invalid stream ID for relay command''))"

definition send_xoff :: "hop_num \<Rightarrow> stream_id \<Rightarrow> u8 option \<Rightarrow> circuit_cmd option" where
  "send_xoff hop sid xoff =
     map_option (\<lambda>x. CmdSend \<lparr>src_hop = hop, src_early = False, src_cell = \<lparr>streamid = Some sid, rmsg = Xoff x\<rparr>\<rparr>) xoff"

definition handle_in_order_relay_msg where
  "handle_in_order_relay_msg cs Q hop leg cell_counts sid m s =
     (let s = (if conflux_handler (st_circ s) \<noteq> None
               then s\<lparr>st_delivered := inc_last_seq_delivered m (st_delivered s)\<rparr> else s) in
      op_bind (on_circ (on_hop hop (CircProto ''Cell from nonexistent hop!'') (hop_handle_msg cs cell_counts sid m))) (\<lambda>res.
        case res of
          Some m \<Rightarrow> handle_incoming_stream_request Q m sid hop leg
        | None \<Rightarrow>
            op_bind (on_circ (on_hop hop (CircProto ''Cell from nonexistent hop!'') (hop_maybe_send_xoff sid)))
              (\<lambda>xoff. op_ret (send_xoff hop sid xoff))) s)"

definition handle_relay_msg where
  "handle_relay_msg M cs Q wallclock hop leg cell_counts m s =
     (case msg_streamid m of
        Inl e \<Rightarrow> (Inl e, s)
      | Inr None \<Rightarrow> handle_meta_cell M wallclock hop m s
      | Inr (Some sid) \<Rightarrow>
          (case conflux_handler (st_circ s) of
             None \<Rightarrow> handle_in_order_relay_msg cs Q hop leg cell_counts sid m s
           | Some handler \<Rightarrow>
               (case action_for_msg (st_delivered s) hop cell_counts sid m handler of
                  (r, handler) \<Rightarrow>
                    (let s = s\<lparr>st_circ := (st_circ s)\<lparr>conflux_handler := Some handler\<rparr>\<rparr> in
                     case r of
                       Inl e \<Rightarrow> (Inl e, s)
                     | Inr (ConfluxDeliver m) \<Rightarrow> handle_in_order_relay_msg cs Q hop leg cell_counts sid m s
                     | Inr (ConfluxEnqueue entry) \<Rightarrow> (Inr (Some (CmdEnqueue entry)), s)))))"

fun handle_relay_msgs where
  "handle_relay_msgs M cs Q wallclock hop leg cell_counts [] cmds = op_ret cmds"
| "handle_relay_msgs M cs Q wallclock hop leg cell_counts (m # ms) cmds =
     op_bind (handle_relay_msg M cs Q wallclock hop leg cell_counts m) (\<lambda>status.
       case status of
         None \<Rightarrow> handle_relay_msgs M cs Q wallclock hop leg cell_counts ms cmds
       | Some CmdCleanShutdown \<Rightarrow> op_ret (cmds @ [CmdCleanShutdown])
       | Some cmd \<Rightarrow> handle_relay_msgs M cs Q wallclock hop leg cell_counts ms (cmds @ [cmd]))"

section \<open>Cells\<close>

definition decode_relay_cell ::
  "('ol, 'il) layer_ops \<Rightarrow> bytes \<Rightarrow> (('c, 'v, 'r, 'ol, 'il, 's, 'p) circuit, hop_num \<times> sendme_tag \<times> relay_cell_decoder_result) op" where
  "decode_relay_cell L body c =
     (case client_decrypt (lo_decrypt_inbound L ChanCmd_RELAY) (body, crypto_in c) of
        (r, body, layers) \<Rightarrow>
          (let c = c\<lparr>crypto_in := layers\<rparr> in
           case r of
             Inl e \<Rightarrow> (Inl e, c)
           | Inr (hopnum, tag) \<Rightarrow>
               (case hops_get hopnum (hops c) of
                  None \<Rightarrow> (Inl (ProtoBug ''Trying to decode cell from nonexistent hop''), c)
                | Some h \<Rightarrow>
                    (case hop_decode body h of
                       Inl e \<Rightarrow> (Inl e, c)
                     | Inr res \<Rightarrow> (Inr (hopnum, tag, res), c)))))"

definition decoder_cmds :: "relay_cell_decoder_result \<Rightarrow> relay_cmd list" where
  "decoder_cmds res = map unparsed_cmd (rc_msgs res) @ (case rc_incomplete res of None \<Rightarrow> [] | Some c \<Rightarrow> [i_cmd c])"

text \<open>The accounting of the circuit's window; the commands are the SENDME to send, if one is due.\<close>

definition account_relay_cell ::
  "hop_num \<Rightarrow> sendme_tag \<Rightarrow> bool \<Rightarrow> (('c, 'v, 'r, 'ol, 'il, 's, 'p) circuit, circuit_cmd list) op" where
  "account_relay_cell hopnum tag c_t_w =
     op_bind (on_hop hopnum (ProtoBug ''nonexistent hop'') decrement_inbound_cell_limit) (\<lambda>_.
     op_bind (if c_t_w then on_hop hopnum (CircProto ''Sendme from nonexistent hop'') (on_cc note_data_received)
              else op_ret False) (\<lambda>send_circ_sendme.
     if send_circ_sendme then
       op_bind (on_hop hopnum (ProtoBug ''Trying to send SENDME to nonexistent hop'') (on_cc note_sendme_sent)) (\<lambda>_.
       op_ret [CmdSend \<lparr>src_hop = hopnum, src_early = False, src_cell = \<lparr>streamid = None, rmsg = Sendme (Some tag)\<rparr>\<rparr>])
     else op_ret []))"

definition handle_relay_cell where
  "handle_relay_cell L M cs Q wallclock leg body =
     op_bind (on_circ (decode_relay_cell L body)) (\<lambda>(hopnum, tag, decode_res).
       let c_t_w = list_ex cmd_counts_towards_windows (decoder_cmds decode_res) in
       op_bind (on_circ (account_relay_cell hopnum tag c_t_w)) (\<lambda>circ_cmds.
       handle_relay_msgs M cs Q wallclock hopnum leg c_t_w (rc_msgs decode_res) circ_cmds))"

datatype client_circ_chan_msg = CircRelay bytes | CircDestroy u8

definition handle_cell where
  "handle_cell L M cs Q wallclock leg cell =
     (case cell of
        CircRelay r \<Rightarrow> handle_relay_cell L M cs Q wallclock leg r
      | CircDestroy _ \<Rightarrow> op_ret [CmdCleanShutdown])"

end
