(* ===== verification/Protover.thy ===== *)
theory Protover
  imports Rust_Std "HOL-Library.List_Lexorder" "HOL-Library.Char_ord" "HOL-Library.Product_Lexorder"
begin

text \<open>
  Subprotocol versions (\<open>tor-protover/src/lib.rs\<close> and \<open>named.rs\<close>): sets of supported versions as
  64-bit masks, for the thirteen recognized protocols by index and for others by name; their
  set operations, their textual form in consensus documents, and its parser. \<open>str\<close> is
  \<open>string\<close>; an assertion that fails is the error \<open>ProtoverPanic\<close>.
\<close>

unbundle bit_operations_syntax

section \<open>Protocols\<close>

type_synonym proto_kind = u8

definition proto_names :: "string list" where
  "proto_names = [''Link'', ''LinkAuth'', ''Relay'', ''DirCache'', ''HSDir'', ''HSIntro'', ''HSRend'', ''Desc'',
     ''Microdesc'', ''Cons'', ''Padding'', ''FlowCtrl'', ''Conflux'']"

abbreviation N_RECOGNIZED :: nat where "N_RECOGNIZED \<equiv> 13"
abbreviation MAX_VER :: nat where "MAX_VER \<equiv> 63"

definition proto_to_str :: "proto_kind \<Rightarrow> string option" where
  "proto_to_str k = (if unat k < N_RECOGNIZED then Some (proto_names ! unat k) else None)"

definition proto_from_name :: "string \<Rightarrow> proto_kind option" where
  "proto_from_name name = map_option (\<lambda>(i, _). of_nat i) (List.find (\<lambda>(_, s). s = name) (enumerate 0 proto_names))"

definition proto_display :: "proto_kind \<Rightarrow> string" where
  "proto_display k = (case proto_to_str k of Some s \<Rightarrow> s | None \<Rightarrow> dec_string (unat k))"

record named_subver =
  ns_kind :: proto_kind
  ns_version :: u8

abbreviation FLOWCTRL_CC :: named_subver where "FLOWCTRL_CC \<equiv> \<lparr>ns_kind = 11, ns_version = 2\<rparr>"
abbreviation RELAY_NEGOTIATE_SUBPROTO :: named_subver where "RELAY_NEGOTIATE_SUBPROTO \<equiv> \<lparr>ns_kind = 2, ns_version = 5\<rparr>"
abbreviation RELAY_CRYPT_CGO :: named_subver where "RELAY_CRYPT_CGO \<equiv> \<lparr>ns_kind = 2, ns_version = 6\<rparr>"

datatype protocol = Proto proto_kind | Unrecognized string

definition is_unrecognized :: "string \<Rightarrow> protocol \<Rightarrow> bool" where
  "is_unrecognized s p = (case p of Unrecognized s2 \<Rightarrow> s2 = s | _ \<Rightarrow> False)"

definition protocol_to_str :: "protocol \<Rightarrow> string" where
  "protocol_to_str p =
     (case p of
        Proto k \<Rightarrow> (case proto_to_str k of Some s \<Rightarrow> s | None \<Rightarrow> ''<bug>'')
      | Unrecognized s \<Rightarrow> s)"

record subprotocol_entry =
  sp_proto :: protocol
  sp_supported :: u64

record protocols =
  recognized :: "u64 list"
  unrecognized :: "subprotocol_entry list"

definition protocols_new :: protocols where
  "protocols_new = \<lparr>recognized = replicate N_RECOGNIZED 0, unrecognized = []\<rparr>"

text \<open>The derived order of entries: by protocol, recognized ones first, then by mask.\<close>

definition entry_key :: "subprotocol_entry \<Rightarrow> (nat \<times> nat \<times> string) \<times> u64" where
  "entry_key e =
     ((case sp_proto e of Proto k \<Rightarrow> (0, unat k, []) | Unrecognized s \<Rightarrow> (1, 0, s)), sp_supported e)"

abbreviation sort_entries :: "subprotocol_entry list \<Rightarrow> subprotocol_entry list" where
  "sort_entries \<equiv> sort_key entry_key"

section \<open>Queries\<close>

definition supports_recognized_ver :: "nat \<Rightarrow> u8 \<Rightarrow> protocols \<Rightarrow> bool" where
  "supports_recognized_ver proto ver p =
     (if unat ver > MAX_VER then False
      else if proto \<ge> length (recognized p) then False
      else (recognized p ! proto) AND push_bit (unat ver) 1 \<noteq> 0)"

definition supports_unrecognized_ver :: "string \<Rightarrow> u8 \<Rightarrow> protocols \<Rightarrow> bool" where
  "supports_unrecognized_ver proto ver p =
     (if unat ver > MAX_VER then False
      else case List.find (\<lambda>ent. is_unrecognized proto (sp_proto ent)) (unrecognized p) of
             Some e \<Rightarrow> sp_supported e AND push_bit (unat ver) 1 \<noteq> 0
           | None \<Rightarrow> False)"

definition protocols_is_empty :: "protocols \<Rightarrow> bool" where
  "protocols_is_empty p \<longleftrightarrow>
     list_all (\<lambda>v. v = 0) (recognized p) \<and> list_all (\<lambda>e. sp_supported e = 0) (unrecognized p)"

definition supports_known_subver :: "proto_kind \<Rightarrow> u8 \<Rightarrow> protocols \<Rightarrow> bool" where
  "supports_known_subver proto ver p = supports_recognized_ver (unat proto) ver p"

definition supports_subver :: "string \<Rightarrow> u8 \<Rightarrow> protocols \<Rightarrow> bool" where
  "supports_subver proto ver p =
     (case proto_from_name proto of
        Some k \<Rightarrow> supports_recognized_ver (unat k) ver p
      | None \<Rightarrow> supports_unrecognized_ver proto ver p)"

definition supports_named_subver :: "named_subver \<Rightarrow> protocols \<Rightarrow> bool" where
  "supports_named_subver protover p = supports_known_subver (ns_kind protover) (ns_version protover) p"

section \<open>Set operations\<close>

definition find_proto :: "protocol \<Rightarrow> subprotocol_entry list \<Rightarrow> subprotocol_entry option" where
  "find_proto p ents = List.find (\<lambda>e. sp_proto e = p) ents"

definition protocols_difference :: "protocols \<Rightarrow> protocols \<Rightarrow> protocols" where
  "protocols_difference self other =
     \<lparr>recognized = map2 (\<lambda>a b. a AND NOT b) (recognized self) (recognized other),
      unrecognized =
        filter (\<lambda>ent. sp_supported ent \<noteq> 0)
          (map (\<lambda>ent. case find_proto (sp_proto ent) (unrecognized other) of
                        Some other_ent \<Rightarrow> ent\<lparr>sp_supported := sp_supported ent AND NOT (sp_supported other_ent)\<rparr>
                      | None \<Rightarrow> ent) (unrecognized self))\<rparr>"

text \<open>One entry of the other set, put into ours.\<close>

fun or_entry :: "subprotocol_entry \<Rightarrow> subprotocol_entry list \<Rightarrow> subprotocol_entry list" where
  "or_entry ent [] = [ent]"
| "or_entry ent (e # es) =
     (if sp_proto e = sp_proto ent then e\<lparr>sp_supported := sp_supported e OR sp_supported ent\<rparr> # es
      else e # or_entry ent es)"

definition protocols_union :: "protocols \<Rightarrow> protocols \<Rightarrow> protocols" where
  "protocols_union self other =
     \<lparr>recognized = map2 (\<lambda>a b. a OR b) (recognized self) (recognized other),
      unrecognized = sort_entries (fold or_entry (unrecognized other) (unrecognized self))\<rparr>"

definition protocols_intersection :: "protocols \<Rightarrow> protocols \<Rightarrow> protocols" where
  "protocols_intersection self other =
     \<lparr>recognized = map2 (\<lambda>a b. a AND b) (recognized self) (recognized other),
      unrecognized = sort_entries (List.map_filter (\<lambda>ent.
        case find_proto (sp_proto ent) (unrecognized other) of
          Some other_ent \<Rightarrow>
            (let supported = sp_supported ent AND sp_supported other_ent in
             if supported \<noteq> 0 then Some \<lparr>sp_proto = sp_proto ent, sp_supported = supported\<rparr> else None)
        | None \<Rightarrow> None) (unrecognized self))\<rparr>"

section \<open>Parsing\<close>

datatype protover_error = OutOfRange | Duplicate | Malformed | ProtoverPanic string

definition protocols_add :: "subprotocol_entry \<Rightarrow> u64 \<times> protocols \<Rightarrow> protover_error + u64 \<times> protocols" where
  "protocols_add ent st = (case st of (foundmask, p) \<Rightarrow>
     (case sp_proto ent of
        Proto k \<Rightarrow>
          (if \<not> unat k < N_RECOGNIZED then Inl (ProtoverPanic ''assertion failed: idx < N_RECOGNIZED'')
           else if foundmask AND push_bit (unat k) 1 \<noteq> 0 then Inl Duplicate
           else Inr (foundmask OR push_bit (unat k) 1, p\<lparr>recognized := (recognized p)[unat k := sp_supported ent]\<rparr>))
      | Unrecognized s \<Rightarrow>
          (if list_ex (\<lambda>ent. is_unrecognized s (sp_proto ent)) (unrecognized p) then Inl Duplicate
           else if sp_supported ent \<noteq> 0 then Inr (foundmask, p\<lparr>unrecognized := unrecognized p @ [ent]\<rparr>)
           else Inr (foundmask, p))))"

definition bitrange :: "nat \<Rightarrow> nat \<Rightarrow> u64 option" where
  "bitrange lo hi =
     (if lo \<le> hi \<and> lo \<le> 63 \<and> hi \<le> 63
      then Some (push_bit lo (drop_bit (63 - hi + lo) (push_bit (63 - hi) (- 1)))) else None)"

definition is_good_number :: "string \<Rightarrow> bool" where
  "is_good_number n \<longleftrightarrow> list_all is_ascii_digit n \<and> \<not> (n \<noteq> [] \<and> hd n = CHR ''0'')"

text \<open>The body of the loop over the comma-separated ranges.\<close>

definition add_range :: "string \<Rightarrow> u64 \<Rightarrow> protover_error + u64" where
  "add_range ent supported =
     (let (lo_s, hi_s) = (case split_once (CHR ''-'') ent of Some p \<Rightarrow> p | None \<Rightarrow> (ent, ent)) in
      if \<not> is_good_number lo_s then Inl Malformed
      else if \<not> is_good_number hi_s then Inl Malformed
      else
        (case (parse_uint 18446744073709551615 lo_s, parse_uint 18446744073709551615 hi_s) of
           (Some lo, Some hi) \<Rightarrow>
             (if lo > MAX_VER \<or> hi > MAX_VER then Inl OutOfRange
              else if lo > hi then Inl Malformed
              else
                (case bitrange lo hi of
                   None \<Rightarrow> Inl (ProtoverPanic ''assertion failed: lo <= hi && lo <= 63 && hi <= 63'')
                 | Some bits \<Rightarrow>
                     if supported AND bits \<noteq> 0 then Inl Duplicate else Inr (supported OR bits)))
         | _ \<Rightarrow> Inl Malformed))"

fun add_ranges :: "string list \<Rightarrow> u64 \<Rightarrow> protover_error + u64" where
  "add_ranges [] supported = Inr supported"
| "add_ranges (ent # ents) supported = res_bind (add_range ent supported) (add_ranges ents)"

definition entry_from_str :: "string \<Rightarrow> protover_error + subprotocol_entry" where
  "entry_from_str s =
     (case split_once (CHR ''='') s of
        None \<Rightarrow> Inl Malformed
      | Some (name, versions) \<Rightarrow>
          (let proto = (case proto_from_name name of Some p \<Rightarrow> Proto p | None \<Rightarrow> Unrecognized name) in
           if versions = [] then Inr \<lparr>sp_proto = proto, sp_supported = 0\<rparr>
           else res_bind (add_ranges (split_on (CHR '','') versions) 0) (\<lambda>supported.
                Inr \<lparr>sp_proto = proto, sp_supported = supported\<rparr>)))"

fun add_entries :: "string list \<Rightarrow> u64 \<times> protocols \<Rightarrow> protover_error + u64 \<times> protocols" where
  "add_entries [] st = Inr st"
| "add_entries (ent # ents) st =
     (if ent = [] then add_entries ents st
      else res_bind (entry_from_str ent) (\<lambda>s. res_bind (protocols_add s st) (add_entries ents)))"

definition protocols_from_str :: "string \<Rightarrow> protover_error + protocols" where
  "protocols_from_str s =
     res_bind (add_entries (split_on (CHR '' '') s) (0, protocols_new)) (\<lambda>(_, result).
     Inr (result\<lparr>unrecognized := sort_entries (unrecognized result)\<rparr>))"

section \<open>Printing\<close>

definition trailing_zeros :: "u64 \<Rightarrow> nat" where
  "trailing_zeros w = length (takeWhile Not (map (bit w) [0..<64]))"

definition trailing_ones :: "u64 \<Rightarrow> nat" where
  "trailing_ones w = length (takeWhile (\<lambda>b. b) (map (bit w) [0..<64]))"

definition range_string :: "nat \<Rightarrow> nat \<Rightarrow> string" where
  "range_string lo hi = (if lo = hi then dec_string lo else dec_string lo @ ''-'' @ dec_string hi)"

text \<open>The loop of \<open>dumpmask\<close>, with a bound on the number of rounds.\<close>

fun dump_loop :: "nat \<Rightarrow> u64 \<Rightarrow> nat \<Rightarrow> string list \<Rightarrow> string list option" where
  "dump_loop 0 bits shift result = (if bits = 0 then Some result else None)"
| "dump_loop (Suc fuel) bits shift result =
     (if bits = 0 then Some result
      else
        (let zeros = trailing_zeros bits;
             bits = drop_bit zeros bits;
             shift = shift + zeros;
             ones = trailing_ones bits;
             result = result @ [range_string shift (shift + ones - 1)];
             shift = shift + ones in
         if ones = 64 then Some result
         else dump_loop fuel (drop_bit ones bits) shift result))"

definition dumpmask :: "u64 \<Rightarrow> string option" where
  "dumpmask bits = map_option (join_with '','') (dump_loop 32 bits 0 [])"

definition entry_strings :: "protocols \<Rightarrow> string option list" where
  "entry_strings p =
     List.map_filter (\<lambda>(idx, bits). if bits \<noteq> 0
        then Some (map_option (\<lambda>d. proto_display (of_nat idx) @ ''='' @ d) (dumpmask bits)) else None) (enumerate 0 (recognized p)) @
     List.map_filter (\<lambda>ent. if sp_supported ent \<noteq> 0
        then Some (map_option (\<lambda>d. protocol_to_str (sp_proto ent) @ ''='' @ d) (dumpmask (sp_supported ent))) else None) (unrecognized p)"

definition protocols_display :: "protocols \<Rightarrow> string option" where
  "protocols_display p =
     (if None \<in> set (entry_strings p) then None
      else Some (join_with '' '' (sort (map the (entry_strings p)))))"

definition protocols_from_iter :: "named_subver list \<Rightarrow> protover_error + protocols" where
  "protocols_from_iter vs =
     (if list_all (\<lambda>v. unat (ns_kind v) < N_RECOGNIZED \<and> unat (ns_version v) \<le> MAX_VER) vs
      then Inr (fold (\<lambda>v r. r\<lparr>recognized := (recognized r)[unat (ns_kind v) :=
                  (recognized r ! unat (ns_kind v)) OR push_bit (unat (ns_version v)) 1]\<rparr>) vs protocols_new)
      else Inl (ProtoverPanic ''assertion failed''))"

end
