(* ===== verification/Circuit_Extend.thy ===== *)
theory Circuit_Extend
  imports Circuit_Cells Protover
begin

text \<open>
  Creating and extending a circuit: the settings of a hop and their negotiation
  (\<open>HopSettings\<close> and \<open>CircParameters\<close> of \<open>tor-proto/src/tunnel/circuit.rs\<close>,
  \<open>circ_extensions_from_settings\<close> and \<open>create_impl\<close> of \<open>reactor/circuit.rs\<close>), the cells of a first
  hop (\<open>reactor/circuit/create.rs\<close>), and the extender that handles EXTENDED2
  (\<open>reactor/circuit/extender.rs\<close>). A client handshake (the traits \<open>ClientHandshake\<close> and
  \<open>HandshakeAuxDataHandler\<close>) is a record of functions; its randomness is part of \<open>ch_client1\<close>.
\<close>

section \<open>Settings of a hop\<close>

record circ_parameters =
  extend_by_ed25519_id :: bool
  cp_ccontrol :: cc_params
  cp_n_incoming :: "u32 option"
  cp_n_outgoing :: "u32 option"

datatype hop_negotiation_type = NegotiateNone | NegotiateHsV3 | NegotiateFull

definition hop_settings_from :: "hop_negotiation_type \<Rightarrow> circ_parameters \<Rightarrow> protocols \<Rightarrow> hop_settings" where
  "hop_settings_from hoptype params caps =
     (let ccontrol = cp_ccontrol params;
          ccontrol = (case alg ccontrol of
                        FixedWindowAlg _ \<Rightarrow> ccontrol
                      | VegasAlg _ \<Rightarrow> if \<not> supports_named_subver FLOWCTRL_CC caps then use_fallback_alg ccontrol else ccontrol);
          ccontrol = (if hoptype = NegotiateNone then use_fallback_alg ccontrol
                      else if hoptype = NegotiateHsV3 then use_fallback_alg ccontrol
                      else ccontrol);
          relay_crypt_protocol =
            (case hoptype of
               NegotiateNone \<Rightarrow> ProtoTor1 FmtV0
             | NegotiateHsV3 \<Rightarrow> ProtoHsV3 FmtV0
             | NegotiateFull \<Rightarrow>
                 (if compatible_with_cgo (alg ccontrol) \<and> supports_named_subver RELAY_NEGOTIATE_SUBPROTO caps \<and>
                     supports_named_subver RELAY_CRYPT_CGO caps
                  then ProtoCgo else ProtoTor1 FmtV0)) in
      \<lparr>hs_ccontrol = ccontrol, hs_protocol = relay_crypt_protocol,
       hs_n_incoming = cp_n_incoming params, hs_n_outgoing = cp_n_outgoing params\<rparr>)"

datatype circ_request_ext = CcRequest | SubprotocolRequest "named_subver list"

definition circ_extensions_from_settings :: "hop_settings \<Rightarrow> proto_error + circ_request_ext list" where
  "circ_extensions_from_settings params =
     (let cc_extension_set = is_enabled (hs_ccontrol params);
          client_extensions = (if cc_extension_set then [CcRequest] else []) in
      if hs_protocol params = ProtoCgo \<and> \<not> cc_extension_set
      then Inl (ProtoBug ''Tried to negotiate CGO without CC.'')
      else
        (let required = (if hs_protocol params = ProtoCgo then [RELAY_CRYPT_CGO] else []) in
         Inr (client_extensions @ (if required \<noteq> [] then [SubprotocolRequest required] else []))))"

section \<open>Handshakes\<close>

record ('key, 'aux, 'hst, 'saux) client_handshake =
  ch_client1 :: "'key \<Rightarrow> 'aux \<Rightarrow> proto_error + ('hst \<times> bytes)"
  ch_client2 :: "'hst \<Rightarrow> bytes \<Rightarrow> proto_error + ('saux \<times> keygen)"
  ch_handle_server_aux_data :: "'saux \<Rightarrow> (hop_settings, unit) op"

datatype circ_response_ext = CcResponse u8 | OtherResponse u8

fun ntor_v3_server_aux_data :: "circ_response_ext list \<Rightarrow> (hop_settings, unit) op" where
  "ntor_v3_server_aux_data [] settings = (Inr (), settings)"
| "ntor_v3_server_aux_data (ext # exts) settings =
     (case ext of
        CcResponse inc \<Rightarrow>
          (if \<not> is_enabled (hs_ccontrol settings)
           then (Inl (HandshakeProto ''Received unexpected ntorv3 CC ack extension''), settings)
           else if \<not> is_sendme_inc_valid inc (hs_ccontrol settings)
           then (Inl (HandshakeProto ''Received invalid sendme increment in CC ntorv3 extension''), settings)
           else ntor_v3_server_aux_data exts
             (settings\<lparr>hs_ccontrol := (hs_ccontrol settings)
                \<lparr>ccp_cwnd := set_sendme_inc inc (ccp_cwnd (hs_ccontrol settings))\<rparr>\<rparr>))
      | OtherResponse _ \<Rightarrow> (Inl (HandshakeProto ''Received unexpected ntorv3 extension''), settings))"

text \<open>The ntor and CREATE_FAST handshakes have no auxiliary data.\<close>

definition no_server_aux_data :: "unit \<Rightarrow> (hop_settings, unit) op" where
  "no_server_aux_data d = op_ret ()"

section \<open>The first hop\<close>

datatype create_response = RespDestroy u8 | RespCreatedFast bytes | RespCreated2 bytes

datatype create_wrap = CreateFastWrap | Create2Wrap u16

definition to_chanmsg :: "create_wrap \<Rightarrow> bytes \<Rightarrow> any_chan_msg" where
  "to_chanmsg w bs =
     (case w of
        CreateFastWrap \<Rightarrow> CreateFast bs
      | Create2Wrap ty \<Rightarrow> Create2 \<lparr>handshake_type = ty, handshake = bs\<rparr>)"

definition decode_chanmsg :: "create_wrap \<Rightarrow> create_response \<Rightarrow> proto_error + bytes" where
  "decode_chanmsg w m =
     (case w of
        CreateFastWrap \<Rightarrow>
          (case m of
             RespCreatedFast b \<Rightarrow> Inr b
           | RespDestroy _ \<Rightarrow> Inl (CircRefused ''Relay replied to CREATE_FAST with DESTROY.'')
           | _ \<Rightarrow> Inl (CircProto ''Relay replied to CREATE_FAST with unexpected cell''))
      | Create2Wrap _ \<Rightarrow>
          (case m of
             RespCreated2 b \<Rightarrow> Inr b
           | RespDestroy _ \<Rightarrow> Inl (CircRefused ''Relay replied to CREATE2 with DESTROY.'')
           | _ \<Rightarrow> Inl (CircProto ''Relay replied to CREATE2 with unexpected cell'')))"

text \<open>
  The end of a handshake: the keys, the settings as negotiated, the layers and the new hop. The
  first stream identifier of the hop is drawn at random.
\<close>

definition finish_handshake where
  "finish_handshake H K peer_id state relay_handshake settings first c =
     (case ch_client2 H state relay_handshake of
        Inl e \<Rightarrow> (Inl e, settings, c)
      | Inr (server_msg, keygen) \<Rightarrow>
          (case ch_handle_server_aux_data H server_msg settings of
             (Inl e, settings) \<Rightarrow> (Inl e, settings, c)
           | (Inr _, settings) \<Rightarrow>
               (case construct_client_layers K (hs_protocol settings) Initiator keygen of
                  Inl e \<Rightarrow> (Inl e, settings, c)
                | Inr l \<Rightarrow>
                    (case add_hop peer_id (bl_fwd l) (bl_back l) (bl_binding l) settings first c of
                       (r, c) \<Rightarrow> (r, settings, c)))))"

text \<open>
  \<open>create_impl\<close>, in the two parts around its \<open>await\<close>: the CREATE cell, and the handling of the
  reply, where no reply means that the circuit was closed.
\<close>

definition create_begin where
  "create_begin H I wrap key aux c =
     (case ch_client1 H key aux of
        Inl e \<Rightarrow> (Inl e, c)
      | Inr (state, m) \<Rightarrow> op_bind (send_msg I (to_chanmsg wrap m)) (\<lambda>_. op_ret state) c)"

definition create_finish where
  "create_finish H K wrap peer_id settings first state reply c =
     (case reply of
        None \<Rightarrow> (Inl (CircProto ''Circuit closed while waiting''), c)
      | Some reply \<Rightarrow>
          (case decode_chanmsg wrap reply of
             Inl e \<Rightarrow> (Inl e, c)
           | Inr relay_handshake \<Rightarrow>
               (case finish_handshake H K peer_id state relay_handshake settings first c of
                  (r, _, c) \<Rightarrow> (r, c))))"

section \<open>Extending\<close>

record ('hst, 'p) circuit_extender =
  ex_peer_id :: 'p
  ex_state :: "'hst option"
  ex_settings :: hop_settings
  ex_unique_id :: nat
  ex_expected_hop :: hop_num
  ex_operation_finished :: bool
  ex_first :: stream_id

definition extender_begin where
  "extender_begin H peer_id handshake_id key linkspecs settings aux first c =
     (case ch_client1 H key aux of
        Inl e \<Rightarrow> Inl e
      | Inr (state, m) \<Rightarrow>
          (let n_hops = length (crypto_out c);
               hop = of_nat n_hops - 1 in
           Inr (\<lparr>ex_peer_id = peer_id, ex_state = Some state, ex_settings = settings, ex_unique_id = unique_id c,
                 ex_expected_hop = hop, ex_operation_finished = True, ex_first = first\<rparr>,
                \<lparr>src_hop = hop, src_early = True,
                 src_cell = \<lparr>streamid = None,
                   rmsg = Extend2 \<lparr>x2_linkspec = linkspecs, x2_handshake_type = handshake_id, x2_handshake = m\<rparr>\<rparr>\<rparr>)))"

definition extend_circuit where
  "extend_circuit H K m s = (case s of (ext, c) \<Rightarrow>
     (case unparsed_decode (decode_as RelayCmd_EXTENDED2 extended2_decode) m of
        Inl e \<Rightarrow> (Inl (BytesErr e ''extended2 message''), s)
      | Inr x \<Rightarrow>
          (case ex_state ext of
             None \<Rightarrow> (Inl (Panic ''CircuitExtender::finish() called twice''), s)
           | Some state \<Rightarrow>
               (case finish_handshake H K (ex_peer_id ext) state (rmsg x) (ex_settings ext) (ex_first ext) c of
                  (r, settings, c) \<Rightarrow>
                    (map_sum id (\<lambda>_. ConversationFinished) r, ext\<lparr>ex_state := None, ex_settings := settings\<rparr>, c)))))"

definition extender_handle_msg where
  "extender_handle_msg H K m s =
     (case extend_circuit H K m s of
        (status, ext, c) \<Rightarrow>
          (if ex_operation_finished ext then (status, ext\<lparr>ex_operation_finished := False\<rparr>, c)
           else (Inl (ProtoBug ''Passed two messages to an CircuitExtender!''), ext, c)))"

definition extender_ops where
  "extender_ops H K =
     \<lparr>mh_expected_hop = (\<lambda>ext. (ex_unique_id ext, ex_expected_hop ext)),
      mh_handle_msg = extender_handle_msg H K\<rparr>"

end
