(* ===== verification/Circuit_Safe.thy ===== *)
theory Circuit_Safe
  imports Hop_Facts Circuit_Extend
begin

text \<open>
  A circuit survives what the network sends: no cell body, however malformed, makes the handling
  of a cell panic, and the state it leaves is again one that survives. Operations that keep an
  invariant and do not panic are closed under sequencing, so the proof follows the code.
\<close>

section \<open>Operations that keep an invariant and do not panic\<close>

definition no_panic :: "proto_error + 'a \<Rightarrow> bool" where
  "no_panic r \<longleftrightarrow> (\<forall>x. r = Inl (Panic x) \<longrightarrow> x = queue_overflow)"

definition safe_op :: "('s \<Rightarrow> bool) \<Rightarrow> ('s, 'a) op \<Rightarrow> bool" where
  "safe_op P m \<longleftrightarrow> (\<forall>s. P s \<longrightarrow> P (snd (m s)) \<and> no_panic (fst (m s)))"

named_theorems safe_ops

lemma no_panic_simps [simp]:
  "no_panic (Inr x)" "no_panic (Inl (CircProto a))" "no_panic (Inl (StreamProto a))" "no_panic (Inl (BytesErr b a))"
  "no_panic (Inl (ProtoBug a))" "no_panic (Inl NoSuchHop)" "no_panic (Inl BadCellAuth)" "no_panic (Inl CircuitClosed)"
  "no_panic (Inl ExcessInboundCells)" "no_panic (Inl ExcessOutboundCells)"
  "no_panic (Inl unsupported_client_cell)"
  by (simp_all add: no_panic_def unsupported_client_cell_def)

lemma no_panic_cases [simp]: "no_panic (Inl e :: proto_error + 'a) \<Longrightarrow> no_panic (Inl e :: proto_error + 'b)"
  by (simp add: no_panic_def)

lemma safe_op_ret [safe_ops]: "safe_op P (op_ret x)"
  by (simp add: safe_op_def op_ret_def)

lemma safe_op_fail [safe_ops]: "no_panic (Inl e :: proto_error + 'a) \<Longrightarrow> safe_op P (op_fail e :: ('s, 'a) op)"
  by (simp add: safe_op_def op_fail_def)

lemma safe_op_bind [safe_ops]:
  "safe_op P m \<Longrightarrow> (\<And>x. safe_op P (f x)) \<Longrightarrow> safe_op P (op_bind m f)"
  unfolding safe_op_def op_bind_def
  by (auto split: prod.splits sum.splits)

lemma safe_op_if [safe_ops]: "safe_op P m \<Longrightarrow> safe_op P m' \<Longrightarrow> safe_op P (if b then m else m')"
  by simp

lemma safe_opD: "safe_op P m \<Longrightarrow> P s \<Longrightarrow> m s = (r, s') \<Longrightarrow> P s' \<and> no_panic r"
  unfolding safe_op_def by (metis fst_conv snd_conv)

lemma safe_opI: "(\<And>s r s'. P s \<Longrightarrow> m s = (r, s') \<Longrightarrow> P s' \<and> no_panic r) \<Longrightarrow> safe_op P m"
  unfolding safe_op_def by (metis prod.collapse)

lemma safe_op_field:
  assumes "safe_op Q m" "\<And>s. P s \<Longrightarrow> Q (get s)" "\<And>s t. P s \<Longrightarrow> Q t \<Longrightarrow> P (upd t s)"
  shows "safe_op P (op_field get upd m)"
proof (rule safe_opI)
  fix s r s' assume p: "P s" and e: "op_field get upd m s = (r, s')"
  obtain t where t: "m (get s) = (r, t)" "s' = upd t s" using e by (auto simp: op_field_def split: prod.splits)
  show "P s' \<and> no_panic r" using safe_opD [OF assms(1) assms(2) [OF p] t(1)] assms(3) [OF p] t(2) by blast
qed

section \<open>Hops\<close>

text \<open>The receive window of a circuit stays at or below its start, so that returning credit cannot overflow it.\<close>

definition recv_ok :: "cc_algorithm \<Rightarrow> bool" where
  "recv_ok a \<longleftrightarrow> (case a of AFixed f \<Rightarrow> fw_recvwindow f \<le> 1000 | AVegas _ \<Rightarrow> True)"

definition hop_good :: "'r rx_next \<Rightarrow> ('c, 'v, 'r) circ_hop \<Rightarrow> bool" where
  "hop_good n h \<longleftrightarrow> sm_good n (hop_map h) \<and> recv_ok (cc_alg (ccontrol h))"

lemma hop_new_hop_good:
  assumes "hop_new num settings first = Inr h" "first \<noteq> 0"
  shows "hop_good n h"
  using hop_new_good [OF assms] assms(1)
  by (auto simp: hop_good_def hop_new_def cc_new_def recv_ok_def fixed_new_def CircParams_def res_bind_def split: sum.splits cc_algorithm.splits algorithm_params.splits)

lemma safe_on_map: "safe_op (sm_good n) f \<Longrightarrow> safe_op (hop_good n) (on_map f)"
  by (rule safe_op_field) (auto simp: hop_good_def)

lemma safe_handle_msg [safe_ops]: "safe_op (hop_good n) (hop_handle_msg cs counts i u)"
  unfolding hop_handle_msg_def
  by (rule safe_on_map, rule safe_opI) (drule (1) map_handle_good, simp add: no_panic_def)

lemma safe_ending [safe_ops]: "safe_op (hop_good n) (hop_ending_msg_received i)"
  unfolding hop_ending_msg_received_def
  by (rule safe_on_map, rule safe_opI) (drule (1) ending_good, simp add: no_panic_def)

lemma safe_add_ent [safe_ops]: "safe_op (hop_good n) (hop_add_ent_with_id snk r rate drains i c)"
proof (rule safe_opI)
  fix h res h' assume g: "hop_good n h" and e: "hop_add_ent_with_id snk r rate drains i c h = (res, h')"
  have "safe_op (hop_good n) (on_map (add_ent_with_id snk r (build_flow_ctrl rate drains h) i c))"
    by (rule safe_on_map, rule safe_opI) (drule (1) add_ent_with_id_good, simp add: no_panic_def)
  from safe_opD [OF this g] e show "hop_good n h' \<and> no_panic res" by (simp add: hop_add_ent_with_id_def)
qed

lemma safe_maybe_xoff [safe_ops]: "safe_op (hop_good n) (hop_maybe_send_xoff i)"
proof (rule safe_opI)
  fix h r h' assume g: "hop_good n h" and x: "hop_maybe_send_xoff i h = (r, h')"
  have "safe_op (sm_good n) (on_open i ent_maybe_send_xoff (op_ret None))"
  proof (rule safe_opI)
    fix m r m' assume m: "sm_good n m" "on_open i ent_maybe_send_xoff (op_ret None) m = (r, m')"
    have e: "op_ret None = (\<lambda>m. (Inr None, m))" by (simp add: op_ret_def fun_eq_iff)
    have "sm_good n m' \<and> line_effect i m m'"
      by (rule on_open_quiet [OF m(1) m(2) [unfolded e]]) (erule xoff_quiet)
    moreover have "no_panic r" using m(2) no_panic_xoff
      by (fastforce simp: on_open_def no_panic_def op_ret_def split: option.splits stream_ent_mut.splits prod.splits)
    ultimately show "sm_good n m' \<and> no_panic r" by simp
  qed
  from safe_opD [OF safe_on_map [OF this] g] x g show "hop_good n h' \<and> no_panic r"
    by (auto simp: hop_maybe_send_xoff_def split: if_splits)
qed

lemma safe_inbound_limit [safe_ops]: "safe_op (hop_good n) decrement_inbound_cell_limit"
  by (rule safe_opI) (auto simp: decrement_inbound_cell_limit_def hop_good_def split: option.splits)

text \<open>Counting a data cell, and returning the credit when it is due.\<close>

lemma recv_take_ok:
  assumes "recv_ok a" "alg_data_received a = (r, a')"
  shows "recv_ok a' \<and> no_panic r \<and> (r = Inr True \<longrightarrow> (\<exists>a2. alg_sendme_sent a' = (Inr (), a2) \<and> recv_ok a2))"
proof (cases a)
  case (AFixed f)
  let ?w = "fw_recvwindow f"
  have w: "unat ?w \<le> 1000" using assms(1) AFixed by (simp add: recv_ok_def word_le_nat_alt)
  show ?thesis
  proof (cases "?w = 0")
    case True
    then show ?thesis using assms AFixed
      by (auto simp: alg_data_received_def fixed_data_received_def op_field_def recv_window_take_spec CircParams_def recv_ok_def)
  next
    case False
    then have u: "unat (?w - 1) = unat ?w - 1" "unat ?w \<noteq> 0" by (simp_all add: unat_minus_one unat_eq_zero)
    have a': "r = Inr ((?w - 1) mod 100 = 0)" "a' = AFixed (f\<lparr>fw_recvwindow := ?w - 1\<rparr>)"
      using assms(2) AFixed False
      by (auto simp: alg_data_received_def fixed_data_received_def op_field_def recv_window_take_spec CircParams_def)
    have ok: "recv_ok a'" using a' w u by (simp add: recv_ok_def word_le_nat_alt)
    have "\<exists>a2. alg_sendme_sent a' = (Inr (), a2) \<and> recv_ok a2" if "(?w - 1) mod 100 = 0"
    proof -
      have "unat ((?w - 1) mod 100) = 0" using that by simp
      then have "(unat ?w - 1) mod 100 = 0" using u by (simp add: unat_mod)
      with w u have "unat (?w - 1) \<le> 900" by presburger
      then have "unat (?w - 1 + 100) = unat (?w - 1) + 100" by (subst unat_add_lem [THEN iffD1]) simp_all
      then show ?thesis using \<open>unat (?w - 1) \<le> 900\<close> a'
        by (simp add: alg_sendme_sent_def fixed_sendme_sent_def op_field_def recv_window_put_def checked_add_w_def CircParams_def
            recv_ok_def word_le_nat_alt)
    qed
    then show ?thesis using a' ok by auto
  qed
next
  case (AVegas v)
  then show ?thesis using assms
    by (auto simp: alg_data_received_def alg_sendme_sent_def recv_ok_def split: prod.splits)
qed

section \<open>Decryption\<close>

text \<open>Layers that decrypt any body without panicking, and stay such layers.\<close>

definition layers_total :: "('ol, 'il) layer_ops \<Rightarrow> ('il \<Rightarrow> bool) \<Rightarrow> bool" where
  "layers_total L good \<longleftrightarrow>
     (\<forall>cmd cell l. length cell = 509 \<longrightarrow> good l \<longrightarrow>
        (\<exists>t cell' l'. lo_decrypt_inbound L cmd (cell, l) = (Inr t, cell', l') \<and> length cell' = 509 \<and> good l'))"

lemma decrypt_loop_ok:
  assumes "layers_total L good" "\<forall>i \<in> set is. i < length ls" "length ls \<le> 255" "length cell = 509" "list_all good ls"
    "decrypt_loop (lo_decrypt_inbound L cmd) is (cell, ls) = (r, cell', ls')"
  shows "no_panic r \<and> length cell' = 509 \<and> length ls' = length ls \<and> list_all good ls' \<and>
    (\<forall>h t. r = Inr (h, t) \<longrightarrow> unat h < length ls)"
  using assms(2-6)
proof (induction "is" arbitrary: cell ls)
  case Nil
  then show ?case by (auto simp: op_fail_def)
next
  case (Cons i "is")
  have i: "i < length ls" "good (ls ! i)" using Cons.prems by (simp_all add: list_all_length)
  obtain t c1 l1 where d: "lo_decrypt_inbound L cmd (cell, ls ! i) = (Inr t, c1, l1)" "length c1 = 509" "good l1"
    using assms(1) i(2) Cons.prems(3) unfolding layers_total_def by blast
  have ls1: "list_all good (ls[i := l1])" using Cons.prems(4) d(3) i(1) by (simp add: list_all_length nth_list_update)
  show ?case
  proof (cases t)
    case None
    then have "decrypt_loop (lo_decrypt_inbound L cmd) is (c1, ls[i := l1]) = (r, cell', ls')"
      using Cons.prems(5) d(1) by (simp add: op_bind_def on_layer_def)
    from Cons.IH [OF _ _ d(2) ls1 this] Cons.prems(1,2) show ?thesis by simp
  next
    case (Some tag)
    have "unat (of_nat i :: u8) = i" using i(1) Cons.prems(2) by (simp add: unat_of_nat)
    then show ?thesis using Some Cons.prems(2,5) d(1,2) i(1) ls1 by (auto simp: op_bind_def on_layer_def op_ret_def)
  qed
qed

section \<open>Circuits\<close>

definition circ_good :: "'r rx_next \<Rightarrow> ('il \<Rightarrow> bool) \<Rightarrow> ('c, 'v, 'r, 'ol, 'il, 's, 'p) circuit \<Rightarrow> bool" where
  "circ_good n good c \<longleftrightarrow> length (crypto_in c) = length (hops c) \<and> length (crypto_out c) = length (hops c) \<and>
     length (hops c) \<le> 255 \<and> list_all (hop_good n) (hops c) \<and> list_all good (crypto_in c)"

lemma circuit_new_good: "circ_good n good (circuit_new sender cid uid)"
  by (simp add: circ_good_def circuit_new_def)

lemma cc_new_total: "\<exists>cc. cc_new params = Inr cc"
  by (auto simp: cc_new_def vegas_new_def update_rate_def in_slow_start_def split: algorithm_params.split)

lemma add_hop_good:
  fixes c :: "('c, 'v, 'r, 'ol, 'il, 's, 'p) circuit"
  assumes "circ_good n good c" "good rev_layer" "first \<noteq> 0" "add_hop peer fwd_layer rev_layer b settings first c = (r, c')"
  shows "circ_good n good c' \<and> no_panic r \<and> (\<forall>e. r = Inl e \<longrightarrow> c' = c)"
proof (cases "length (hops c) = 255")
  case True
  then show ?thesis using assms(1,4) by (auto simp: add_hop_def)
next
  case False
  obtain h :: "('c, 'v, 'r) circ_hop" where h: "hop_new (of_nat (length (hops c))) settings first = Inr h"
    using cc_new_total [of "hs_ccontrol settings"] that by (auto simp: hop_new_def)
  have l: "length (hops c) < 255" "length (crypto_in c) < 255" "length (crypto_out c) < 255"
      using assms(1) False by (simp_all add: circ_good_def)
  have "add_hop peer fwd_layer rev_layer b settings first c =
     (Inr (), c\<lparr>hops := hops c @ [h], crypto_in := crypto_in c @ [rev_layer], crypto_out := crypto_out c @ [fwd_layer],
        path_hops := path_hops c @ [(peer, b)]\<rparr>)"
    using h False l by (simp add: add_hop_def op_bind_def op_field_def add_layer_def hops_push_def)
  then show ?thesis using assms(1,2,4) l hop_new_hop_good [OF h assms(3), of n] by (simp add: circ_good_def)
qed

lemma safe_on_hop [safe_ops]:
  assumes "safe_op (hop_good n) f" "no_panic (Inl e :: proto_error + 'a)"
  shows "safe_op (circ_good n good) (on_hop i e f :: (_, 'a) op)"
proof (rule safe_opI)
  fix c r c' assume c: "circ_good n good c" and e: "on_hop i e f c = (r, c')"
  show "circ_good n good c' \<and> no_panic r"
  proof (cases "unat i < length (hops c)")
    case False
    then show ?thesis using c e assms(2) by (auto simp: on_hop_def hops_get_def)
  next
    case True
    then obtain h where h: "f (hops c ! unat i) = (r, h)" "c' = c\<lparr>hops := (hops c)[unat i := h]\<rparr>"
      using e by (auto simp: on_hop_def hops_get_def split: prod.splits)
    have "hop_good n (hops c ! unat i)" using c True by (simp add: circ_good_def list_all_length)
    from safe_opD [OF assms(1) this h(1)] show ?thesis
      using c h(2) True by (auto simp: circ_good_def list_all_length nth_list_update)
  qed
qed

lemma decode_relay_cell_good:
  assumes "layers_total L good" "circ_good n good c" "length body = 509" "decode_relay_cell L body c = (r, c')"
  shows "circ_good n good c' \<and> no_panic r \<and> (\<forall>h t d. r = Inr (h, t, d) \<longrightarrow> unat h < length (hops c') \<and> rc_incomplete d = None)"
proof -
  obtain q cell ls where d: "decrypt_loop (lo_decrypt_inbound L ChanCmd_RELAY) [0..<length (crypto_in c)] (body, crypto_in c) = (q, cell, ls)"
    by (metis prod.exhaust)
  have "no_panic q \<and> length cell = 509 \<and> length ls = length (crypto_in c) \<and> list_all good ls \<and>
      (\<forall>h t. q = Inr (h, t) \<longrightarrow> unat h < length (crypto_in c))"
    by (rule decrypt_loop_ok [OF assms(1) _ _ assms(3) _ d]) (use assms(2) in \<open>auto simp: circ_good_def\<close>)
  then show ?thesis using assms(2,4) d
    by (auto simp: decode_relay_cell_def client_decrypt_def circ_good_def hop_decode_def decoder_decode_def Let_def hops_get_def
        split: sum.splits)
qed

text \<open>Operations on one hop in a row are one operation on it.\<close>

definition at_hop where
  "at_hop i m f \<longleftrightarrow> (\<forall>c. unat i < length (hops c) \<longrightarrow> m c = on_hop i NoSuchHop f c)"

lemma at_hop_on_hop: "at_hop i (on_hop i e f) f"
  by (simp add: at_hop_def on_hop_def hops_get_def)

lemma at_hop_ret: "at_hop i (op_ret x) (op_ret x)"
  by (simp add: at_hop_def on_hop_def hops_get_def op_ret_def)

lemma at_hop_bind:
  assumes "at_hop i m f" "\<And>x. at_hop i (k x) (g x)"
  shows "at_hop i (op_bind m k) (op_bind f g)"
  unfolding at_hop_def
proof (intro allI impI)
  fix c :: "('a, 'b, 'c, 'd, 'e, 'f, 'g) circuit" assume i: "unat i < length (hops c)"
  obtain r h where h: "f (hops c ! unat i) = (r, h)" by fastforce
  then have m: "m c = (r, c\<lparr>hops := (hops c)[unat i := h]\<rparr>)"
    using assms(1) i by (simp add: at_hop_def on_hop_def hops_get_def)
  show "op_bind m k c = on_hop i NoSuchHop (op_bind f g) c"
  proof (cases r)
    case (Inr x)
    have "k x (c\<lparr>hops := (hops c)[unat i := h]\<rparr>) = on_hop i NoSuchHop (g x) (c\<lparr>hops := (hops c)[unat i := h]\<rparr>)"
      using assms(2) [of x] i by (simp add: at_hop_def)
    then show ?thesis using Inr m h i by (auto simp: op_bind_def on_hop_def hops_get_def split: prod.splits)
  qed (use m h i in \<open>simp add: op_bind_def on_hop_def hops_get_def\<close>)
qed

lemma safe_account_hop:
  "safe_op (hop_good n) (op_bind decrement_inbound_cell_limit (\<lambda>_.
     op_bind (if c_t_w then on_cc note_data_received else op_ret False) (\<lambda>b.
     if b then op_bind (on_cc note_sendme_sent) (\<lambda>_. op_ret x) else op_ret y)))"
proof (rule safe_op_bind [OF safe_inbound_limit], rule safe_opI)
  fix h r h' assume g: "hop_good n h"
    and e: "op_bind (if c_t_w then on_cc note_data_received else op_ret False) (\<lambda>b.
      if b then op_bind (on_cc note_sendme_sent) (\<lambda>_. op_ret x) else op_ret y) h = (r, h')"
  show "hop_good n h' \<and> no_panic r"
  proof (cases c_t_w)
    case True
    obtain q a where a: "alg_data_received (cc_alg (ccontrol h)) = (q, a)" by fastforce
    have "recv_ok a \<and> no_panic q \<and> (q = Inr True \<longrightarrow> (\<exists>a2. alg_sendme_sent a = (Inr (), a2) \<and> recv_ok a2))"
      by (rule recv_take_ok [OF _ a]) (use g in \<open>simp add: hop_good_def\<close>)
    then show ?thesis using True a g e
      by (cases q) (auto simp: op_bind_def op_field_def op_ret_def note_data_received_def note_sendme_sent_def hop_good_def
          split: if_splits)
  qed (use g e in \<open>auto simp: op_bind_def op_ret_def\<close>)
qed

lemma account_good:
  fixes c :: "('c, 'v, 'r, 'ol, 'il, 's, 'p) circuit"
  assumes "unat hop < length (hops c)" "circ_good n good c" "account_relay_cell hop tag c_t_w c = (r, c')"
  shows "circ_good n good c' \<and> no_panic r"
proof -
  define f :: "(('c, 'v, 'r) circ_hop, circuit_cmd list) op" where "f = op_bind decrement_inbound_cell_limit (\<lambda>_.
     op_bind (if c_t_w then on_cc note_data_received else op_ret False) (\<lambda>b.
     if b then op_bind (on_cc note_sendme_sent) (\<lambda>_. op_ret [CmdSend \<lparr>src_hop = hop, src_early = False,
       src_cell = \<lparr>streamid = None, rmsg = Sendme (Some tag)\<rparr>\<rparr>]) else op_ret []))"
  have "at_hop hop (account_relay_cell hop tag c_t_w :: (('c, 'v, 'r, 'ol, 'il, 's, 'p) circuit, _) op) f"
    unfolding account_relay_cell_def f_def
    by (intro at_hop_bind at_hop_on_hop) (auto intro!: at_hop_bind at_hop_on_hop at_hop_ret)
  then have e: "account_relay_cell hop tag c_t_w c = on_hop hop NoSuchHop f c" using assms(1) by (simp add: at_hop_def)
  have "safe_op (circ_good n good) (on_hop hop NoSuchHop f :: (('c, 'v, 'r, 'ol, 'il, 's, 'p) circuit, _) op)"
    unfolding f_def by (intro safe_on_hop safe_account_hop) simp
  from safe_opD [OF this assms(2) e [symmetric, unfolded assms(3)]] show ?thesis .
qed

section \<open>Handling a cell\<close>

text \<open>
  What is supplied from outside does not panic; a handler of meta cells that is fresh keeps the
  circuit good, and is fresh again if it asks to be kept.
\<close>

definition meta_ok :: "('ci \<Rightarrow> bool) \<Rightarrow> ('mh \<Rightarrow> bool) \<Rightarrow> ('mh, 'ci) meta_ops \<Rightarrow> bool" where
  "meta_ok P fresh M \<longleftrightarrow>
     (\<forall>m h c r h' c'. fresh h \<longrightarrow> P c \<longrightarrow> mh_handle_msg M m (h, c) = (r, h', c') \<longrightarrow>
        P c' \<and> no_panic r \<and> (r = Inr Consumed \<longrightarrow> fresh h'))"

definition incoming_ok :: "('f, 'q, 'c, 'v, 'r) incoming_ops \<Rightarrow> bool" where
  "incoming_ok Q \<longleftrightarrow> (\<forall>req k f. no_panic (fst (in_disposition Q req k f))) \<and> no_panic (in_new_queues Q)"

definition handlers_ok :: "('mh \<Rightarrow> bool) \<Rightarrow> ('mh, 'f, 'q, 'z) cell_handlers_scheme \<Rightarrow> bool" where
  "handlers_ok fresh hs \<longleftrightarrow> (\<forall>h. meta_handler hs = Some h \<longrightarrow> fresh h)"

abbreviation st_good where
  "st_good n good fresh s \<equiv> circ_good n good (st_circ s) \<and> handlers_ok fresh (st_handlers s)"

lemma handlers_ok_simps [simp]:
  "handlers_ok fresh (hs\<lparr>incoming_stream_req_handler := i\<rparr>) = handlers_ok fresh hs"
  "handlers_ok fresh (hs\<lparr>meta_handler := None\<rparr>)" "fresh h \<Longrightarrow> handlers_ok fresh (hs\<lparr>meta_handler := Some h\<rparr>)"
  by (simp_all add: handlers_ok_def)

lemma safe_on_circ [safe_ops]: "safe_op (circ_good n good) m \<Longrightarrow> safe_op (st_good n good fresh) (on_circ m)"
  by (erule safe_op_field) simp_all

lemma check_no_panic: "check_msg m c = (r, c') \<Longrightarrow> no_panic r"
  by (auto simp: check_msg_def check_cmd_def data_check_msg_def resolve_check_msg_def incoming_check_msg_def
      split: cmd_checker.splits if_splits)

lemma safe_accept [safe_ops]:
  assumes "incoming_ok Q" "handlers_ok fresh handlers"
  shows "safe_op (st_good n good fresh) (accept_stream Q handlers handler req sid hop leg)"
proof (cases "in_new_queues Q")
  case (Inl e)
  then show ?thesis using assms by (auto simp: accept_stream_def incoming_ok_def intro!: safe_op_fail)
next
  case (Inr p)
  have "safe_op (st_good n good fresh) (\<lambda>s. case in_try_send Q \<lparr>sri_req = req, sri_stream_id = sid, sri_hop = (leg, hop),
                              sri_format = relay_format (hops (st_circ s) ! unat hop)\<rparr> (ih_sender handler) of
            (r, q) \<Rightarrow>
              (let s = s\<lparr>st_handlers := handlers\<lparr>incoming_stream_req_handler := Some (handler\<lparr>ih_sender := q\<rparr>)\<rparr>\<rparr> in
               (case r of
                  Inr _ \<Rightarrow> Inr None
                | Inl ReqFull \<Rightarrow> Inr (Some (send_end hop sid (End_new_with_reason 11)))
                | Inl ReqDisconnected \<Rightarrow> Inl CircuitClosed
                | Inl ReqOther \<Rightarrow> Inl (ProtoBug ''try_send failed unexpectedly''), s)))"
    by (rule safe_opI) (use assms(2) in \<open>auto simp: Let_def split: prod.splits sum.splits req_send_error.splits\<close>)
  then show ?thesis using Inr
    by (cases p) (auto simp: accept_stream_def intro!: safe_op_bind safe_on_circ safe_on_hop safe_add_ent)
qed

lemma safe_incoming [safe_ops]:
  assumes "incoming_ok Q"
  shows "safe_op (st_good n good fresh) (handle_incoming_stream_request Q m sid hop leg)"
proof (rule safe_opI)
  fix s r s' assume g: "st_good n good fresh s" and h: "handle_incoming_stream_request Q m sid hop leg s = (r, s')"
  have e: "safe_op (st_good n good fresh) (op_bind (on_circ (on_hop hop CircuitClosed (hop_ending_msg_received sid))) (\<lambda>_. op_ret None))"
    by (intro safe_op_bind safe_op_ret safe_on_circ safe_on_hop safe_ending) simp
  note a = safe_opD [OF safe_accept [OF assms, of fresh "st_handlers s"]] and e = safe_opD [OF e]
  note def = handle_incoming_stream_request_def
  show "st_good n good fresh s' \<and> no_panic r"
  proof (cases "incoming_stream_req_handler (st_handlers s)")
    case (Some handler)
    obtain q ch where c: "check_msg m (ih_checker handler) = (q, ch)" by fastforce
    define s1 where "s1 = s\<lparr>st_handlers := (st_handlers s)\<lparr>incoming_stream_req_handler := Some (handler\<lparr>ih_checker := ch\<rparr>)\<rparr>\<rparr>"
    have g1: "st_good n good fresh s1" using g by (simp add: s1_def)
    show ?thesis
    proof (cases "hop = ih_hop_num handler \<and> (\<exists>status. q = Inr status) \<and> hops_get hop (hops (st_circ s)) \<noteq> None")
      case False
      then show ?thesis using g h c check_no_panic [OF c]
        by (cases "hop = ih_hop_num handler"; cases q) (simp_all add: def Some Let_def, auto)
    next
      case True
      then obtain status hp where st: "ih_hop_num handler = hop" "q = Inr status" "hops_get hop (hops (st_circ s)) = Some hp" by blast
      note c = c [unfolded st(2)]
      show ?thesis
      proof (cases "status = StreamClosed")
        case True
        then show ?thesis using h c st e [OF g1, of r s'] by (simp add: def Some Let_def s1_def)
      next
        case False
        show ?thesis
        proof (cases "unparsed_decode (decode_as RelayCmd_BEGIN begin_decode) m")
          case (Inl err)
          then show ?thesis using g h c st False by (simp add: def Some Let_def) (auto)
        next
          case (Inr b)
          obtain d f where d: "in_disposition Q (rmsg b) (hops_n_open_streams (hops (st_circ s))) (ih_filter handler) = (d, f)"
            by fastforce
          have "no_panic d" using assms d unfolding incoming_ok_def by (metis fst_conv)
          define handler2 where "handler2 = handler\<lparr>ih_checker := ch, ih_filter := f\<rparr>"
          define s2 where "s2 = s\<lparr>st_handlers := (st_handlers s)\<lparr>incoming_stream_req_handler := Some handler2\<rparr>\<rparr>"
          have g2: "st_good n good fresh s2" using g by (simp add: s2_def)
          have "(case d of Inl e \<Rightarrow> (Inl e, s2)
               | Inr DispCloseCircuit \<Rightarrow> (Inr (Some CmdCleanShutdown), s2)
               | Inr (DispRejectRequest e) \<Rightarrow> (Inr (Some (send_end hop sid e)), s2)
               | Inr DispAccept \<Rightarrow> accept_stream Q (st_handlers s) handler2 (rmsg b) sid hop leg s2) = (r, s')"
            using h c st False Inr d unfolding s2_def handler2_def by (simp add: def Some Let_def)
          then show ?thesis using a [OF _ g2] g g2 \<open>no_panic d\<close>
            by (cases d) (auto split: incoming_disposition.splits)
        qed
      qed
    qed
  qed (use g h in \<open>auto simp: def\<close>)
qed

lemma handle_conflux_good:
  "safe_op (circ_good n good) (circ_handle_conflux_msg wallclock hop m)"
  by (rule safe_opI) (auto simp: circ_handle_conflux_msg_def circ_good_def split: option.splits prod.splits)

lemma run_meta_good:
  assumes "meta_ok (circ_good n good) fresh M" "st_good n good fresh s" "fresh handler"
    "run_meta_handler M handler hop m s = (r, s')"
  shows "st_good n good fresh s' \<and> no_panic r"
proof -
  obtain q h' c where q: "mh_handle_msg M m (handler, st_circ s) = (q, h', c)" by (metis prod.exhaust)
  have "circ_good n good c \<and> no_panic q \<and> (q = Inr Consumed \<longrightarrow> fresh h')"
    using assms(1-3) q unfolding meta_ok_def by blast
  then show ?thesis
    using assms(2-4) q by (cases q) (auto simp: run_meta_handler_def Let_def split: if_splits meta_cell_disposition.splits)
qed

lemma safe_meta [safe_ops]:
  assumes "meta_ok (circ_good n good) fresh M"
  shows "safe_op (st_good n good fresh) (handle_meta_cell M wallclock hop m)"
proof (rule safe_opI)
  fix s r s' assume g: "st_good n good fresh s" and h: "handle_meta_cell M wallclock hop m s = (r, s')"
  note c = safe_opD [OF safe_on_circ [OF handle_conflux_good] g]
    and d = run_meta_good [OF assms g]
  have "meta_handler (st_handlers s) = Some handler \<Longrightarrow> fresh handler" for handler
    using g by (simp add: handlers_ok_def)
  with g h show "st_good n good fresh s' \<and> no_panic r"
    unfolding handle_meta_cell_def Let_def
    by (auto split: if_splits sum.splits option.splits dest: c d [rotated])
qed

lemma safe_in_order [safe_ops]:
  assumes "incoming_ok Q"
  shows "safe_op (st_good n good fresh) (handle_in_order_relay_msg cs Q hop leg counts sid m)"
proof (rule safe_opI)
  fix s r s' assume g: "st_good n good fresh s" and h: "handle_in_order_relay_msg cs Q hop leg counts sid m s = (r, s')"
  define s1 where "s1 = (if conflux_handler (st_circ s) \<noteq> None
               then s\<lparr>st_delivered := inc_last_seq_delivered m (st_delivered s)\<rparr> else s)"
  have g1: "st_good n good fresh s1" using g by (simp add: s1_def)
  have "safe_op (st_good n good fresh)
     (op_bind (on_circ (on_hop hop (CircProto ''Cell from nonexistent hop!'') (hop_handle_msg cs counts sid m))) (\<lambda>res.
        case res of
          Some m \<Rightarrow> handle_incoming_stream_request Q m sid hop leg
        | None \<Rightarrow>
            op_bind (on_circ (on_hop hop (CircProto ''Cell from nonexistent hop!'') (hop_maybe_send_xoff sid)))
              (\<lambda>xoff. op_ret (send_xoff hop sid xoff))))"
    by (intro safe_op_bind safe_on_circ safe_on_hop safe_handle_msg)
      (auto split: option.split intro!: safe_op_bind safe_op_ret safe_on_circ safe_on_hop
        safe_maybe_xoff safe_incoming [OF assms])
  from safe_opD [OF this g1] h show "st_good n good fresh s' \<and> no_panic r"
    by (simp add: handle_in_order_relay_msg_def Let_def s1_def)
qed

lemma action_no_panic: "action_for_msg d hop counts sid m c = (r, c') \<Longrightarrow> no_panic r"
  by (auto simp: action_for_msg_def is_msg_in_order_def Let_def split: if_splits sum.splits bool.splits)

lemma safe_relay_msg [safe_ops]:
  assumes "meta_ok (circ_good n good) fresh M" "incoming_ok Q"
  shows "safe_op (st_good n good fresh) (handle_relay_msg M cs Q wallclock hop leg counts m)"
proof (rule safe_opI)
  fix s r s' assume g: "st_good n good fresh s" and h: "handle_relay_msg M cs Q wallclock hop leg counts m s = (r, s')"
  note a = safe_opD [OF safe_meta [OF assms(1)] g] and b = safe_opD [OF safe_in_order [OF assms(2)]]
  show "st_good n good fresh s' \<and> no_panic r"
  proof (cases "msg_streamid m")
    case (Inl e)
    then show ?thesis using g h by (auto simp: handle_relay_msg_def msg_streamid_def split: if_splits)
  next
    case (Inr i)
    show ?thesis
    proof (cases i)
      case None
      then show ?thesis using a Inr h by (simp add: handle_relay_msg_def)
    next
      case (Some sid)
      note i = Inr [unfolded Some]
      show ?thesis
      proof (cases "conflux_handler (st_circ s)")
        case None
        then show ?thesis using b [OF g] i h by (simp add: handle_relay_msg_def)
      next
        case (Some x)
        obtain q x' where q: "action_for_msg (st_delivered s) hop counts sid m x = (q, x')" by fastforce
        define s1 where "s1 = s\<lparr>st_circ := (st_circ s)\<lparr>conflux_handler := Some x'\<rparr>\<rparr>"
        have g1: "st_good n good fresh s1" using g by (simp add: s1_def circ_good_def)
        have "(case q of Inl e \<Rightarrow> (Inl e, s1)
              | Inr (ConfluxDeliver m) \<Rightarrow> handle_in_order_relay_msg cs Q hop leg counts sid m s1
              | Inr (ConfluxEnqueue entry) \<Rightarrow> (Inr (Some (CmdEnqueue entry)), s1)) = (r, s')"
          using h i q Some unfolding s1_def by (simp add: handle_relay_msg_def Let_def)
        then show ?thesis using b [OF g1] g1 action_no_panic [OF q]
          by (cases q) (auto split: conflux_action.splits)
      qed
    qed
  qed
qed

lemma safe_relay_msgs [safe_ops]:
  assumes "meta_ok (circ_good n good) fresh M" "incoming_ok Q"
  shows "safe_op (st_good n good fresh) (handle_relay_msgs M cs Q wallclock hop leg counts ms cmds)"
proof (induction ms arbitrary: cmds)
  case (Cons m ms)
  then show ?case
    by (auto intro!: safe_op_bind safe_relay_msg [OF assms] safe_op_ret split: option.split circuit_cmd.split)
qed (simp add: safe_op_ret)

lemma handle_cell_good:
  assumes "layers_total L good" "meta_ok (circ_good n good) fresh M" "incoming_ok Q" "st_good n good fresh s"
    "\<forall>b. cell = CircRelay b \<longrightarrow> length b = 509" "handle_cell L M cs Q wallclock leg cell s = (r, s')"
  shows "st_good n good fresh s' \<and> no_panic r"
proof (cases cell)
  case (CircRelay body)
  obtain q c where q: "decode_relay_cell L body (st_circ s) = (q, c)" by fastforce
  have d: "circ_good n good c \<and> no_panic q \<and> (\<forall>h t d. q = Inr (h, t, d) \<longrightarrow> unat h < length (hops c) \<and> rc_incomplete d = None)"
    by (rule decode_relay_cell_good [OF assms(1) _ _ q]) (use assms(4,5) CircRelay in simp_all)
  note h = assms(6) [unfolded handle_cell_def CircRelay client_circ_chan_msg.case handle_relay_cell_def]
  show ?thesis
  proof (cases q)
    case (Inl e)
    then show ?thesis using h q d assms(4) by (auto simp: op_bind_def op_field_def)
  next
    case (Inr x)
    obtain hop tag res where x: "x = (hop, tag, res)" by (metis prod.exhaust)
    let ?ctw = "list_ex cmd_counts_towards_windows (decoder_cmds res)"
    obtain a c2 where a: "account_relay_cell hop tag ?ctw c = (a, c2)" by fastforce
    have c2: "circ_good n good c2 \<and> no_panic a"
      by (rule account_good [OF _ _ a]) (use d Inr x in auto)
    have g2: "st_good n good fresh (s\<lparr>st_circ := c2\<rparr>)" using c2 assms(4) by simp
    note m = safe_opD [OF safe_relay_msgs [OF assms(2,3)] g2]
    have "op_bind (on_circ (account_relay_cell hop tag ?ctw)) (\<lambda>circ_cmds.
        handle_relay_msgs M cs Q wallclock hop leg ?ctw (rc_msgs res) circ_cmds) (s\<lparr>st_circ := c\<rparr>) = (r, s')"
      using h q Inr x by (simp add: op_bind_def op_field_def Let_def)
    then have e: "(case a of Inl e \<Rightarrow> (Inl e, s\<lparr>st_circ := c2\<rparr>)
        | Inr cmds \<Rightarrow> handle_relay_msgs M cs Q wallclock hop leg ?ctw (rc_msgs res) cmds (s\<lparr>st_circ := c2\<rparr>)) = (r, s')"
      using a by (cases a) (auto simp: op_bind_def op_field_def)
    show ?thesis
    proof (cases a)
      case (Inl x)
      then show ?thesis using e c2 assms(4) by auto
    next
      case (Inr cmds)
      then show ?thesis using e by (intro m) simp
    qed
  qed
next
  case (CircDestroy x)
  then show ?thesis using assms(4,6) by (auto simp: handle_cell_def op_ret_def)
qed

section \<open>The layers of a client\<close>

definition boxed_ops where
  "boxed_ops K = \<lparr>lo_originate_for = originate_for K, lo_encrypt_outbound = encrypt_outbound K,
                  lo_decrypt_inbound = decrypt_inbound K\<rparr>"

fun layer_sane :: "('sc, 'd, 'eb, 'pb, 'pv) layer \<Rightarrow> bool" where
  "layer_sane (CgoLayer st) \<longleftrightarrow> length (nonce st) = 16"
| "layer_sane _ \<longleftrightarrow> True"

fun box_sane :: "('sc, 'd, 'eb, 'pb, 'pv) inbound_layer \<Rightarrow> bool" where
  "box_sane (ClientInbound l) \<longleftrightarrow> layer_sane l"
| "box_sane (ResponderInbound l) \<longleftrightarrow> layer_sane l"

definition decrypts where
  "decrypts dec sane l cell \<longleftrightarrow> (\<exists>t cell' l'. dec (cell, l) = (Inr t, cell', l') \<and> length cell' = 509 \<and> sane l')"

lemma tor1_decrypts:
  assumes "tor1_laws L" "length cell = 509"
  shows "decrypts (tor1_decrypt_outbound L cmd) (\<lambda>_. True) st cell"
proof -
  define k where "k = apply_keystream L (cipher st) cell"
  obtain b st' where "is_recognized L (fst k, st\<lparr>cipher := snd k\<rparr>) = (Inr b, fst k, st')"
    using is_recognized_outcome [OF assms(1)] by blast
  then show ?thesis using tor1_lawsD(1) [OF assms(1), of "cipher st" cell] assms(2)
    by (auto simp: decrypts_def tor1_decrypt_outbound_def tor1_keystream_def op_bind_def k_def split: prod.splits)
qed

lemma cgo_decrypts:
  assumes "cgo_laws L" "length cell = 509" "length (nonce st) = 16"
  shows "decrypts (cgo_decrypt_outbound L cmd) (\<lambda>st. length (nonce st) = 16) st cell"
    "decrypts (cgo_decrypt_inbound L cmd) (\<lambda>st. length (nonce st) = 16) st cell"
proof -
  obtain n1 u1 where 1: "length n1 = 16"
      "\<forall>c s. uiv_key s = uiv_key st \<longrightarrow> update_key L (nonce st) (c, s) = (Inr n1, c, s\<lparr>uiv_key := u1\<rparr>)"
    using update_key_ok [OF assms(1,3), of "uiv_key st"] by blast
  obtain n2 u2 where 2: "length n2 = 16"
      "\<forall>c s. uiv_key s = uiv_key st \<longrightarrow> update_key L (first_block cell) (c, s) = (Inr n2, c, s\<lparr>uiv_key := u2\<rparr>)"
    using update_key_ok [OF assms(1), of "first_block cell" "uiv_key st"] assms(2) by (auto simp: first_block_def)
  show "decrypts (cgo_decrypt_outbound L cmd) (\<lambda>st. length (nonce st) = 16) st cell"
    using 1 uiv_inverse(1) [OF assms(1,2)] assms(3)
    by (auto simp: decrypts_def cgo_decrypt_outbound_def block_tag [OF assms(2)] op_bind_def Let_def)
  show "decrypts (cgo_decrypt_inbound L cmd) (\<lambda>st. length (nonce st) = 16) st cell"
    using 2 uiv_inverse(3) [OF assms(1,2)] assms(3)
    by (auto simp: decrypts_def cgo_decrypt_inbound_def op_bind_def Let_def)
qed

lemma decrypts_lift:
  assumes "decrypts dec sane st cell" "\<And>s. dec2 (cell, C s) = lift_layer C dec cell s" "\<And>s. sane s \<Longrightarrow> sane2 (C s)"
  shows "decrypts dec2 sane2 (C st) cell"
  using assms by (auto simp: decrypts_def lift_layer_def)

lemma layer_decrypts:
  assumes "lib_laws K" "layer_sane l" "length cell = 509"
  shows "decrypts (relay_decrypt_outbound K cmd) layer_sane l cell" "decrypts (client_decrypt_inbound K cmd) layer_sane l cell"
proof -
  note laws = assms(1) [unfolded lib_laws_def]
  note t = tor1_decrypts [OF _ assms(3)] and c = cgo_decrypts [OF _ assms(3)]
  have "decrypts (relay_decrypt_outbound K cmd) layer_sane l cell \<and> decrypts (client_decrypt_inbound K cmd) layer_sane l cell"
  proof (cases l)
    case (Tor1Layer x)
    with laws show ?thesis by (auto intro!: decrypts_lift [where C = Tor1Layer, OF t, of "lib_tor1 K"]
          simp: relay_decrypt_outbound_def client_decrypt_inbound_def tor1_inbound_same)
  next
    case (HsV3Layer x)
    with laws show ?thesis by (auto intro!: decrypts_lift [where C = HsV3Layer, OF t, of "lib_hsv3 K"]
          simp: relay_decrypt_outbound_def client_decrypt_inbound_def tor1_inbound_same)
  next
    case (CgoLayer x)
    with assms(2) have n: "length (nonce x) = 16" by simp
    have "decrypts (relay_decrypt_outbound K cmd) layer_sane (CgoLayer x) cell"
      using laws by (intro decrypts_lift [where C = CgoLayer, OF c(1) [of "lib_cgo K", OF _ n, of cmd]]) (simp_all add: relay_decrypt_outbound_def)
    moreover have "decrypts (client_decrypt_inbound K cmd) layer_sane (CgoLayer x) cell"
      using laws by (intro decrypts_lift [where C = CgoLayer, OF c(2) [of "lib_cgo K", OF _ n, of cmd]]) (simp_all add: client_decrypt_inbound_def)
    ultimately show ?thesis using CgoLayer by simp
  qed
  then show "decrypts (relay_decrypt_outbound K cmd) layer_sane l cell" "decrypts (client_decrypt_inbound K cmd) layer_sane l cell"
    by simp_all
qed

lemma boxed_total:
  fixes K :: "('sc, 'd, 'eb, 'pb, 'pv, 'st) crypto_lib"
  assumes "lib_laws K"
  shows "layers_total (boxed_ops K) box_sane"
  unfolding layers_total_def decrypts_def [symmetric]
proof (intro allI impI)
  fix cmd cell and l :: "('sc, 'd, 'eb, 'pb, 'pv) inbound_layer"
  assume l: "length (cell :: bytes) = 509" "box_sane l"
  have "decrypts (decrypt_inbound K cmd) box_sane l cell"
  proof (cases l)
    case (ClientInbound x)
    then show ?thesis using l layer_decrypts(2) [OF assms, of x cell cmd]
      by (auto intro!: decrypts_lift [where C = ClientInbound] simp: decrypt_inbound_def)
  next
    case (ResponderInbound x)
    then show ?thesis using l layer_decrypts(1) [OF assms, of x cell cmd]
      by (auto intro!: decrypts_lift [where C = ResponderInbound] simp: decrypt_inbound_def)
  qed
  then show "decrypts (lo_decrypt_inbound (boxed_ops K) cmd) box_sane l cell" by (simp add: boxed_ops_def)
qed

lemma construct_sane:
  assumes "construct_client_layers K p role expand = Inr b"
  shows "box_sane (bl_back b)"
  using assms
  by (cases role) (auto dest: cgo_initialize_nonce simp: construct_client_layers_def construct_def crypt_construct_def res_bind_Inr_iff
      tor1_split_client_layer_def tor1_split_relay_layer_def cgo_split_client_layer_def cgo_split_relay_layer_def
      split: relay_crypt_layer_protocol.splits relay_cell_format.splits)

lemma no_panic_res_bind:
  assumes "no_panic r" "\<And>x. r = Inr x \<Longrightarrow> no_panic (f x)"
  shows "no_panic (res_bind r f)"
  using assms by (cases r) (auto simp: res_bind_def)

lemma cgo_state_initialize_no_panic: "no_panic (cgo_state_initialize L seed)"
  by (auto intro!: no_panic_res_bind simp: cgo_state_initialize_def cgo_state_seed_len_def uiv_initialize_def split_seed_def
      et_initialize_def prf_initialize_def Let_def)

lemma cgo_initialize_no_panic: "no_panic (cgo_initialize L seed)"
  by (auto intro!: no_panic_res_bind cgo_state_initialize_no_panic
      simp: cgo_initialize_def cgo_seed_len_def circuit_binding_try_from_def Let_def)

lemma construct_no_panic:
  assumes "\<forall>n. no_panic (expand n)"
  shows "no_panic (construct_client_layers K p role expand)"
proof -
  have "no_panic (construct n init scl srl C expand role)" if "\<And>s. no_panic (init s)" for n init scl srl C
    using assms that
    by (auto intro!: no_panic_res_bind simp: construct_def crypt_construct_def split: handshake_role.splits prod.splits)
  note c = this
  show ?thesis
    by (auto intro!: c cgo_initialize_no_panic simp: construct_client_layers_def tor1_initialize_outcome
        split: relay_crypt_layer_protocol.splits relay_cell_format.splits)
qed

section \<open>The extender\<close>

text \<open>A handshake whose steps and whose key generator do not panic.\<close>

definition handshake_ok :: "('key, 'aux, 'hst, 'saux) client_handshake \<Rightarrow> bool" where
  "handshake_ok H \<longleftrightarrow>
     (\<forall>st b. no_panic (ch_client2 H st b)) \<and>
     (\<forall>st b d expand. ch_client2 H st b = Inr (d, expand) \<longrightarrow>
        (\<forall>n. no_panic (expand n))) \<and>
     (\<forall>d s. no_panic (fst (ch_handle_server_aux_data H d s)))"

lemma finish_handshake_good:
  assumes "handshake_ok H" "circ_good n box_sane c" "first \<noteq> 0"
    "finish_handshake H K peer st hs settings first c = (r, settings', c')"
  shows "circ_good n box_sane c' \<and> no_panic r"
proof (cases "ch_client2 H st hs")
  case (Inl e)
  then have "no_panic (Inl e :: proto_error + unit)" using assms(1) unfolding handshake_ok_def by (metis no_panic_cases)
  then show ?thesis using Inl assms(2,4) by (auto simp: finish_handshake_def)
next
  case (Inr x)
  obtain d expand where x: "x = (d, expand)" by fastforce
  obtain q settings2 where q: "ch_handle_server_aux_data H d settings = (q, settings2)" by fastforce
  have nq: "no_panic q" using assms(1) q unfolding handshake_ok_def by (metis fst_conv)
  show ?thesis
  proof (cases q)
    case (Inl e)
    then show ?thesis using nq Inr x q assms(2,4) by (auto simp: finish_handshake_def)
  next
    case (Inr u)
    have np: "no_panic (construct_client_layers K (hs_protocol settings2) Initiator expand)"
      by (rule construct_no_panic) (use assms(1) \<open>ch_client2 H st hs = Inr x\<close> x in \<open>auto simp: handshake_ok_def\<close>)
    note e = assms(4) [unfolded finish_handshake_def, simplified \<open>ch_client2 H st hs = Inr x\<close> x q Inr sum.case prod.case]
    show ?thesis
    proof (cases "construct_client_layers K (hs_protocol settings2) Initiator expand")
      case (Inl e')
      then show ?thesis using e np assms(2) by auto
    next
      case (Inr l)
      obtain r2 c2 where a: "add_hop peer (bl_fwd l) (bl_back l) (bl_binding l) settings2 first c = (r2, c2)" by fastforce
      from add_hop_good [OF assms(2) construct_sane [OF Inr] assms(3) a] show ?thesis using e Inr a by simp
    qed
  qed
qed

definition extender_fresh :: "('hst, 'p) circuit_extender \<Rightarrow> bool" where
  "extender_fresh ext \<longleftrightarrow> ex_state ext \<noteq> None \<and> ex_first ext \<noteq> 0"

lemma extender_ok:
  fixes H :: "('key, 'aux, 'hst, 'saux) client_handshake" and K :: "('sc, 'd, 'eb, 'pb, 'pv, 'st) crypto_lib"
  assumes "handshake_ok H"
  shows "meta_ok (circ_good n box_sane :: ('c, 'v, 'r, ('sc, 'd, 'eb, 'pb, 'pv) outbound_layer, _, 's, 'p) circuit \<Rightarrow> bool)
    extender_fresh (extender_ops H K)"
  unfolding meta_ok_def
proof (intro allI impI)
  fix m r and ext ext' :: "('hst, 'p) circuit_extender"
    and c c' :: "('c, 'v, 'r, ('sc, 'd, 'eb, 'pb, 'pv) outbound_layer, ('sc, 'd, 'eb, 'pb, 'pv) inbound_layer, 's, 'p) circuit"
  assume f: "extender_fresh ext" and g: "circ_good n box_sane c"
    and h: "mh_handle_msg (extender_ops H K) m (ext, c) = (r, ext', c')"
  obtain st where st: "ex_state ext = Some st" "ex_first ext \<noteq> 0" using f by (auto simp: extender_fresh_def)
  obtain q ext2 c2 where q: "extend_circuit H K m (ext, c) = (q, ext2, c2)" by (metis prod.exhaust)
  have "circ_good n box_sane c2 \<and> no_panic q \<and> q \<noteq> Inr Consumed"
  proof (cases "unparsed_decode (decode_as RelayCmd_EXTENDED2 extended2_decode) m")
    case (Inl e)
    then show ?thesis using q g by (auto simp: extend_circuit_def)
  next
    case (Inr x)
    obtain r3 s3 c3 where f3: "finish_handshake H K (ex_peer_id ext) st (rmsg x) (ex_settings ext) (ex_first ext) c = (r3, s3, c3)"
      by (metis prod.exhaust)
    from finish_handshake_good [OF assms g st(2) f3] show ?thesis
      using q Inr st(1) f3 by (cases r3) (auto simp: extend_circuit_def)
  qed
  then show "circ_good n box_sane c' \<and> no_panic r \<and> (r = Inr Consumed \<longrightarrow> extender_fresh ext')"
    using h q by (auto simp: extender_ops_def extender_handle_msg_def split: if_splits)
qed

end
