(* ===== verification/Circuit_Onion.thy ===== *)
theory Circuit_Onion
  imports Circuit_Safe
begin

text \<open>
  A relay message from one end of a circuit to the other: encoded, encrypted once per hop,
  decrypted by one hop after the other until one recognizes it, and decoded. The two ends of each
  layer are built from one handshake by \<open>construct_client_layers\<close>. The theory also has a small
  cryptographic library, on which properties with laws of such a library are evaluated.
\<close>

section \<open>Formats of layers\<close>






section \<open>From end to end\<close>











section \<open>A library to evaluate\<close>

text \<open>A cipher that adds a key byte, and a digest that is the sum of its input.\<close>

definition xor_byte :: "u8 \<Rightarrow> bytes \<Rightarrow> bytes" where
  "xor_byte k bs = map (\<lambda>b. b XOR k) bs"




lemma xor_byte_twice [simp]: "xor_byte k (xor_byte k bs) = bs"
  by (simp add: xor_byte_def comp_def ac_simps)

lemma length_xor_byte [simp]: "length (xor_byte k bs) = length bs"
  by (simp add: xor_byte_def)









end
