(* ===== verification/Circuit_Signals.thy ===== *)
theory Circuit_Signals
  imports Circuit
begin

text \<open>
  The congestion signals that a circuit reads from its channel, and what they do to the
  congestion window: \<open>Circuit::congestion_signals\<close> together with \<open>Vegas::sendme_received\<close>.
\<close>

lemma cwnd_frame [simp]:
  "cw_value (eval_fullness i g p c) = cw_value c" "cw_params (eval_fullness i g p c) = cw_params c"
  "cw_value (reset_full c) = cw_value c" "cw_params (reset_full c) = cw_params c"
  by (simp_all add: eval_fullness_def reset_full_def)

lemma note_sendme_cwnd:
  assumes "vegas_note_sendme rtt signals v = Inr v'"
  shows "v_cwnd v' = v_cwnd v" "v_params v' = v_params v" "is_blocked_on_chan v' = channel_blocked signals"
  using assms by (auto simp: vegas_note_sendme_def res_bind_Inr_iff Let_def split: if_splits)

lemma reset_counters_value: "vegas_reset_counters st v = Inr v' \<Longrightarrow> cw_value (v_cwnd v') = cw_value (v_cwnd v)"
  unfolding vegas_reset_counters_def res_bind_Inr_iff
  by (elim exE conjE) (auto simp: res_bind_Inr_iff split: if_splits)

lemma steady_not_above:
  assumes "is_blocked_on_chan v" "cwnd_min_value (v_cwnd v) \<le> cw_value (v_cwnd v)"
    "cwnd_increment (v_cwnd v) \<le> vq_delta (cell_in_queue_params (v_params v))"
    "queue_use = saturating_sub_w (cw_value (v_cwnd v)) (v_bdp v)"
  shows "cw_value (v_cwnd (vegas_steady queue_use v)) \<le> cw_value (v_cwnd v)"
proof -
  define w b d i where "w = cw_value (v_cwnd v)" and "b = v_bdp v"
    and "d = vq_delta (cell_in_queue_params (v_params v))" and "i = cwnd_increment (v_cwnd v)"
  have "b + d - i \<le> w" if "queue_use > d"
  proof -
    have b: "b \<le> w" "d < w - b" using that assms(4) by (auto simp: saturating_sub_w_def w_def b_def split: if_splits)
    have bd: "unat b + unat d < unat w"
      using b unat_sub [OF b(1)] by (simp add: word_less_nat_alt word_le_nat_alt)
    then have "unat b + unat d < 2 ^ LENGTH(32)" using unsigned_less [of w, where 'a = nat] by linarith
    then have u: "unat (b + d) = unat b + unat d" by (rule unat_add_lem [THEN iffD1])
    then have "i \<le> b + d" using assms(3) by (simp add: i_def d_def word_le_nat_alt)
    then have "unat (b + d - i) = unat b + unat d - unat i" using unat_sub [of i "b + d"] u by simp
    then show ?thesis using bd by (simp add: word_le_nat_alt)
  qed
  then have "bd \<le> w" if "queue_use > d" "bd = b + d - i" for bd using that by blast
  then show ?thesis
    using assms(1,2) unfolding w_def b_def d_def i_def
    by (auto simp: vegas_steady_def cwnd_set_def cwnd_dec_def cwnd_min_value_def saturating_sub_w_def word_sub_le Let_def)
qed

lemma blocked_slow_start: "is_blocked_on_chan v \<Longrightarrow> vegas_slow_start queue_use v = Inr (st, v') \<Longrightarrow> st = Steady"
  by (auto simp: vegas_slow_start_def Let_def split: if_splits)

lemma signals_blocked_steady:
  assumes "channel_blocked signals" "vegas_sendme_received rtt signals Steady v = Inr (st, v')"
    "cwnd_min_value (v_cwnd v) \<le> cw_value (v_cwnd v)"
    "cwnd_increment (v_cwnd v) \<le> vq_delta (cell_in_queue_params (v_params v))"
  shows "cw_value (v_cwnd v') \<le> cw_value (v_cwnd v)"
proof -
  obtain v1 where v1: "vegas_note_sendme rtt signals v = Inr v1"
    using assms(2) by (auto simp: vegas_sendme_received_def res_bind_Inr_iff)
  note n = note_sendme_cwnd [OF v1]
  define v2 where "v2 = v1\<lparr>v_cwnd := eval_fullness (num_inflight v1) (cwnd_full_gap (v_params v1)) (cwnd_full_min_pct (v_params v1)) (v_cwnd v1)\<rparr>"
  define q where "q = saturating_sub_w (cw_value (v_cwnd v1)) (v_bdp v1)"
  obtain v3 where v3: "vegas_reset_counters Steady (vegas_steady q v2) = Inr v3" "v' = vegas_ack v3"
    using assms(1,2) v1 n(3) by (auto simp: vegas_sendme_received_def in_slow_start_def res_bind_Inr_iff Let_def v2_def q_def)
  have "cw_value (v_cwnd (vegas_steady q v2)) \<le> cw_value (v_cwnd v2)"
    by (rule steady_not_above)
      (use assms(1,3,4) n in \<open>simp_all add: v2_def q_def cwnd_min_value_def cwnd_increment_def\<close>)
  then show ?thesis using reset_counters_value [OF v3(1)] v3(2) n(1) by (simp add: vegas_ack_def v2_def)
qed

lemma signals_blocked_slow_start:
  assumes "channel_blocked signals" "vegas_sendme_received rtt signals SlowStart v = Inr (st, v')"
  shows "st = Steady"
proof -
  have "\<exists>x y z v2. vegas_note_sendme rtt signals v = Inr x \<and> vegas_slow_start y (x\<lparr>v_cwnd := z\<rparr>) = Inr (st, v2)"
    using assms note_sendme_cwnd(3) [of rtt signals v]
    by (fastforce simp: vegas_sendme_received_def in_slow_start_def res_bind_Inr_iff Let_def)
  then obtain x y z v2 where x: "vegas_note_sendme rtt signals v = Inr x" "vegas_slow_start y (x\<lparr>v_cwnd := z\<rparr>) = Inr (st, v2)" by blast
  then show ?thesis using blocked_slow_start [OF _ x(2)] note_sendme_cwnd(3) [OF x(1)] assms(1) by simp
qed

text \<open>
  C33: the congestion signal is inverted. \<open>congestion_signals\<close> passes the result of
  \<open>poll_ready_unpin_bool\<close>, which is true when the channel is ready, as \<open>channel_blocked\<close>. So while the
  channel accepts cells, every SENDME counts as one on a blocked channel: slow start ends with the
  first SENDME, and in the steady state the window never grows (for parameters with an increment
  of at most \<open>delta\<close> and a window not below its minimum). When the channel is in fact blocked, the
  signal says that it is not.
\<close>

theorem congestion_signal_inverted:
  fixes c :: "('c, 'v, 'r, 'ol, 'il, 's, 'p) circuit"
  assumes "circ_congestion_signals I c = (signals, c')" "sus_poll_ready I (chan_sender c) = (Inr p, s')"
  shows "(p = Ready () \<longrightarrow> channel_blocked signals \<and>
      (\<forall>rtt v st v'. vegas_sendme_received rtt signals SlowStart v = Inr (st, v') \<longrightarrow> st = Steady) \<and>
      (\<forall>rtt v st v'. vegas_sendme_received rtt signals Steady v = Inr (st, v') \<longrightarrow>
         cwnd_min_value (v_cwnd v) \<le> cw_value (v_cwnd v) \<longrightarrow>
         cwnd_increment (v_cwnd v) \<le> vq_delta (cell_in_queue_params (v_params v)) \<longrightarrow>
         cw_value (v_cwnd v') \<le> cw_value (v_cwnd v))) \<and>
    (p = Pending \<longrightarrow> \<not> channel_blocked signals)"
proof -
  have "signals = signals_new (case p of Ready _ \<Rightarrow> True | Pending \<Rightarrow> False) (n_queued s')"
    using assms by (auto simp: circ_congestion_signals_def)
  then have "p = Ready () \<longrightarrow> channel_blocked signals" "p = Pending \<longrightarrow> \<not> channel_blocked signals"
    by (simp_all add: signals_new_def)
  then show ?thesis using signals_blocked_slow_start signals_blocked_steady by blast
qed

text \<open>A channel that is always ready, and the window of a new circuit.\<close>

definition ready_sink :: "(any_chan_msg chan_cell, unit) sink_ops" where
  "ready_sink = \<lparr>sk_poll_ready = op_ret (Ready ()), sk_start_send = (\<lambda>_. op_ret ()), sk_poll_flush = op_ret (Ready ()),
     sk_poll_close = op_ret (Ready ())\<rparr>"

theorem congestion_signal_inverted_witness:
  "channel_blocked (fst (circ_congestion_signals ready_sink (circuit_new () 1 0 :: (unit, unit, unit, unit, unit, unit, unit) circuit)))"
proof -
  let ?c = "circuit_new () 1 0 :: (unit, unit, unit, unit, unit, unit, unit) circuit"
  have "sus_poll_ready ready_sink (chan_sender ?c) = (Inr (Ready ()), chan_sender ?c)"
    by (simp add: sus_poll_ready_def flush_then_def flush_buf_def circuit_new_def sus_new_def ready_sink_def op_bind_def op_ret_def op_field_def)
  from congestion_signal_inverted [OF _ this] show ?thesis by (metis prod.collapse)
qed

end
