(* ===== verification/Circuit_Run.thy ===== *)
theory Circuit_Run
  imports Circuit_Onion Circuit_Signals
begin

text \<open>
  The life of a circuit: everything a client does with it, and every cell that can arrive, as a
  step relation on the circuit and the handlers of its reactor. The invariant of \<open>Circuit_Safe\<close>
  holds in every state reached.
\<close>

section \<open>Operations that keep a property\<close>

definition keeps :: "('s \<Rightarrow> bool) \<Rightarrow> ('s, 'a) op \<Rightarrow> bool" where
  "keeps P m \<longleftrightarrow> (\<forall>s. P s \<longrightarrow> P (snd (m s)))"

named_theorems keeps_rules

lemma keepsD: "keeps P m \<Longrightarrow> P s \<Longrightarrow> m s = (r, s') \<Longrightarrow> P s'"
  unfolding keeps_def by (metis snd_conv)

lemma keepsI: "(\<And>s r s'. P s \<Longrightarrow> m s = (r, s') \<Longrightarrow> P s') \<Longrightarrow> keeps P m"
  unfolding keeps_def by (metis prod.collapse)


lemma keeps_bind [keeps_rules]: "keeps P m \<Longrightarrow> (\<And>x. keeps P (f x)) \<Longrightarrow> keeps P (op_bind m f)"
  unfolding keeps_def op_bind_def by (auto split: prod.splits sum.splits)

lemma keeps_if [keeps_rules]: "keeps P m \<Longrightarrow> keeps P m' \<Longrightarrow> keeps P (if b then m else m')"
  by simp

lemma keeps_field:
  assumes "keeps Q m" "\<And>s. P s \<Longrightarrow> Q (get s)" "\<And>s x. P s \<Longrightarrow> Q x \<Longrightarrow> P (put x s)"
  shows "keeps P (op_field get put m)"
proof (rule keepsI)
  fix s r s' assume s: "P s" "op_field get put m s = (r, s')"
  obtain q x where q: "m (get s) = (q, x)" by fastforce
  then show "P s'" using keepsD [OF assms(1) assms(2) [OF s(1)] q] assms(3) [OF s(1)] s(2) by (auto simp: op_field_def)
qed


section \<open>Hops\<close>


text \<open>A last step that changes nothing.\<close>

lemma keeps_id: "(\<And>s. snd (m s) = s) \<Longrightarrow> keeps P m"
  by (simp add: keeps_def)






lemma keeps_data_sent [keeps_rules]: "keeps (\<lambda>c. recv_ok (cc_alg c)) (note_data_sent now tag)"
proof -
  have "keeps recv_ok alg_data_sent"
    by (rule keepsI) (auto simp: alg_data_sent_def recv_ok_def fixed_data_sent_def op_field_def split: cc_algorithm.splits prod.splits)
  then show ?thesis
    unfolding note_data_sent_def
    by - (rule keeps_bind, erule keeps_field, simp_all, rule keepsI, auto simp: Let_def split: sum.splits if_splits)
qed


section \<open>Circuits\<close>







text \<open>A message that takes no capacity of a stream: one of the circuit itself, or one outside the windows.\<close>

definition control_msg :: "send_relay_cell \<Rightarrow> bool" where
  "control_msg m \<longleftrightarrow> streamid (src_cell m) = None \<or> \<not> cmd_counts_towards_windows (any_relay_cmd (rmsg (src_cell m)))"





text \<open>
  One round of the reactor for the streams of a hop: the future of \<open>ready_streams_iterator\<close>,
  then the command (\<open>run_once_cmd\<close>).
\<close>

definition circ_serve where
  "circ_serve n L I now fill hop =
     op_bind (on_hop hop NoSuchHop (on_map (hop_poll_ready n hop))) (\<lambda>cmd.
       case cmd of
         Ready (CmdSend m) \<Rightarrow> circ_send_relay_cell L I now fill m
       | Ready (CmdCloseStream h i behav why) \<Rightarrow> circ_close_stream L I now fill h i behav why
       | _ \<Rightarrow> op_ret ())"









section \<open>The life of a circuit\<close>

text \<open>
  The states a circuit and its handlers can reach: it is created, gets hops by the two kinds of
  handshake, may join a conflux set and accept incoming streams; streams begin, become ready, are
  served and are closed; control messages and XON are sent, circuit SENDMEs are handled; and cells
  arrive. A step that ends in an error is included where the code leaves the circuit in place;
  after a cell that ends in an error the circuit is shut down.
\<close>

inductive circ_life for H0 :: "('key0, 'aux0, 'hst0, 'saux0) client_handshake" and H :: "('key, 'aux, 'hst, 'saux) client_handshake"
    and K :: "('sc, 'd, 'eb, 'pb, 'pv, 'st) crypto_lib" and I :: "(any_chan_msg chan_cell, 's) sink_ops"
    and cs :: "'c chan_send" and Q :: "('f, 'q, 'c, 'v, 'r) incoming_ops" and n :: "'r rx_next" where
  start: "circ_life H0 H K I cs Q n
    \<lparr>st_circ = circuit_new sender cid uid, st_handlers = \<lparr>meta_handler = None, incoming_stream_req_handler = None\<rparr>, st_delivered = 0\<rparr>"
| created: "\<lbrakk>circ_life H0 H K I cs Q n s; first \<noteq> 0;
    create_finish H0 K wrap peer settings first state reply (st_circ s) = (res, c)\<rbrakk> \<Longrightarrow> circ_life H0 H K I cs Q n (s\<lparr>st_circ := c\<rparr>)"
| linked: "circ_life H0 H K I cs Q n s \<Longrightarrow>
    circ_life H0 H K I cs Q n (s\<lparr>st_circ := add_to_conflux_tunnel handler (st_circ s), st_delivered := d\<rparr>)"
| awaits: "circ_life H0 H K I cs Q n s \<Longrightarrow>
    circ_life H0 H K I cs Q n (s\<lparr>st_handlers := (st_handlers s)\<lparr>incoming_stream_req_handler := ih\<rparr>\<rparr>)"
| extends: "\<lbrakk>circ_life H0 H K I cs Q n s; meta_handler (st_handlers s) = None; first \<noteq> 0;
    extender_begin H peer hid key specs settings aux first (st_circ s) = Inr (ext, cell)\<rbrakk> \<Longrightarrow>
    circ_life H0 H K I cs Q n (s\<lparr>st_handlers := (st_handlers s)\<lparr>meta_handler := Some ext\<rparr>\<rparr>)"
| begun: "\<lbrakk>circ_life H0 H K I cs Q n s;
    circ_begin_stream hop message snk rcv rate drains checker (st_circ s) = (res1, c)\<rbrakk> \<Longrightarrow> circ_life H0 H K I cs Q n (s\<lparr>st_circ := c\<rparr>)"
| woken: "\<lbrakk>circ_life H0 H K I cs Q n s; on_hop hop NoSuchHop (\<lambda>h. (Inr (), h\<lparr>hop_map := (hop_map h)\<lparr>open_streams :=
      ps_wake i (open_streams (hop_map h))\<rparr>\<rparr>)) (st_circ s) = (res, c)\<rbrakk> \<Longrightarrow> circ_life H0 H K I cs Q n (s\<lparr>st_circ := c\<rparr>)"
| served: "\<lbrakk>circ_life H0 H K I cs Q n s; circ_serve n (boxed_ops K) I now fill hop (st_circ s) = (res, c)\<rbrakk> \<Longrightarrow>
    circ_life H0 H K I cs Q n (s\<lparr>st_circ := c\<rparr>)"
| control: "\<lbrakk>circ_life H0 H K I cs Q n s; control_msg m; circ_send_relay_cell (boxed_ops K) I now fill m (st_circ s) = (res, c)\<rbrakk> \<Longrightarrow>
    circ_life H0 H K I cs Q n (s\<lparr>st_circ := c\<rparr>)"
| closed: "\<lbrakk>circ_life H0 H K I cs Q n s; circ_close_stream (boxed_ops K) I now fill hop i behav why (st_circ s) = (res, c)\<rbrakk> \<Longrightarrow>
    circ_life H0 H K I cs Q n (s\<lparr>st_circ := c\<rparr>)"
| xon: "\<lbrakk>circ_life H0 H K I cs Q n s; on_hop hop NoSuchHop (hop_maybe_send_xon kbps i) (st_circ s) = (res2, c)\<rbrakk> \<Longrightarrow>
    circ_life H0 H K I cs Q n (s\<lparr>st_circ := c\<rparr>)"
| sendme: "\<lbrakk>circ_life H0 H K I cs Q n s; circ_handle_sendme now hop tag signals (st_circ s) = (res3, c)\<rbrakk> \<Longrightarrow>
    circ_life H0 H K I cs Q n (s\<lparr>st_circ := c\<rparr>)"
| cell: "\<lbrakk>circ_life H0 H K I cs Q n s; length body = 509;
    handle_cell (boxed_ops K) (extender_ops H K) cs Q wallclock leg (CircRelay body) s = (Inr cmds, s')\<rbrakk> \<Longrightarrow>
    circ_life H0 H K I cs Q n s'"













end
