(* ===== verification/Circuit_Negotiate.thy ===== *)
theory Circuit_Negotiate
  imports Circuit_Extend
begin

text \<open>
  What the two ends of a hop agree on: the settings a client proposes from the consensus and the
  relay's capabilities, the extensions it sends for them, and what the relay's answer may change.
\<close>

section \<open>The relay's answer\<close>

abbreviation hs_sendme_inc :: "hop_settings \<Rightarrow> u32" where
  "hs_sendme_inc s \<equiv> sendme_inc_param (ccp_cwnd (hs_ccontrol s))"

lemma unat_ucast_u8: "unat (ucast (b :: u8) :: u32) = unat b" "unat b < 256"
proof -
  show "unat b < 256" using unsigned_less [of b, where 'a = nat] by (simp del: unsigned_less)
  then show "unat (ucast b :: u32) = unat b"
    by (simp add: unsigned_ucast_eq take_bit_nat_eq_self_iff order_less_trans [of _ 256])
qed

lemma ucast_u8_eq_0: "(ucast (b :: u8) :: u32) = 0 \<longleftrightarrow> b = 0"
  by (metis unat_ucast_u8(1) unat_eq_zero)

lemma inc_valid_iff:
  "is_sendme_inc_valid inc p \<longleftrightarrow> inc \<noteq> 0 \<and> unat inc \<le> unat (sendme_inc_param (ccp_cwnd p)) + 1 \<and>
     unat (sendme_inc_param (ccp_cwnd p)) \<le> unat inc + 1"
proof -
  define c where "c = sendme_inc_param (ccp_cwnd p)"
  note inc = unat_ucast_u8 [of inc]
  have "(ucast inc :: u32) > saturating_add_w c 1 \<longleftrightarrow> unat inc > unat c + 1"
  proof (cases "unat c + 1 < 4294967296")
    case True
    then have "unat (c + 1) = unat c + 1" by (simp add: unat_word_ariths)
    then show ?thesis using True inc by (simp add: saturating_add_w_def word_less_nat_alt)
  next
    case False
    then have "\<not> unat c + 1 < unat inc" using inc(2) by linarith
    moreover have "\<not> (- 1 :: u32) < ucast inc" by simp
    ultimately show ?thesis using False by (simp add: saturating_add_w_def)
  qed
  moreover have "(ucast inc :: u32) < saturating_sub_w c 1 \<longleftrightarrow> unat inc + 1 < unat c"
  proof (cases "c = 0")
    case False
    then have "unat (c - 1) = unat c - 1" "1 \<le> c" by (simp_all add: unat_minus_one word_le_nat_alt unat_gt_0 Suc_leI)
    then show ?thesis using inc by (auto simp: saturating_sub_w_def word_less_nat_alt)
  qed (simp add: saturating_sub_w_def)
  ultimately show ?thesis by (auto simp: is_sendme_inc_valid_def c_def Let_def)
qed

lemma aux_data_frame:
  assumes "ntor_v3_server_aux_data exts s = (r, s')"
  shows "hs_protocol s' = hs_protocol s \<and> alg (hs_ccontrol s') = alg (hs_ccontrol s) \<and>
    (r = Inr () \<and> exts \<noteq> [] \<longrightarrow> is_enabled (hs_ccontrol s) \<and> hs_sendme_inc s' \<noteq> 0) \<and>
    (exts = [] \<longrightarrow> r = Inr () \<and> s' = s)"
  using assms
proof (induction exts s rule: ntor_v3_server_aux_data.induct)
  case (2 ext exts s)
  show ?case
  proof (cases "\<exists>inc. ext = CcResponse inc \<and> is_enabled (hs_ccontrol s) \<and> is_sendme_inc_valid inc (hs_ccontrol s)")
    case True
    then obtain inc where inc: "ext = CcResponse inc" "is_enabled (hs_ccontrol s)" "is_sendme_inc_valid inc (hs_ccontrol s)" by blast
    define s1 where "s1 = s\<lparr>hs_ccontrol := (hs_ccontrol s)\<lparr>ccp_cwnd := set_sendme_inc inc (ccp_cwnd (hs_ccontrol s))\<rparr>\<rparr>"
    have s1: "hs_protocol s1 = hs_protocol s" "alg (hs_ccontrol s1) = alg (hs_ccontrol s)" "hs_sendme_inc s1 \<noteq> 0"
      using inc(3) by (simp_all add: s1_def set_sendme_inc_def inc_valid_iff ucast_u8_eq_0)
    have a: "ntor_v3_server_aux_data exts s1 = (r, s')" using 2(2) inc by (simp add: s1_def)
    from 2(1) [OF inc(1) _ _ a [unfolded s1_def]] inc(2,3) s1 show ?thesis
      by (cases "exts = []") (auto simp: s1_def is_enabled_def)
  next
    case False
    then show ?thesis using 2(2) by (auto split: circ_response_ext.splits if_splits)
  qed
qed simp

section \<open>What is proposed\<close>

lemma proposed_enabled:
  "is_enabled (hs_ccontrol (hop_settings_from hoptype params caps)) \<longleftrightarrow>
     hoptype = NegotiateFull \<and> is_enabled (cp_ccontrol params) \<and> supports_named_subver FLOWCTRL_CC caps"
  by (cases hoptype; cases "alg (cp_ccontrol params)") (simp_all add: hop_settings_from_def is_enabled_def use_fallback_alg_def Let_def)

lemma proposed_cgo:
  "hs_protocol (hop_settings_from hoptype params caps) = ProtoCgo \<longleftrightarrow>
     is_enabled (hs_ccontrol (hop_settings_from hoptype params caps)) \<and>
     supports_named_subver RELAY_NEGOTIATE_SUBPROTO caps \<and> supports_named_subver RELAY_CRYPT_CGO caps"
  by (cases hoptype; cases "alg (cp_ccontrol params)")
    (simp_all add: hop_settings_from_def is_enabled_def use_fallback_alg_def compatible_with_cgo_def Let_def)

lemma proposed_inc: "hs_sendme_inc (hop_settings_from hoptype params caps) = sendme_inc_param (ccp_cwnd (cp_ccontrol params))"
  by (cases hoptype; cases "alg (cp_ccontrol params)") (simp_all add: hop_settings_from_def use_fallback_alg_def Let_def)

lemma proposed_format: "layer_cell_format (hs_protocol (hop_settings_from hoptype params caps)) = FmtV1 \<longleftrightarrow>
    hs_protocol (hop_settings_from hoptype params caps) = ProtoCgo"
  by (cases hoptype) (simp_all add: hop_settings_from_def layer_cell_format_def Let_def)

lemma hop_algorithm:
  assumes "hop_new num s first = Inr h"
  shows "alg_uses_stream_sendme (cc_alg (ccontrol h)) \<longleftrightarrow> \<not> is_enabled (hs_ccontrol s)"
    "relay_format h = layer_cell_format (hs_protocol s)"
  using assms
  by (auto simp: hop_new_def cc_new_def res_bind_Inr_iff is_enabled_def alg_uses_stream_sendme_def split: algorithm_params.splits)

text \<open>
  C11: a client only uses what it negotiated. Whatever the consensus parameters, the kind of
  handshake and the relay's capabilities, the proposed settings can be turned into request
  extensions without the internal error. Congestion control is requested exactly when it is
  used, which takes a handshake with extensions both ways, a consensus that enables it and a relay
  that supports it; counter galois onion is requested exactly when it is used, which takes
  congestion control as well. The relay's answer changes neither choice; an answer to an extension that
  was not requested is refused; the SENDME increment never becomes zero, and by one answer it
  moves by at most one from the consensus. Thus a hop with the V1 cell format never uses stream
  SENDMEs.
\<close>

theorem negotiation_sound:
  assumes "settings = hop_settings_from hoptype params caps"
  shows "(\<exists>reqs. circ_extensions_from_settings settings = Inr reqs \<and>
      (CcRequest \<in> set reqs \<longleftrightarrow> is_enabled (hs_ccontrol settings)) \<and>
      (SubprotocolRequest [RELAY_CRYPT_CGO] \<in> set reqs \<longleftrightarrow> hs_protocol settings = ProtoCgo)) \<and>
    (is_enabled (hs_ccontrol settings) \<longleftrightarrow>
      hoptype = NegotiateFull \<and> is_enabled (cp_ccontrol params) \<and> supports_named_subver FLOWCTRL_CC caps) \<and>
    (hs_protocol settings = ProtoCgo \<longleftrightarrow> is_enabled (hs_ccontrol settings) \<and>
      supports_named_subver RELAY_NEGOTIATE_SUBPROTO caps \<and> supports_named_subver RELAY_CRYPT_CGO caps) \<and>
    (\<forall>exts r s'. ntor_v3_server_aux_data exts settings = (r, s') \<longrightarrow>
      hs_protocol s' = hs_protocol settings \<and> alg (hs_ccontrol s') = alg (hs_ccontrol settings) \<and>
      (r = Inr () \<and> exts \<noteq> [] \<longrightarrow> is_enabled (hs_ccontrol settings) \<and> hs_sendme_inc s' \<noteq> 0) \<and>
      (r = Inr () \<and> length exts \<le> 1 \<longrightarrow>
         unat (hs_sendme_inc s') \<le> unat (sendme_inc_param (ccp_cwnd (cp_ccontrol params))) + 1 \<and>
         unat (sendme_inc_param (ccp_cwnd (cp_ccontrol params))) \<le> unat (hs_sendme_inc s') + 1) \<and>
      (\<forall>num first h. hop_new num s' first = Inr (h :: ('c, 'v, 'r) circ_hop) \<longrightarrow> relay_format h = FmtV1 \<longrightarrow>
         \<not> alg_uses_stream_sendme (cc_alg (ccontrol h))))"
proof (intro conjI allI impI)
  have cgo: "hs_protocol settings = ProtoCgo \<Longrightarrow> is_enabled (hs_ccontrol settings)"
    unfolding assms by (simp add: proposed_cgo)
  show "\<exists>reqs. circ_extensions_from_settings settings = Inr reqs \<and>
      (CcRequest \<in> set reqs \<longleftrightarrow> is_enabled (hs_ccontrol settings)) \<and>
      (SubprotocolRequest [RELAY_CRYPT_CGO] \<in> set reqs \<longleftrightarrow> hs_protocol settings = ProtoCgo)"
    using cgo by (auto simp: circ_extensions_from_settings_def Let_def)
  show "is_enabled (hs_ccontrol settings) \<longleftrightarrow>
      hoptype = NegotiateFull \<and> is_enabled (cp_ccontrol params) \<and> supports_named_subver FLOWCTRL_CC caps"
    unfolding assms by (rule proposed_enabled)
  show "hs_protocol settings = ProtoCgo \<longleftrightarrow> is_enabled (hs_ccontrol settings) \<and>
      supports_named_subver RELAY_NEGOTIATE_SUBPROTO caps \<and> supports_named_subver RELAY_CRYPT_CGO caps"
    unfolding assms by (rule proposed_cgo)
  fix exts r s' assume a: "ntor_v3_server_aux_data exts settings = (r, s')"
  note f = aux_data_frame [OF a]
  show "hs_protocol s' = hs_protocol settings" "alg (hs_ccontrol s') = alg (hs_ccontrol settings)" using f by simp_all
  show "is_enabled (hs_ccontrol settings)" "hs_sendme_inc s' \<noteq> 0" if "r = Inr () \<and> exts \<noteq> []" using f that by simp_all
  have near: "unat (hs_sendme_inc s') \<le> unat (hs_sendme_inc settings) + 1 \<and> unat (hs_sendme_inc settings) \<le> unat (hs_sendme_inc s') + 1"
    if l: "r = Inr () \<and> length exts \<le> 1"
  proof (cases exts)
    case (Cons ext es)
    then have "exts = [ext]" using l by simp
    then show ?thesis using a l
      by (auto simp: inc_valid_iff set_sendme_inc_def unat_ucast_u8(1) split: circ_response_ext.splits if_splits)
  qed (use a in simp)
  moreover have "hs_sendme_inc settings = sendme_inc_param (ccp_cwnd (cp_ccontrol params))"
    unfolding assms by (rule proposed_inc)
  ultimately show "unat (hs_sendme_inc s') \<le> unat (sendme_inc_param (ccp_cwnd (cp_ccontrol params))) + 1"
    "unat (sendme_inc_param (ccp_cwnd (cp_ccontrol params))) \<le> unat (hs_sendme_inc s') + 1" if "r = Inr () \<and> length exts \<le> 1"
    using that by simp_all
  fix num first and h :: "('c, 'v, 'r) circ_hop" assume h: "hop_new num s' first = Inr h" "relay_format h = FmtV1"
  then have "layer_cell_format (hs_protocol settings) = FmtV1" using hop_algorithm(2) [OF h(1)] f by simp
  then have "is_enabled (hs_ccontrol settings)" using cgo unfolding assms by (simp add: proposed_format)
  then show "\<not> alg_uses_stream_sendme (cc_alg (ccontrol h))" using hop_algorithm(1) [OF h(1)] f by (simp add: is_enabled_def)
qed

text \<open>A consensus that enables congestion control, and a relay that supports everything.\<close>

definition demo_params :: circ_parameters where
  "demo_params =
     \<lparr>extend_by_ed25519_id = True,
      cp_ccontrol =
        \<lparr>alg = VegasAlg \<lparr>cell_in_queue_params = \<lparr>vq_alpha = 186, vq_beta = 248, vq_delta = 310, vq_gamma = 186, vq_ss_cwnd_cap = 600\<rparr>,
           ss_cwnd_max = 5000, cwnd_full_gap = 4, cwnd_full_min_pct = 25, cwnd_full_per_cwnd = 1\<rparr>,
         ccp_fixed_window = \<lparr>circ_window_start = 1000, circ_window_min = 100, circ_window_max = 1000\<rparr>,
         ccp_cwnd = \<lparr>cwnd_init = 124, cwnd_inc_pct_ss = 100, cwnd_inc = 1, cwnd_inc_rate = 31,
           cwnd_min = 124, cwnd_max = 4294967295, sendme_inc_param = 31\<rparr>,
         ccp_rtt = \<lparr>ewma_cwnd_pct = 50, ewma_max = 10, ewma_ss_max = 2, rtt_reset_pct = 100\<rparr>\<rparr>,
      cp_n_incoming = None, cp_n_outgoing = None\<rparr>"

definition demo_caps :: protocols where
  "demo_caps = \<lparr>recognized = replicate 13 255, unrecognized = []\<rparr>"

theorem negotiation_sound_witness:
  "hs_protocol (hop_settings_from NegotiateFull demo_params demo_caps) = ProtoCgo \<and>
   circ_extensions_from_settings (hop_settings_from NegotiateFull demo_params demo_caps) = Inr [CcRequest, SubprotocolRequest [RELAY_CRYPT_CGO]] \<and>
   fst (ntor_v3_server_aux_data [CcResponse 32] (hop_settings_from NegotiateFull demo_params demo_caps)) = Inr () \<and>
   unat (hs_sendme_inc (snd (ntor_v3_server_aux_data [CcResponse 32] (hop_settings_from NegotiateFull demo_params demo_caps)))) \<le> 32"
proof -
  let ?s = "hop_settings_from NegotiateFull demo_params demo_caps"
  have caps: "supports_named_subver FLOWCTRL_CC demo_caps" "supports_named_subver RELAY_NEGOTIATE_SUBPROTO demo_caps"
    "supports_named_subver RELAY_CRYPT_CGO demo_caps"
    by (simp_all add: supports_named_subver_def supports_known_subver_def supports_recognized_ver_def demo_caps_def)
  have e: "is_enabled (cp_ccontrol demo_params)" by (simp add: is_enabled_def demo_params_def)
  note n = negotiation_sound [OF refl, of NegotiateFull demo_params demo_caps]
  have p: "hs_protocol ?s = ProtoCgo" "is_enabled (hs_ccontrol ?s)" using n caps e by blast+
  have i: "hs_sendme_inc ?s = 31" using proposed_inc [of NegotiateFull demo_params demo_caps] by (simp add: demo_params_def)
  obtain s' where s': "ntor_v3_server_aux_data [CcResponse 32] ?s = (Inr (), s')"
    using p(2) i by (simp add: inc_valid_iff)
  have "unat (hs_sendme_inc s') \<le> unat (sendme_inc_param (ccp_cwnd (cp_ccontrol demo_params))) + 1" using n s' by (metis One_nat_def length_Cons list.size(3) order_refl)
  then show ?thesis using p s' by (simp add: circ_extensions_from_settings_def demo_params_def)
qed

section \<open>Repeated answers\<close>




end
