(* ===== verification/Protover_Facts.thy ===== *)
theory Protover_Facts
  imports Protover "HOL-Library.Multiset"
begin

text \<open>
  Properties of subprotocol versions: the printing loop ends, printing and parsing are inverse,
  and the operations on 64-bit masks are those on sets of versions.
\<close>

unbundle bit_operations_syntax

section \<open>Runs of bits\<close>

lemma takeWhile_run:
  "(\<forall>i < length (takeWhile P xs). P (xs ! i)) \<and>
   (length (takeWhile P xs) < length xs \<longrightarrow> \<not> P (xs ! length (takeWhile P xs))) \<and> length (takeWhile P xs) \<le> length xs"
  by (induction xs) (auto simp: nth_Cons split: nat.split)

lemma trailing_zeros_spec:
  assumes "w \<noteq> 0"
  shows "trailing_zeros w < 64" "bit w (trailing_zeros w)" "i < trailing_zeros w \<Longrightarrow> \<not> bit w i"
proof -
  define z where "z = trailing_zeros w"
  define xs where "xs = map (bit w) [0..<64]"
  have xs: "length xs = 64" "\<And>i. i < 64 \<Longrightarrow> xs ! i = bit w i" by (simp_all add: xs_def)
  have r: "(\<forall>i < z. \<not> bit w i) \<and> (z < 64 \<longrightarrow> bit w z) \<and> z \<le> 64"
    using takeWhile_run [of Not xs] xs unfolding z_def trailing_zeros_def xs_def [symmetric] by (metis order_less_le_trans)
  show "trailing_zeros w < 64"
  proof (rule ccontr)
    assume "\<not> ?thesis"
    then have "z = 64" using r by (simp add: z_def)
    then have "\<not> bit w i" for i using r bit_imp_le_length [of w i] by (cases "i < 64") auto
    then have "w = 0" by (intro bit_word_eqI) simp
    then show False using assms by simp
  qed
  then show "bit w (trailing_zeros w)" "i < trailing_zeros w \<Longrightarrow> \<not> bit w i" using r by (auto simp: z_def)
qed

lemma trailing_ones_spec:
  "i < trailing_ones w \<Longrightarrow> bit w i" "\<not> bit w (trailing_ones w)" "trailing_ones w \<le> 64" "bit w 0 \<Longrightarrow> 0 < trailing_ones w"
proof -
  define z where "z = trailing_ones w"
  define xs where "xs = map (bit w) [0..<64]"
  have xs: "length xs = 64" "\<And>i. i < 64 \<Longrightarrow> xs ! i = bit w i" by (simp_all add: xs_def)
  have r: "(\<forall>i < z. bit w i) \<and> (z < 64 \<longrightarrow> \<not> bit w z) \<and> z \<le> 64"
    using takeWhile_run [of "\<lambda>b. b" xs] xs unfolding z_def trailing_ones_def xs_def [symmetric] by (metis order_less_le_trans)
  then show "i < trailing_ones w \<Longrightarrow> bit w i" "trailing_ones w \<le> 64" by (auto simp: z_def)
  show "\<not> bit w (trailing_ones w)"
    using r bit_imp_le_length [of w z] by (cases "z < 64") (auto simp: z_def)
  then show "bit w 0 \<Longrightarrow> 0 < trailing_ones w" by (metis not_gr_zero)
qed

text \<open>One round of the loop, on the bits.\<close>

lemma dump_round:
  assumes "w \<noteq> 0" "\<forall>i. n \<le> i \<longrightarrow> \<not> bit w i" "z = trailing_zeros w" "k = trailing_ones (drop_bit z w)" "w' = drop_bit k (drop_bit z w)"
  shows "0 < k" "z + k \<le> n" "\<not> bit w' 0" "\<And>i. n - (z + k) \<le> i \<Longrightarrow> \<not> bit w' i"
    "bit w i \<longleftrightarrow> z \<le> i \<and> i < z + k \<or> z + k \<le> i \<and> bit w' (i - (z + k))"
proof -
  note z = trailing_zeros_spec [OF assms(1), folded assms(3)] and o = trailing_ones_spec [where w = "drop_bit z w", folded assms(4)]
  have bits: "bit (drop_bit z w) i = bit w (z + i)" "bit w' i = bit w (z + k + i)" for i
    using assms(5) by (simp_all add: bit_simps ac_simps)
  show k: "0 < k" using o(4) z(2) bits(1) [of 0] by simp
  show "\<not> bit w' 0" using o(2) bits by simp
  have "bit w (z + (k - 1))" using o(1) [of "k - 1"] k bits(1) by simp
  then have "z + (k - 1) < n" using assms(2) by (meson not_le)
  then show n: "z + k \<le> n" using k by linarith
  show "\<not> bit w' i" if "n - (z + k) \<le> i" for i using that n assms(2) [rule_format, of "z + k + i"] bits by simp
  show "bit w i \<longleftrightarrow> z \<le> i \<and> i < z + k \<or> z + k \<le> i \<and> bit w' (i - (z + k))"
  proof (cases "i < z + k")
    case True
    then show ?thesis using z(3) o(1) [of "i - z"] bits(1) [of "i - z"] by (cases "i < z") auto
  next
    case False
    then show ?thesis using bits(2) [of "i - (z + k)"] by simp
  qed
qed

text \<open>
  The loop ends within half as many rounds as there are bits left: after a round the lowest bit is
  clear, so a later round takes at least two bits.
\<close>

definition run_strings :: "(nat \<times> nat) list \<Rightarrow> string list" where
  "run_strings rs = map (\<lambda>(lo, hi). range_string lo hi) rs"

lemma dump_loop_spec:
  assumes "\<forall>i. n \<le> i \<longrightarrow> \<not> bit w i" "n \<le> 2 * fuel \<or> \<not> bit w 0 \<and> n \<le> 2 * fuel + 1" "shift + n \<le> 64"
  shows "\<exists>rs. dump_loop fuel w shift result = Some (result @ run_strings rs) \<and>
    (\<forall>(lo, hi) \<in> set rs. shift \<le> lo \<and> lo \<le> hi \<and> hi < shift + n) \<and> sorted_wrt (\<lambda>(lo, hi) (lo', hi'). hi < lo') rs \<and>
    (\<forall>i. bit w i \<longleftrightarrow> (\<exists>(lo, hi) \<in> set rs. lo \<le> shift + i \<and> shift + i \<le> hi))"
  using assms
proof (induction fuel arbitrary: w n shift result)
  case 0
  then have "\<not> bit w i" for i by (cases i) auto
  then have "w = 0" by (intro bit_word_eqI) simp
  then show ?case by (intro exI [of _ "[]"]) (simp add: run_strings_def)
next
  case (Suc fuel)
  show ?case
  proof (cases "w = 0")
    case True
    then show ?thesis by (intro exI [of _ "[]"]) (simp add: run_strings_def)
  next
    case False
    define z k w' where "z = trailing_zeros w" and "k = trailing_ones (drop_bit z w)" and "w' = drop_bit k (drop_bit z w)"
    note r = dump_round [OF False Suc.prems(1) z_def k_def w'_def]
    define res where "res = result @ [range_string (shift + z) (shift + z + k - 1)]"
    have loop: "dump_loop (Suc fuel) w shift result =
        (if k = 64 then Some res else dump_loop fuel w' (shift + z + k) res)"
      using False by (simp add: Let_def res_def z_def k_def w'_def)
    have z: "bit w 0 \<or> 1 \<le> z" using trailing_zeros_spec(2) [OF False] by (cases z) (auto simp: z_def)
    have "\<exists>rs. dump_loop fuel w' (shift + z + k) res = Some (res @ run_strings rs) \<and>
      (\<forall>(lo, hi) \<in> set rs. shift + z + k \<le> lo \<and> lo \<le> hi \<and> hi < shift + z + k + (n - (z + k))) \<and>
      sorted_wrt (\<lambda>(lo, hi) (lo', hi'). hi < lo') rs \<and>
      (\<forall>i. bit w' i \<longleftrightarrow> (\<exists>(lo, hi) \<in> set rs. lo \<le> shift + z + k + i \<and> shift + z + k + i \<le> hi))"
      by (rule Suc.IH) (use r(1-4) z Suc.prems in auto)
    then obtain rs where rs: "dump_loop fuel w' (shift + z + k) res = Some (res @ run_strings rs)"
        "\<And>lo hi. (lo, hi) \<in> set rs \<Longrightarrow> shift + z + k \<le> lo \<and> lo \<le> hi \<and> hi < shift + z + k + (n - (z + k))"
        "sorted_wrt (\<lambda>(lo, hi) (lo', hi'). hi < lo') rs"
        "\<And>i. bit w' i \<longleftrightarrow> (\<exists>(lo, hi) \<in> set rs. lo \<le> shift + z + k + i \<and> shift + z + k + i \<le> hi)"
      by auto
    define rs' where "rs' = (shift + z, shift + z + k - 1) # rs"
    have out: "dump_loop (Suc fuel) w shift result = Some (result @ run_strings rs')"
    proof (cases "k = 64")
      case True
      then have "n - (z + k) = 0" "z = 0" "shift = 0" using r(2) Suc.prems(3) by auto
      then have "rs = []" using rs(2) by (cases rs) fastforce+
      then show ?thesis using loop True by (simp add: rs'_def res_def run_strings_def)
    next
      case False
      then show ?thesis using loop rs(1) by (simp add: rs'_def res_def run_strings_def)
    qed
    have bnd: "\<forall>(lo, hi) \<in> set rs'. shift \<le> lo \<and> lo \<le> hi \<and> hi < shift + n"
      using rs(2) r(1,2) by (fastforce simp: rs'_def)
    have srt: "sorted_wrt (\<lambda>(lo, hi) (lo', hi'). hi < lo') rs'"
      using rs(2,3) r(1) by (fastforce simp: rs'_def)
    have "bit w i \<longleftrightarrow> (\<exists>(lo, hi) \<in> set rs'. lo \<le> shift + i \<and> shift + i \<le> hi)" for i
    proof (cases "z + k \<le> i")
      case True
      then have "shift + z + k + (i - (z + k)) = shift + i" by simp
      then show ?thesis using r(5) [of i] rs(4) [of "i - (z + k)"] True r(1) by (auto simp: rs'_def)
    next
      case False
      then show ?thesis using r(5) [of i] rs(2) r(1) by (fastforce simp: rs'_def)
    qed
    with out bnd srt show ?thesis by blast
  qed
qed

section \<open>Ranges of versions\<close>

lemma dec_string_chars: "c \<in> set (dec_string n) \<Longrightarrow> is_ascii_digit c"
  using dec_string_digits [of n] by (auto simp: list_all_iff)

lemma dec_string_no [simp]: "CHR ''-'' \<notin> set (dec_string n)" "CHR '','' \<notin> set (dec_string n)" "CHR '' '' \<notin> set (dec_string n)"
  using dec_string_chars [of "CHR ''-''" n] dec_string_chars [of "CHR '',''" n] dec_string_chars [of "CHR '' ''" n]
  by (auto simp: is_ascii_digit_def)

lemma dec_string_hd: "hd (dec_string n) = CHR ''0'' \<longleftrightarrow> n = 0"
proof (induction n rule: dec_string.induct)
  case (1 n)
  show ?case
  proof (cases "n < 10")
    case True
    have "digit_char 0 = CHR ''0''" "digit_val (CHR ''0'') = 0" by code_simp+
    then have "digit_char n = CHR ''0'' \<longleftrightarrow> n = 0" using digit_char_props(2) [OF True] by metis
    then show ?thesis using True by (simp add: dec_string.simps [of n])
  next
    case False
    then show ?thesis using 1 by (simp add: dec_string.simps [of n])
  qed
qed

lemma good_dec_string [simp]: "is_good_number (dec_string n) \<longleftrightarrow> n \<noteq> 0"
  by (simp add: is_good_number_def dec_string_digits dec_string_hd)

lemma range_string_no: "CHR '','' \<notin> set (range_string lo hi)" "CHR '' '' \<notin> set (range_string lo hi)"
  by (simp_all add: range_string_def)

lemma bitrange_bits:
  assumes "lo \<le> hi" "hi \<le> 63"
  shows "\<exists>w. bitrange lo hi = Some w \<and> (\<forall>i. bit w i \<longleftrightarrow> lo \<le> i \<and> i \<le> hi)"
  using assms by (auto simp: bitrange_def bit_simps)

lemma add_range_ok:
  assumes "1 \<le> lo" "lo \<le> hi" "hi \<le> 63" "\<And>i. lo \<le> i \<Longrightarrow> i \<le> hi \<Longrightarrow> \<not> bit acc i"
  shows "\<exists>w. add_range (range_string lo hi) acc = Inr w \<and> (\<forall>i. bit w i \<longleftrightarrow> bit acc i \<or> lo \<le> i \<and> i \<le> hi)"
proof -
  obtain w where w: "bitrange lo hi = Some w" "\<forall>i. bit w i \<longleftrightarrow> lo \<le> i \<and> i \<le> hi" using bitrange_bits [OF assms(2,3)] by blast
  have "acc AND w = 0" by (rule bit_word_eqI) (use w(2) assms(4) in \<open>auto simp: bit_simps\<close>)
  moreover have "parse_uint 18446744073709551615 (dec_string lo) = Some lo" "parse_uint 18446744073709551615 (dec_string hi) = Some hi"
    using assms by (auto intro!: parse_uint_dec_string)
  moreover have "(case split_once (CHR ''-'') (range_string lo hi) of Some p \<Rightarrow> p | None \<Rightarrow> (range_string lo hi, range_string lo hi)) =
      (dec_string lo, dec_string hi)"
    using split_once_append [of "CHR ''-''" "dec_string lo" "dec_string hi"] split_once_None_iff [of "CHR ''-''" "dec_string hi"]
    by (simp add: range_string_def del: split_once_None_iff)
  ultimately have "add_range (range_string lo hi) acc = Inr (acc OR w)" using assms w(1) by (simp add: add_range_def)
  then show ?thesis using w(2) by (auto simp: bit_simps)
qed

lemma add_ranges_ok:
  assumes "\<forall>(lo, hi) \<in> set rs. 1 \<le> lo \<and> lo \<le> hi \<and> hi \<le> 63" "sorted_wrt (\<lambda>(lo, hi) (lo', hi'). hi < lo') rs"
    "\<And>lo hi i. (lo, hi) \<in> set rs \<Longrightarrow> lo \<le> i \<Longrightarrow> i \<le> hi \<Longrightarrow> \<not> bit acc i"
  shows "\<exists>w. add_ranges (run_strings rs) acc = Inr w \<and>
    (\<forall>i. bit w i \<longleftrightarrow> bit acc i \<or> (\<exists>(lo, hi) \<in> set rs. lo \<le> i \<and> i \<le> hi))"
  using assms
proof (induction rs arbitrary: acc)
  case (Cons r rs)
  obtain lo hi where r: "r = (lo, hi)" by fastforce
  obtain w where w: "add_range (range_string lo hi) acc = Inr w" "\<And>i. bit w i \<longleftrightarrow> bit acc i \<or> lo \<le> i \<and> i \<le> hi"
    using add_range_ok [of lo hi acc] Cons.prems r by auto
  have "\<exists>w'. add_ranges (run_strings rs) w = Inr w' \<and>
      (\<forall>i. bit w' i \<longleftrightarrow> bit w i \<or> (\<exists>(lo, hi) \<in> set rs. lo \<le> i \<and> i \<le> hi))"
  proof (rule Cons.IH)
    show "\<forall>(lo, hi) \<in> set rs. 1 \<le> lo \<and> lo \<le> hi \<and> hi \<le> 63" using Cons.prems(1) by simp
    show "sorted_wrt (\<lambda>(lo, hi) (lo', hi'). hi < lo') rs" using Cons.prems(2) by simp
    show "\<not> bit w i" if "(lo', hi') \<in> set rs" "lo' \<le> i" "i \<le> hi'" for lo' hi' i
      using w(2) [of i] Cons.prems(2,3) r that by fastforce
  qed
  then obtain w' where "add_ranges (run_strings rs) w = Inr w'"
      "\<forall>i. bit w' i \<longleftrightarrow> bit w i \<or> (\<exists>(lo, hi) \<in> set rs. lo \<le> i \<and> i \<le> hi)" by blast
  then show ?case using w r by (auto simp: run_strings_def res_bind_def)
qed (simp add: run_strings_def)

lemma dumpmask_runs:
  obtains rs where "dumpmask w = Some (join_with '','' (run_strings rs))" "\<forall>(lo, hi) \<in> set rs. lo \<le> hi \<and> hi \<le> 63"
    "sorted_wrt (\<lambda>(lo, hi) (lo', hi'). hi < lo') rs" "\<forall>i. bit w i \<longleftrightarrow> (\<exists>(lo, hi) \<in> set rs. lo \<le> i \<and> i \<le> hi)"
proof -
  have "\<forall>i. 64 \<le> i \<longrightarrow> \<not> bit w i" using bit_imp_le_length [of w] by fastforce
  from dump_loop_spec [OF this, of 32 0 "[]"] show thesis using that by (fastforce simp: dumpmask_def less_Suc_eq_le)
qed

lemma dumpmask_parses:
  assumes "w \<noteq> 0" "\<not> bit w 0"
  obtains d where "dumpmask w = Some d" "d \<noteq> []" "CHR '' '' \<notin> set d" "add_ranges (split_on (CHR '','') d) 0 = Inr w"
proof -
  obtain rs where rs: "dumpmask w = Some (join_with '','' (run_strings rs))" "\<forall>(lo, hi) \<in> set rs. lo \<le> hi \<and> hi \<le> 63"
    "sorted_wrt (\<lambda>(lo, hi) (lo', hi'). hi < lo') rs" "\<forall>i. bit w i \<longleftrightarrow> (\<exists>(lo, hi) \<in> set rs. lo \<le> i \<and> i \<le> hi)"
    by (rule dumpmask_runs)
  have ne: "rs \<noteq> []" using rs(4) assms(1) by (auto simp: bit_eq_iff)
  have "1 \<le> lo" if "(lo, hi) \<in> set rs" for lo hi
  proof (rule ccontr)
    assume "\<not> 1 \<le> lo"
    then have "bit w 0" using rs(4) [rule_format, of 0] that by force
    then show False using assms(2) by simp
  qed
  then have "\<forall>(lo, hi) \<in> set rs. 1 \<le> lo \<and> lo \<le> hi \<and> hi \<le> 63" using rs(2) by fastforce
  from add_ranges_ok [OF this rs(3), of 0]
  obtain w' where w': "add_ranges (run_strings rs) 0 = Inr w'" "\<forall>i. bit w' i \<longleftrightarrow> (\<exists>(lo, hi) \<in> set rs. lo \<le> i \<and> i \<le> hi)"
    by auto
  have "w' = w" by (rule bit_word_eqI) (use w'(2) rs(4) in simp)
  moreover have "split_on (CHR '','') (join_with '','' (run_strings rs)) = run_strings rs"
    by (rule split_on_join) (use ne range_string_no in \<open>auto simp: run_strings_def\<close>)
  moreover have "set (join_with '','' xs) \<subseteq> {CHR '',''} \<union> \<Union> (set ` set xs)" for xs
    by (induction "'',''" xs rule: join_with.induct) auto
  then have "CHR '' '' \<notin> set (join_with '','' (run_strings rs))"
    using range_string_no(2) by (fastforce simp: run_strings_def)
  moreover have "join_with '','' (run_strings rs) \<noteq> []"
    using ne by (cases rs rule: list.exhaust; cases "tl rs") (auto simp: run_strings_def range_string_def split: if_splits)
  ultimately show thesis using that rs(1) w'(1) by simp
qed

section \<open>Names\<close>

lemma proto_names_known:
  assumes "k < 13"
  shows "proto_from_name (proto_names ! k) = Some (of_nat k)" "CHR ''='' \<notin> set (proto_names ! k)" "CHR '' '' \<notin> set (proto_names ! k)"
proof -
  have "list_all (\<lambda>k. proto_from_name (proto_names ! k) = Some (of_nat k) \<and> CHR ''='' \<notin> set (proto_names ! k) \<and>
      CHR '' '' \<notin> set (proto_names ! k)) [0..<13]"
    by (simp add: upt_rec proto_from_name_def proto_names_def)
  then show "proto_from_name (proto_names ! k) = Some (of_nat k)" "CHR ''='' \<notin> set (proto_names ! k)" "CHR '' '' \<notin> set (proto_names ! k)"
    using assms by (auto simp: list_all_iff)
qed

section \<open>Printing and parsing\<close>

text \<open>Sets whose text can be read back: no version 0, and other protocols with plain names.\<close>

definition entry_ok :: "subprotocol_entry \<Rightarrow> bool" where
  "entry_ok e \<longleftrightarrow> sp_supported e \<noteq> 0 \<and> \<not> bit (sp_supported e) 0 \<and>
     (case sp_proto e of
        Proto k \<Rightarrow> unat k < 13
      | Unrecognized s \<Rightarrow> proto_from_name s = None \<and> CHR ''='' \<notin> set s \<and> CHR '' '' \<notin> set s)"

definition unrec :: "subprotocol_entry \<Rightarrow> bool" where
  "unrec e \<longleftrightarrow> (\<exists>s. sp_proto e = Unrecognized s)"

definition protocols_wf :: "protocols \<Rightarrow> bool" where
  "protocols_wf p \<longleftrightarrow> length (recognized p) = 13 \<and> (\<forall>w \<in> set (recognized p). \<not> bit w 0) \<and>
     (\<forall>e \<in> set (unrecognized p). entry_ok e \<and> unrec e) \<and> distinct (map sp_proto (unrecognized p)) \<and>
     sorted (map entry_key (unrecognized p))"

definition entry_text :: "subprotocol_entry \<Rightarrow> string" where
  "entry_text e = protocol_to_str (sp_proto e) @ ''='' @ the (dumpmask (sp_supported e))"

lemma entry_text_parses:
  assumes "entry_ok e"
  shows "entry_from_str (entry_text e) = Inr e" "CHR '' '' \<notin> set (entry_text e)" "entry_text e \<noteq> []"
proof -
  obtain d where d: "dumpmask (sp_supported e) = Some d" "d \<noteq> []" "CHR '' '' \<notin> set d"
      "add_ranges (split_on (CHR '','') d) 0 = Inr (sp_supported e)"
    using assms dumpmask_parses by (auto simp: entry_ok_def)
  have name: "CHR ''='' \<notin> set (protocol_to_str (sp_proto e))" "CHR '' '' \<notin> set (protocol_to_str (sp_proto e))"
      "(case proto_from_name (protocol_to_str (sp_proto e)) of Some p \<Rightarrow> Proto p | None \<Rightarrow> Unrecognized (protocol_to_str (sp_proto e))) = sp_proto e"
    using assms proto_names_known by (auto simp: entry_ok_def protocol_to_str_def proto_to_str_def split: protocol.splits)
  show "entry_from_str (entry_text e) = Inr e"
    using d name split_once_append [OF name(1), of d] by (simp add: entry_from_str_def entry_text_def res_bind_def Let_def)
  show "CHR '' '' \<notin> set (entry_text e)" "entry_text e \<noteq> []" using d name by (simp_all add: entry_text_def)
qed

text \<open>The entries of a set, in the order in which they are printed before sorting.\<close>

definition all_entries :: "protocols \<Rightarrow> subprotocol_entry list" where
  "all_entries p =
     map (\<lambda>k. \<lparr>sp_proto = Proto (of_nat k), sp_supported = recognized p ! k\<rparr>) (filter (\<lambda>k. recognized p ! k \<noteq> 0) [0..<13]) @ unrecognized p"

lemma unat_small: "k < 13 \<Longrightarrow> unat (of_nat k :: u8) = k"
  by (rule unat_of_nat_small) simp

lemma of_nat_inj: "k < 13 \<Longrightarrow> j < 13 \<Longrightarrow> (of_nat k :: u8) = of_nat j \<longleftrightarrow> k = j"
  by (metis unat_small)

lemma all_entries_ok:
  assumes "protocols_wf p"
  shows "\<forall>e \<in> set (all_entries p). entry_ok e" "distinct (map sp_proto (all_entries p))" "filter unrec (all_entries p) = unrecognized p"
proof -
  show "\<forall>e \<in> set (all_entries p). entry_ok e"
    using assms by (auto simp: all_entries_def protocols_wf_def entry_ok_def unat_small)
  show "distinct (map sp_proto (all_entries p))"
    using assms
    by (auto simp: all_entries_def protocols_wf_def distinct_map inj_on_def of_nat_inj unrec_def)
  show "filter unrec (all_entries p) = unrecognized p"
    using assms by (auto simp: all_entries_def protocols_wf_def unrec_def filter_empty_conv intro: filter_True)
qed

lemma enumerate_map: "enumerate 0 xs = map (\<lambda>k. (k, xs ! k)) [0..<length xs]"
  by (rule nth_equalityI) (simp_all add: nth_enumerate_eq)

lemma map_filter_if:
  "List.map_filter (\<lambda>x. if P x then Some (f x) else None) xs = map f (filter P xs)"
  "List.map_filter (\<lambda>(k, w). if w \<noteq> 0 then Some (g k w) else None) (map (\<lambda>k. (k, h k)) ks) = map (\<lambda>k. g k (h k)) (filter (\<lambda>k. h k \<noteq> 0) ks)"
proof -
  show "List.map_filter (\<lambda>x. if P x then Some (f x) else None) xs = map f (filter P xs)"
    by (induction xs) (simp_all add: map_filter_simps)
  show "List.map_filter (\<lambda>(k, w). if w \<noteq> 0 then Some (g k w) else None) (map (\<lambda>k. (k, h k)) ks) = map (\<lambda>k. g k (h k)) (filter (\<lambda>k. h k \<noteq> 0) ks)"
    by (induction ks) (simp_all add: map_filter_simps)
qed

lemma dumpmask_some: "map_option (\<lambda>d. x @ ''='' @ d) (dumpmask w) = Some (x @ ''='' @ the (dumpmask w))"
  by (rule dumpmask_runs [of w]) simp

lemma entry_strings_text:
  assumes "protocols_wf p"
  shows "entry_strings p = map (\<lambda>e. Some (entry_text e)) (all_entries p)"
proof -
  have len: "length (recognized p) = 13" using assms by (simp add: protocols_wf_def)
  have "filter (\<lambda>ent. sp_supported ent \<noteq> 0) (unrecognized p) = unrecognized p"
    using assms by (intro filter_True) (simp add: protocols_wf_def entry_ok_def)
  moreover have "proto_display (of_nat k) = protocol_to_str (Proto (of_nat k))" if "k < 13" for k
    using that by (simp add: proto_display_def protocol_to_str_def proto_to_str_def unat_small)
  ultimately show ?thesis
    unfolding entry_strings_def all_entries_def enumerate_map len map_filter_if dumpmask_some
    by (simp add: entry_text_def)
qed

text \<open>Adding entries of different protocols.\<close>

lemma add_entries_ok:
  assumes "\<forall>e \<in> set es. entry_ok e" "distinct (map sp_proto es)" "length (recognized q) = 13"
    "\<And>k. k < 13 \<Longrightarrow> bit found k \<Longrightarrow> Proto (of_nat k) \<notin> sp_proto ` set es"
    "sp_proto ` set (unrecognized q) \<inter> sp_proto ` set es = {}"
  shows "\<exists>found' q'. add_entries (map entry_text es) (found, q) = Inr (found', q') \<and> length (recognized q') = 13 \<and>
    unrecognized q' = unrecognized q @ filter unrec es \<and>
    (\<forall>k < 13. recognized q' ! k = (case List.find (\<lambda>e. sp_proto e = Proto (of_nat k)) es of
       Some e \<Rightarrow> sp_supported e | None \<Rightarrow> recognized q ! k))"
  using assms
proof (induction es arbitrary: found q)
  case (Cons e es)
  have e: "entry_ok e" using Cons.prems(1) by simp
  note parse = entry_text_parses [OF e]
  show ?case
  proof (cases "sp_proto e")
    case (Proto k)
    then have k: "unat k < 13" using e by (simp add: entry_ok_def)
    then have kk: "of_nat (unat k) = k" "\<not> bit found (unat k)" using Cons.prems(4) [of "unat k"] Proto by auto
    have m: "found AND push_bit (unat k) 1 = 0" by (rule bit_word_eqI) (use kk in \<open>auto simp: bit_simps\<close>)
    define f2 q2 where "f2 = found OR push_bit (unat k) 1" and "q2 = q\<lparr>recognized := (recognized q)[unat k := sp_supported e]\<rparr>"
    have add: "protocols_add e (found, q) = Inr (f2, q2)" using Proto k m by (simp add: protocols_add_def f2_def q2_def)
    have "\<exists>found' q'. add_entries (map entry_text es) (f2, q2) = Inr (found', q') \<and> length (recognized q') = 13 \<and>
      unrecognized q' = unrecognized q2 @ filter unrec es \<and>
      (\<forall>k < 13. recognized q' ! k = (case List.find (\<lambda>e. sp_proto e = Proto (of_nat k)) es of
         Some e \<Rightarrow> sp_supported e | None \<Rightarrow> recognized q2 ! k))"
    proof (rule Cons.IH)
      show "Proto (of_nat j) \<notin> sp_proto ` set es" if "j < 13" "bit f2 j" for j
      proof (cases "j = unat k")
        case True
        then show ?thesis using Cons.prems(2) Proto kk by (auto simp: image_iff)
      next
        case False
        then have "bit found j" using that(2) by (auto simp: f2_def bit_simps)
        then show ?thesis using Cons.prems(4) [OF that(1)] by auto
      qed
    qed (use Cons.prems in \<open>auto simp: q2_def\<close>)
    then obtain found' q' where q': "add_entries (map entry_text es) (f2, q2) = Inr (found', q')" "length (recognized q') = 13"
        "unrecognized q' = unrecognized q2 @ filter unrec es"
        "\<forall>k < 13. recognized q' ! k = (case List.find (\<lambda>e. sp_proto e = Proto (of_nat k)) es of
           Some e \<Rightarrow> sp_supported e | None \<Rightarrow> recognized q2 ! k)" by blast
    have "recognized q' ! j = (case List.find (\<lambda>e. sp_proto e = Proto (of_nat j)) (e # es) of
        Some e \<Rightarrow> sp_supported e | None \<Rightarrow> recognized q ! j)" if j: "j < 13" for j
    proof (cases "j = unat k")
      case True
      have "List.find (\<lambda>e. sp_proto e = Proto k) es = None" using Cons.prems(2) Proto by (auto simp: find_None_iff image_iff)
      then show ?thesis using q'(4) j True Proto kk Cons.prems(3) by (simp add: q2_def)
    next
      case False
      then have "sp_proto e \<noteq> Proto (of_nat j)" using Proto j unat_small [OF j] by auto
      then show ?thesis using q'(4) j False by (auto simp: q2_def split: option.splits)
    qed
    then show ?thesis using parse add q'(1-3) Proto by (auto simp: res_bind_def q2_def unrec_def [of e])
  next
    case (Unrecognized s)
    define q2 where "q2 = q\<lparr>unrecognized := unrecognized q @ [e]\<rparr>"
    have "\<not> list_ex (\<lambda>ent. is_unrecognized s (sp_proto ent)) (unrecognized q)"
      using Cons.prems(5) Unrecognized by (auto simp: list_ex_iff is_unrecognized_def image_iff split: protocol.splits)
    then have add: "protocols_add e (found, q) = Inr (found, q2)" using Unrecognized e by (simp add: protocols_add_def q2_def entry_ok_def)
    have "\<exists>found' q'. add_entries (map entry_text es) (found, q2) = Inr (found', q') \<and> length (recognized q') = 13 \<and>
      unrecognized q' = unrecognized q2 @ filter unrec es \<and>
      (\<forall>k < 13. recognized q' ! k = (case List.find (\<lambda>e. sp_proto e = Proto (of_nat k)) es of
         Some e \<Rightarrow> sp_supported e | None \<Rightarrow> recognized q2 ! k))"
      by (rule Cons.IH) (use Cons.prems in \<open>auto simp: q2_def\<close>)
    then show ?thesis using parse add Unrecognized
      by (auto simp: res_bind_def q2_def unrec_def [of e] split: option.splits)
  qed
qed simp

lemma parse_text:
  assumes "protocols_wf p" "mset es = mset (all_entries p)"
  shows "protocols_from_str (join_with '' '' (map entry_text es)) = Inr p"
proof -
  note ok = all_entries_ok [OF assms(1)]
  have set_es: "set es = set (all_entries p)" using assms(2) by (metis set_mset_mset)
  have d: "distinct (map sp_proto es)"
    using ok(2) assms(2) by (metis distinct_map mset_eq_imp_distinct_iff set_es)
  have good: "\<forall>e \<in> set es. entry_ok e" using ok(1) set_es by simp
  obtain found q where q: "add_entries (map entry_text es) (0, protocols_new) = Inr (found, q)" "length (recognized q) = 13"
      "unrecognized q = filter unrec es"
      "\<forall>k < 13. recognized q ! k = (case List.find (\<lambda>e. sp_proto e = Proto (of_nat k)) es of Some e \<Rightarrow> sp_supported e | None \<Rightarrow> 0)"
    using add_entries_ok [OF good d, of protocols_new 0] by (fastforce simp: protocols_new_def split: option.splits)
  have split: "add_entries (split_on (CHR '' '') (join_with '' '' (map entry_text es))) (0, protocols_new) = Inr (found, q)"
  proof (cases "es = []")
    case False
    then have "split_on (CHR '' '') (join_with '' '' (map entry_text es)) = map entry_text es"
      by (intro split_on_join) (use good entry_text_parses(2) in auto)
    then show ?thesis using q(1) by simp
  qed (use q(1) in simp)
  have "recognized q ! k = recognized p ! k" if k: "k < 13" for k
  proof (cases "List.find (\<lambda>e. sp_proto e = Proto (of_nat k)) es")
    case None
    have "recognized p ! k = 0"
    proof (rule ccontr)
      assume "recognized p ! k \<noteq> 0"
      then have "\<lparr>sp_proto = Proto (of_nat k), sp_supported = recognized p ! k\<rparr> \<in> set es"
        unfolding set_es all_entries_def using k by auto
      then show False using None by (auto simp: find_None_iff)
    qed
    then show ?thesis using None q(4) k by simp
  next
    case (Some e)
    then have e: "e \<in> set es" "sp_proto e = Proto (of_nat k)" by (auto simp: find_Some_iff)
    then obtain j where "e = \<lparr>sp_proto = Proto (of_nat j), sp_supported = recognized p ! j\<rparr>" "j < 13"
      using assms(1) unfolding set_es all_entries_def by (auto simp: protocols_wf_def unrec_def)
    then have "sp_supported e = recognized p ! k" using e(2) k of_nat_inj by auto
    then show ?thesis using Some q(4) k by simp
  qed
  then have r: "recognized q = recognized p" using q(2) assms(1) by (intro nth_equalityI) (auto simp: protocols_wf_def)
  have "sort_key entry_key (filter unrec es) = unrecognized p"
  proof (rule sort_key_inj_key_eq)
    show m: "mset (filter unrec es) = mset (unrecognized p)" using assms(2) ok(3) by (metis mset_filter)
    have inj: "inj_on sp_proto (set (unrecognized p))" using assms(1) by (simp add: protocols_wf_def distinct_map)
    have key: "entry_key x = entry_key y \<Longrightarrow> sp_proto x = sp_proto y" for x y
      by (auto simp: entry_key_def word_unat_eq_iff split: protocol.splits)
    have "inj_on entry_key (set (unrecognized p))" by (rule inj_onI) (drule key, erule (2) inj_onD [OF inj])
    moreover have "set (filter unrec es) = set (unrecognized p)" using m by (metis set_mset_mset)
    ultimately show "inj_on entry_key (set (filter unrec es))" by simp
    show "sorted (map entry_key (unrecognized p))" using assms(1) by (simp add: protocols_wf_def)
  qed
  then show ?thesis using split q(3) r by (simp add: protocols_from_str_def res_bind_def)
qed

lemma sort_map: "sort (map f xs) = map f (sort_key f xs)"
  by (rule properties_for_sort) simp_all

text \<open>
  C13: a set of subprotocol versions is read back from its text. For a set with the thirteen
  recognized protocols by index, the others sorted and with distinct plain names, no empty
  entries and no version 0, printing succeeds and parsing the text gives the same set.
\<close>

theorem protover_roundtrip:
  assumes "protocols_wf p"
  shows "\<exists>text. protocols_display p = Some text \<and> protocols_from_str text = Inr p"
proof -
  have "protocols_display p = Some (join_with '' '' (sort (map entry_text (all_entries p))))"
    unfolding protocols_display_def entry_strings_text [OF assms] by (auto simp: comp_def)
  moreover have "protocols_from_str (join_with '' '' (sort (map entry_text (all_entries p)))) = Inr p"
    unfolding sort_map by (rule parse_text [OF assms]) simp
  ultimately show ?thesis by blast
qed

theorem protover_roundtrip_witness:
  "\<exists>text. protocols_display \<lparr>recognized = [14, 0, 6, 0, 0, 0, 0, 0, 0, 0, 0, 2, 0], unrecognized = [\<lparr>sp_proto = Unrecognized ''Foobar'', sp_supported = 128\<rparr>]\<rparr> =
       Some text \<and>
     protocols_from_str text =
       Inr \<lparr>recognized = [14, 0, 6, 0, 0, 0, 0, 0, 0, 0, 0, 2, 0], unrecognized = [\<lparr>sp_proto = Unrecognized ''Foobar'', sp_supported = 128\<rparr>]\<rparr>"
  by (rule protover_roundtrip) (simp add: protocols_wf_def entry_ok_def unrec_def proto_from_name_def proto_names_def bit_simps)

text \<open>
  C29: printing ends. The loop that prints a mask needs at most 32 rounds for the 64 bits, whatever
  the mask, and its rounds print separate ascending ranges that cover exactly the bits set.
\<close>

theorem dumpmask_terminates:
  "\<exists>rs. dump_loop 32 w 0 [] = Some (map (\<lambda>(lo, hi). range_string lo hi) rs) \<and>
     list_all (\<lambda>(lo, hi). lo \<le> hi \<and> hi \<le> 63) rs \<and> sorted_wrt (\<lambda>(lo, hi) (lo', hi'). hi < lo') rs \<and>
     {i. bit w i} = (\<Union>(lo, hi) \<in> set rs. {lo..hi})"
proof -
  have "\<forall>i. 64 \<le> i \<longrightarrow> \<not> bit w i" using bit_imp_le_length [of w] by fastforce
  from dump_loop_spec [OF this, of 32 0 "[]"] obtain rs where
    "dump_loop 32 w 0 [] = Some (run_strings rs)" "\<forall>(lo, hi) \<in> set rs. lo \<le> hi \<and> hi < 64"
    "sorted_wrt (\<lambda>(lo, hi) (lo', hi'). hi < lo') rs" "\<forall>i. bit w i \<longleftrightarrow> (\<exists>(lo, hi) \<in> set rs. lo \<le> i \<and> i \<le> hi)" by auto
  then show ?thesis by (intro exI [of _ rs]) (fastforce simp: run_strings_def list_all_iff)
qed

section \<open>Operations on sets\<close>

text \<open>The mask of an unrecognized protocol; the entries of a set have different protocols.\<close>

definition masks :: "subprotocol_entry list \<Rightarrow> protocol \<Rightarrow> u64" where
  "masks es p = (case find_proto p es of Some e \<Rightarrow> sp_supported e | None \<Rightarrow> 0)"

abbreviation protos :: "subprotocol_entry list \<Rightarrow> protocol list" where
  "protos es \<equiv> map sp_proto es"

lemma masks_simps [simp]:
  "masks [] p = 0" "masks (e # es) p = (if sp_proto e = p then sp_supported e else masks es p)"
  by (simp_all add: masks_def find_proto_def)

lemma masks_absent: "p \<notin> set (protos es) \<Longrightarrow> masks es p = 0"
  by (induction es) auto

lemma masks_in: "distinct (protos es) \<Longrightarrow> e \<in> set es \<Longrightarrow> masks es (sp_proto e) = sp_supported e"
  by (induction es) (auto simp: image_iff)

lemma masks_sort: "distinct (protos es) \<Longrightarrow> masks (sort_entries es) p = masks es p"
proof (cases "p \<in> set (protos es)")
  case True
  assume d: "distinct (protos es)"
  obtain e where e: "e \<in> set es" "p = sp_proto e" using True by auto
  have "distinct (protos (sort_entries es))" using d by (simp add: distinct_map)
  then show ?thesis using e d masks_in by simp
qed (simp add: masks_absent)

lemma masks_or_entry: "masks (or_entry ent es) p = (if p = sp_proto ent then masks es p OR sp_supported ent else masks es p)"
  by (induction es) auto

lemma protos_or_entry: "set (protos (or_entry ent es)) = insert (sp_proto ent) (set (protos es))"
  "distinct (protos es) \<Longrightarrow> distinct (protos (or_entry ent es))"
proof -
  show 1: "set (protos (or_entry ent es)) = insert (sp_proto ent) (set (protos es))" for es by (induction es) auto
  show "distinct (protos es) \<Longrightarrow> distinct (protos (or_entry ent es))"
    using 1 by (induction es) (auto simp del: set_map)
qed

lemma fold_or_entry:
  assumes "distinct (protos xs)" "distinct (protos es)"
  shows "masks (fold or_entry xs es) p = (masks es p OR masks xs p) \<and> distinct (protos (fold or_entry xs es)) \<and>
    set (protos (fold or_entry xs es)) = set (protos es) \<union> set (protos xs)"
  using assms
proof (induction xs arbitrary: es)
  case (Cons x xs)
  have "masks (fold or_entry xs (or_entry x es)) p = (masks (or_entry x es) p OR masks xs p) \<and>
      distinct (protos (fold or_entry xs (or_entry x es))) \<and>
      set (protos (fold or_entry xs (or_entry x es))) = set (protos (or_entry x es)) \<union> set (protos xs)"
    using Cons.prems by (intro Cons.IH protos_or_entry) simp_all
  moreover have "p = sp_proto x \<Longrightarrow> masks xs p = 0" using Cons.prems(1) by (intro masks_absent) simp
  ultimately show ?case by (auto simp: masks_or_entry protos_or_entry simp del: set_map)
qed simp

text \<open>The two operations that keep or shrink our entries.\<close>

lemma masks_map_filter:
  assumes "\<And>e e'. f e = Some e' \<Longrightarrow> sp_proto e' = sp_proto e" "distinct (protos es)"
  shows "masks (List.map_filter f es) p = (case find_proto p es of None \<Rightarrow> 0 | Some e \<Rightarrow> (case f e of None \<Rightarrow> 0 | Some e' \<Rightarrow> sp_supported e')) \<and>
    distinct (protos (List.map_filter f es)) \<and> set (protos (List.map_filter f es)) \<subseteq> set (protos es)"
  using assms(2)
proof (induction es)
  case (Cons e es)
  then have IH: "masks (List.map_filter f es) p = (case find_proto p es of None \<Rightarrow> 0 | Some e \<Rightarrow> (case f e of None \<Rightarrow> 0 | Some e' \<Rightarrow> sp_supported e'))"
      "distinct (protos (List.map_filter f es))" "set (protos (List.map_filter f es)) \<subseteq> set (protos es)" by simp_all
  have n: "sp_proto e \<notin> set (protos es)" using Cons.prems by simp
  then have a: "sp_proto e \<notin> set (protos (List.map_filter f es))" using IH(3) by blast
  show ?case
  proof (cases "f e")
    case None
    then show ?thesis using IH n a masks_absent [OF a] by (auto simp: map_filter_simps find_proto_def simp del: set_map)
  next
    case (Some e')
    then show ?thesis using IH a assms(1) [OF Some] by (auto simp: map_filter_simps find_proto_def simp del: set_map)
  qed
qed (simp add: map_filter_simps find_proto_def)

lemma difference_unrecognized:
  "unrecognized (protocols_difference p q) = List.map_filter (\<lambda>e.
     let e' = e\<lparr>sp_supported := sp_supported e AND NOT (masks (unrecognized q) (sp_proto e))\<rparr> in
     if sp_supported e' \<noteq> 0 then Some e' else None) (unrecognized p)"
proof -
  have e: "(case find_proto (sp_proto e) es of Some o' \<Rightarrow> e\<lparr>sp_supported := sp_supported e AND NOT (sp_supported o')\<rparr> | None \<Rightarrow> e) =
      e\<lparr>sp_supported := sp_supported e AND NOT (masks es (sp_proto e))\<rparr>" for e :: subprotocol_entry and es
    by (auto simp: masks_def split: option.splits)
  have f: "filter P (map g es) = List.map_filter (\<lambda>e. let e' = g e in if P e' then Some e' else None) es"
    for P g and es :: "subprotocol_entry list" by (induction es) (simp_all add: map_filter_simps Let_def)
  show ?thesis by (simp only: protocols_difference_def protocols.select_convs e f)
qed

lemma intersection_unrecognized:
  "unrecognized (protocols_intersection p q) = sort_entries (List.map_filter (\<lambda>e.
     let e' = e\<lparr>sp_supported := sp_supported e AND masks (unrecognized q) (sp_proto e)\<rparr> in
     if sp_supported e' \<noteq> 0 then Some e' else None) (unrecognized p))"
proof -
  have "(case find_proto (sp_proto e) es of
          Some o' \<Rightarrow> let supported = sp_supported e AND sp_supported o' in
             if supported \<noteq> 0 then Some \<lparr>sp_proto = sp_proto e, sp_supported = supported\<rparr> else None
        | None \<Rightarrow> None) =
      (let e' = e\<lparr>sp_supported := sp_supported e AND masks es (sp_proto e)\<rparr> in if sp_supported e' \<noteq> 0 then Some e' else None)" for e :: subprotocol_entry and es
    by (auto simp: masks_def Let_def split: option.splits)
  then show ?thesis by (simp only: protocols_intersection_def protocols.select_convs)
qed

text \<open>The mask of a protocol by its name.\<close>

definition mask_named :: "protocols \<Rightarrow> string \<Rightarrow> u64" where
  "mask_named p name =
     (case proto_from_name name of
        Some k \<Rightarrow> if unat k < length (recognized p) then recognized p ! unat k else 0
      | None \<Rightarrow> masks (unrecognized p) (Unrecognized name))"

lemma and_bit_iff: "(w :: u64) AND 2 ^ n = 0 \<longleftrightarrow> \<not> (n < 64 \<and> bit w n)"
  unfolding bit_eq_iff [of "w AND 2 ^ n" 0] by (auto simp: bit_simps)

lemma is_unrecognized_iff: "is_unrecognized name pr \<longleftrightarrow> pr = Unrecognized name"
  by (auto simp: is_unrecognized_def split: protocol.splits)

lemma supports_mask: "supports_subver name ver p \<longleftrightarrow> unat ver \<le> 63 \<and> bit (mask_named p name) (unat ver)"
  by (auto simp: supports_subver_def supports_recognized_ver_def supports_unrecognized_ver_def mask_named_def and_bit_iff
      is_unrecognized_iff masks_def find_proto_def split: option.splits)

lemma mask_named_ops:
  assumes "length (recognized p) = 13" "length (recognized q) = 13" "distinct (protos (unrecognized p))" "distinct (protos (unrecognized q))"
  shows "mask_named (protocols_union p q) name = (mask_named p name OR mask_named q name)"
    "mask_named (protocols_intersection p q) name = (mask_named p name AND mask_named q name)"
    "mask_named (protocols_difference p q) name = (mask_named p name AND NOT (mask_named q name))"
proof -
  let ?u = "Unrecognized name"
  note d = assms(3,4)
  have u: "masks (unrecognized (protocols_union p q)) ?u = (masks (unrecognized p) ?u OR masks (unrecognized q) ?u)"
    using fold_or_entry [OF d(2,1), of ?u] masks_sort by (simp add: protocols_union_def)
  have m: "masks (List.map_filter (\<lambda>e. let e' = e\<lparr>sp_supported := h (sp_supported e) (sp_proto e)\<rparr> in
        if sp_supported e' \<noteq> 0 then Some e' else None) es) ?u = h (masks es ?u) ?u"
    and md: "distinct (protos (List.map_filter (\<lambda>e. let e' = e\<lparr>sp_supported := h (sp_supported e) (sp_proto e)\<rparr> in
        if sp_supported e' \<noteq> 0 then Some e' else None) es))"
    if "distinct (protos es)" "h 0 ?u = 0" for h es
  proof -
    let ?f = "\<lambda>e. let e' = e\<lparr>sp_supported := h (sp_supported e) (sp_proto e)\<rparr> in if sp_supported e' \<noteq> 0 then Some e' else None"
    have f: "\<And>e e'. ?f e = Some e' \<Longrightarrow> sp_proto e' = sp_proto e" by (auto simp: Let_def split: if_splits)
    note r = masks_map_filter [where p = ?u and f = ?f, OF f that(1)]
    show "distinct (protos (List.map_filter ?f es))" using r by blast
    have p: "find_proto ?u es = Some e \<Longrightarrow> sp_proto e = ?u" for e by (auto simp: find_proto_def find_Some_iff)
    show "masks (List.map_filter ?f es) ?u = h (masks es ?u) ?u"
      using r that(2) by (auto simp: masks_def [of es] Let_def dest!: p split: option.splits)
  qed
  have i: "masks (unrecognized (protocols_intersection p q)) ?u = (masks (unrecognized p) ?u AND masks (unrecognized q) ?u)"
    unfolding intersection_unrecognized
    using m [OF d(1), of "\<lambda>w pr. w AND masks (unrecognized q) pr"] md [OF d(1), of "\<lambda>w pr. w AND masks (unrecognized q) pr"]
    by (simp add: masks_sort)
  have f: "masks (unrecognized (protocols_difference p q)) ?u = (masks (unrecognized p) ?u AND NOT (masks (unrecognized q) ?u))"
    unfolding difference_unrecognized using m [OF d(1), of "\<lambda>w pr. w AND NOT (masks (unrecognized q) pr)"] by simp
  show "mask_named (protocols_union p q) name = (mask_named p name OR mask_named q name)"
    "mask_named (protocols_intersection p q) name = (mask_named p name AND mask_named q name)"
    "mask_named (protocols_difference p q) name = (mask_named p name AND NOT (mask_named q name))"
    using u i f assms(1,2)
    by (auto simp: mask_named_def protocols_union_def protocols_intersection_def protocols_difference_def split: option.splits)
qed

text \<open>Unrecognized entries in the order of their names.\<close>

definition plain :: "protocol \<Rightarrow> bool" where
  "plain pr \<longleftrightarrow> (\<exists>s. pr = Unrecognized s \<and> proto_from_name s = None \<and> CHR ''='' \<notin> set s \<and> CHR '' '' \<notin> set s)"

definition before :: "subprotocol_entry \<Rightarrow> subprotocol_entry \<Rightarrow> bool" where
  "before a b \<longleftrightarrow> (\<exists>s t. sp_proto a = Unrecognized s \<and> sp_proto b = Unrecognized t \<and> s < t)"

lemma wf_entries:
  "protocols_wf p \<longleftrightarrow> length (recognized p) = 13 \<and> (\<forall>w \<in> set (recognized p). \<not> bit w 0) \<and>
     (\<forall>e \<in> set (unrecognized p). plain (sp_proto e) \<and> sp_supported e \<noteq> 0 \<and> \<not> bit (sp_supported e) 0) \<and>
     sorted_wrt before (unrecognized p)"
proof -
  have e: "entry_ok e \<and> unrec e \<longleftrightarrow> plain (sp_proto e) \<and> sp_supported e \<noteq> 0 \<and> \<not> bit (sp_supported e) 0" for e
    by (auto simp: entry_ok_def unrec_def plain_def split: protocol.splits)
  have o: "distinct (protos es) \<and> sorted (map entry_key es) \<longleftrightarrow> sorted_wrt before es" if "\<forall>e \<in> set es. plain (sp_proto e)" for es
    using that
  proof (induction es)
    case (Cons a es)
    have "sp_proto a \<noteq> sp_proto b \<and> entry_key a \<le> entry_key b \<longleftrightarrow> before a b" if "b \<in> set es" for b
      using Cons.prems that by (auto simp: plain_def before_def entry_key_def less_eq_prod_def less_le)
    then show ?case using Cons by (auto simp: image_iff)
  qed simp
  show ?thesis unfolding protocols_wf_def e using o [of "unrecognized p"] by meson
qed

lemma wf_masks:
  assumes "protocols_wf p"
  shows "\<not> bit (masks (unrecognized p) pr) 0" "masks (unrecognized p) pr \<noteq> 0 \<longleftrightarrow> pr \<in> set (protos (unrecognized p))"
    "pr \<in> set (protos (unrecognized p)) \<Longrightarrow> plain pr" "distinct (protos (unrecognized p))"
proof -
  show d: "distinct (protos (unrecognized p))" using assms by (simp add: protocols_wf_def)
  have "masks (unrecognized p) pr = 0 \<or> (\<exists>e \<in> set (unrecognized p). sp_proto e = pr \<and> masks (unrecognized p) pr = sp_supported e)"
    using masks_in [OF d] masks_absent [of pr "unrecognized p"] by fastforce
  then show "\<not> bit (masks (unrecognized p) pr) 0" using assms by (auto simp: wf_entries)
  show "masks (unrecognized p) pr \<noteq> 0 \<longleftrightarrow> pr \<in> set (protos (unrecognized p))"
    using masks_absent [of pr] masks_in [OF d] assms by (fastforce simp: wf_entries)
  show "pr \<in> set (protos (unrecognized p)) \<Longrightarrow> plain pr" using assms by (auto simp: wf_entries)
qed

lemma wf_sorted_entries:
  assumes "distinct (protos es)" "\<forall>pr \<in> set (protos es). plain pr \<and> masks es pr \<noteq> 0 \<and> \<not> bit (masks es pr) 0"
    "length ms = 13" "\<forall>w \<in> set ms. \<not> bit w 0"
  shows "protocols_wf \<lparr>recognized = ms, unrecognized = sort_entries es\<rparr>"
proof -
  have "entry_ok e \<and> unrec e" if "e \<in> set es" for e
    using assms(2) masks_in [OF assms(1) that] that by (auto simp: entry_ok_def unrec_def plain_def split: protocol.splits)
  then show ?thesis using assms by (simp add: protocols_wf_def distinct_map)
qed

lemma zip_masks:
  assumes "length a = 13" "length b = 13" "\<forall>w \<in> set a. \<not> bit w 0" "\<forall>w \<in> set b. \<not> bit w 0"
    "\<And>x y. \<not> bit x 0 \<Longrightarrow> \<not> bit y 0 \<Longrightarrow> \<not> bit (f x y) 0"
  shows "length (map2 f a b) = 13" "\<forall>w \<in> set (map2 f a b). \<not> bit w 0"
proof -
  show "length (map2 f a b) = 13" using assms(1,2) by simp
  have "\<not> bit (f x y) 0" if "(x, y) \<in> set (zip a b)" for x y
    using assms(3-5) set_zip_leftD [OF that] set_zip_rightD [OF that] by blast
  then show "\<forall>w \<in> set (map2 f a b). \<not> bit w 0" by auto
qed

lemma wf_recognized:
  assumes "protocols_wf p" "protocols_wf q" "\<And>x y. \<not> bit x 0 \<Longrightarrow> \<not> bit y 0 \<Longrightarrow> \<not> bit (f x y) 0"
  shows "length (map2 f (recognized p) (recognized q)) = N_RECOGNIZED"
    "\<forall>w \<in> set (map2 f (recognized p) (recognized q)). \<not> bit w 0"
proof -
  have "length (recognized p) = N_RECOGNIZED" "length (recognized q) = N_RECOGNIZED"
    "\<forall>w \<in> set (recognized p). \<not> bit w 0" "\<forall>w \<in> set (recognized q). \<not> bit w 0"
    using assms(1,2) unfolding wf_entries by blast+
  note z = zip_masks [where f = f, OF this assms(3)]
  show "length (map2 f (recognized p) (recognized q)) = N_RECOGNIZED" by (rule z(1))
  show "\<forall>w \<in> set (map2 f (recognized p) (recognized q)). \<not> bit w 0" by (rule z(2))
qed

lemma wf_union:
  assumes "protocols_wf p" "protocols_wf q"
  shows "protocols_wf (protocols_union p q)"
proof -
  note p = wf_masks [OF assms(1)] and q = wf_masks [OF assms(2)]
  define es where "es = fold or_entry (unrecognized q) (unrecognized p)"
  have f: "masks es pr = (masks (unrecognized p) pr OR masks (unrecognized q) pr)" "distinct (protos es)"
    "set (protos es) = set (protos (unrecognized p)) \<union> set (protos (unrecognized q))" for pr
    using fold_or_entry [OF q(4) p(4)] unfolding es_def by blast+
  have "plain pr \<and> masks es pr \<noteq> 0 \<and> \<not> bit (masks es pr) 0" if pr: "pr \<in> set (protos es)" for pr
  proof -
    have "plain pr" using pr p(3) q(3) unfolding f(3) by blast
    moreover have "\<not> bit (masks es pr) 0" using p(1) q(1) by (simp add: f(1) bit_simps)
    moreover have "masks (unrecognized p) pr \<noteq> 0 \<or> masks (unrecognized q) pr \<noteq> 0" using pr p(2) q(2) unfolding f(3) by blast
    then have "masks es pr \<noteq> 0" by (simp add: f(1) or_eq_0_iff)
    ultimately show ?thesis by blast
  qed
  then have "protocols_wf \<lparr>recognized = map2 (OR) (recognized p) (recognized q), unrecognized = sort_entries es\<rparr>"
    by (intro wf_sorted_entries f(2) wf_recognized assms) (auto simp: bit_simps)
  then show ?thesis by (simp add: protocols_union_def es_def)
qed

text \<open>Entries that are shrunk and dropped when nothing is left.\<close>

definition shrink :: "(u64 \<Rightarrow> protocol \<Rightarrow> u64) \<Rightarrow> subprotocol_entry list \<Rightarrow> subprotocol_entry list" where
  "shrink h = List.map_filter (\<lambda>e.
     let e' = e\<lparr>sp_supported := h (sp_supported e) (sp_proto e)\<rparr> in if sp_supported e' \<noteq> 0 then Some e' else None)"

lemma shrink_simps: "shrink h [] = []"
  "shrink h (e # es) = (if h (sp_supported e) (sp_proto e) \<noteq> 0 then e\<lparr>sp_supported := h (sp_supported e) (sp_proto e)\<rparr> # shrink h es else shrink h es)"
  by (simp_all add: shrink_def map_filter_simps Let_def)

lemma shrink_entries:
  assumes "\<forall>e \<in> set es. plain (sp_proto e) \<and> sp_supported e \<noteq> 0 \<and> \<not> bit (sp_supported e) 0" "sorted_wrt before es"
    "\<And>w pr. \<not> bit w 0 \<Longrightarrow> \<not> bit (h w pr) 0"
  shows "(\<forall>e \<in> set (shrink h es). plain (sp_proto e) \<and> sp_supported e \<noteq> 0 \<and> \<not> bit (sp_supported e) 0) \<and> sorted_wrt before (shrink h es)"
proof -
  have sub: "\<exists>e \<in> set es. sp_proto e' = sp_proto e" if "e' \<in> set (shrink h es)" for e' es
    using that by (induction es) (auto simp: shrink_simps split: if_splits)
  have b: "before (a\<lparr>sp_supported := x\<rparr>) e' = before a e" if "sp_proto e' = sp_proto e" for a x e e' using that by (simp add: before_def)
  show ?thesis using assms(1,2)
  proof (induction es)
    case (Cons a es)
    then have "\<forall>e' \<in> set (shrink h es). before (a\<lparr>sp_supported := h (sp_supported a) (sp_proto a)\<rparr>) e'"
      using sub b by (metis list.set_intros(2) sorted_wrt.simps(2))
    then show ?case using Cons assms(3) by (auto simp: shrink_simps)
  qed (simp add: shrink_simps)
qed

lemma wf_difference:
  assumes "protocols_wf p" "protocols_wf q"
  shows "protocols_wf (protocols_difference p q)"
proof -
  let ?h = "\<lambda>w pr. w AND NOT (masks (unrecognized q) pr)"
  have u: "unrecognized (protocols_difference p q) = shrink ?h (unrecognized p)"
    unfolding difference_unrecognized shrink_def by simp
  have "(\<forall>e \<in> set (shrink ?h (unrecognized p)). plain (sp_proto e) \<and> sp_supported e \<noteq> 0 \<and> \<not> bit (sp_supported e) 0) \<and>
      sorted_wrt before (shrink ?h (unrecognized p))"
    by (rule shrink_entries) (use assms(1) in \<open>auto simp: wf_entries bit_simps\<close>)
  moreover have "length (map2 (\<lambda>a b. a AND NOT b) (recognized p) (recognized q)) = N_RECOGNIZED \<and>
      (\<forall>w \<in> set (map2 (\<lambda>a b. a AND NOT b) (recognized p) (recognized q)). \<not> bit w 0)"
    using wf_recognized [OF assms, of "\<lambda>a b. a AND NOT b"] by (simp add: bit_simps)
  ultimately show ?thesis unfolding wf_entries u by (simp add: protocols_difference_def)
qed

lemma wf_intersection:
  assumes "protocols_wf p" "protocols_wf q"
  shows "protocols_wf (protocols_intersection p q)"
proof -
  let ?h = "\<lambda>w pr. w AND masks (unrecognized q) pr"
  let ?es = "shrink ?h (unrecognized p)"
  have u: "unrecognized (protocols_intersection p q) = sort_entries ?es"
    unfolding intersection_unrecognized shrink_def by simp
  have e: "(\<forall>e \<in> set ?es. plain (sp_proto e) \<and> sp_supported e \<noteq> 0 \<and> \<not> bit (sp_supported e) 0) \<and> sorted_wrt before ?es"
    by (rule shrink_entries) (use assms(1) in \<open>auto simp: wf_entries bit_simps\<close>)
  have r: "length (map2 (AND) (recognized p) (recognized q)) = N_RECOGNIZED" "\<forall>w \<in> set (map2 (AND) (recognized p) (recognized q)). \<not> bit w 0"
    using wf_recognized [OF assms, of "(AND)"] by (simp_all add: bit_simps)
  then have "protocols_wf \<lparr>recognized = map2 (AND) (recognized p) (recognized q), unrecognized = ?es\<rparr>"
    unfolding wf_entries using e by simp
  then have "sort_entries ?es = ?es" by (simp add: protocols_wf_def sorted_sort_id sort_key_id_if_sorted)
  then show ?thesis unfolding wf_entries u using e r by (simp add: protocols_intersection_def)
qed

text \<open>
  C14: the operations on sets of versions are the set operations. Which versions of a protocol the
  union, the intersection and the difference of two sets support, for the protocols the crate knows
  and for the others alike, is what the two sets say; and the results are again in the canonical
  form that prints and parses back: masks without version 0, entries sorted by name, no two for one
  protocol and none empty.
\<close>

theorem protover_set_operations:
  assumes "protocols_wf p" "protocols_wf q"
  shows "(supports_subver name ver (protocols_union p q) \<longleftrightarrow> supports_subver name ver p \<or> supports_subver name ver q) \<and>
    (supports_subver name ver (protocols_intersection p q) \<longleftrightarrow> supports_subver name ver p \<and> supports_subver name ver q) \<and>
    (supports_subver name ver (protocols_difference p q) \<longleftrightarrow> supports_subver name ver p \<and> \<not> supports_subver name ver q) \<and>
    protocols_wf (protocols_union p q) \<and> protocols_wf (protocols_intersection p q) \<and> protocols_wf (protocols_difference p q)"
proof -
  have "length (recognized p) = N_RECOGNIZED" "length (recognized q) = N_RECOGNIZED" using assms unfolding wf_entries by blast+
  note m = mask_named_ops [OF this wf_masks(4) [OF assms(1)] wf_masks(4) [OF assms(2)], of name]
  show ?thesis unfolding supports_mask m using assms
    by (intro conjI wf_union wf_intersection wf_difference) (auto simp: bit_simps)
qed

theorem protover_set_operations_witness:
  "supports_subver ''Link'' 4 (protocols_difference
       \<lparr>recognized = [28, 0, 0, 0, 0, 0, 0, 0, 0, 0, 0, 0, 0], unrecognized = [\<lparr>sp_proto = Unrecognized ''Foo'', sp_supported = 6\<rparr>]\<rparr>
       \<lparr>recognized = [8, 0, 0, 0, 0, 0, 0, 0, 0, 0, 0, 0, 0], unrecognized = [\<lparr>sp_proto = Unrecognized ''Foo'', sp_supported = 6\<rparr>]\<rparr>) \<and>
   protocols_wf (protocols_difference
       \<lparr>recognized = [28, 0, 0, 0, 0, 0, 0, 0, 0, 0, 0, 0, 0], unrecognized = [\<lparr>sp_proto = Unrecognized ''Foo'', sp_supported = 6\<rparr>]\<rparr>
       \<lparr>recognized = [8, 0, 0, 0, 0, 0, 0, 0, 0, 0, 0, 0, 0], unrecognized = [\<lparr>sp_proto = Unrecognized ''Foo'', sp_supported = 6\<rparr>]\<rparr>)"
proof -
  let ?p = "\<lambda>w. \<lparr>recognized = [w, 0, 0, 0, 0, 0, 0, 0, 0, 0, 0, 0, 0], unrecognized = [\<lparr>sp_proto = Unrecognized ''Foo'', sp_supported = 6\<rparr>]\<rparr>"
  have "protocols_wf (?p 28)" "protocols_wf (?p 8)"
    by (simp_all add: protocols_wf_def entry_ok_def unrec_def proto_from_name_def proto_names_def bit_simps)
  from protover_set_operations [OF this, of "''Link''" 4]
  have r: "(supports_subver ''Link'' 4 (protocols_difference (?p 28) (?p 8)) \<longleftrightarrow>
      supports_subver ''Link'' 4 (?p 28) \<and> \<not> supports_subver ''Link'' 4 (?p 8)) \<and> protocols_wf (protocols_difference (?p 28) (?p 8))" by blast
  have "supports_subver ''Link'' 4 (?p 28)" "\<not> supports_subver ''Link'' 4 (?p 8)" by code_simp+
  with r show ?thesis by blast
qed

end
