(* ===== verification/Spec2Isabelle.thy ===== *)
theory Spec2Isabelle
  imports Congestion_Link Hop_Facts Circuit_Run Circuit_Negotiate Protover_Facts
begin

text \<open>
  A verification library for \<^emph>\<open>arti\<close>, the Tor implementation in Rust: the path of a message from
  the bytes on a channel to a stream of a circuit and back.

  \<^bold>\<open>The program.\<close> A client holds channels (TLS connections) to relays. A channel carries cells
  (\<open>crates/tor-cell\<close>), which are read and written with \<open>crates/tor-bytes\<close>. Most cells belong to a
  circuit (\<open>crates/tor-proto/src/tunnel/reactor/circuit.rs\<close>), a path through several relays, its
  hops. A relay cell of a circuit is encrypted once per hop (\<open>crypto/cell.rs\<close>), and the hop that
  recognizes it decodes the relay messages in it. Messages with a stream identifier belong to the
  streams of that hop (\<open>tunnel/streammap.rs\<close>); the others are for the circuit. Each hop has a
  congestion window (\<open>congestion.rs\<close>), each stream a flow control (\<open>stream/flow_control.rs\<close>), and
  several circuits can be the legs of one tunnel (conflux). A reactor polls the streams of all the
  hops and the channel, and runs what they ask for.

  \<^bold>\<open>Conventions.\<close> A Rust integer of \<open>w\<close> bits is a word of \<open>w\<close> bits, whose operations wrap as in a
  release build; \<open>usize\<close> is \<open>nat\<close>, with the maximum written out where the code compares with it. A
  \<open>Result\<close> is a sum with \<open>Inl\<close> for \<open>Err\<close>. A method that takes \<open>&mut self\<close> is a function from the
  state to the result and the state it leaves, also on an error (the type \<open>op\<close> of \<open>Sendme\<close>, with
  \<open>op_bind\<close> for the question mark). A panic, a failed assertion or \<open>expect\<close>, a division by zero or an
  index out of range is an error value of its own, so that its absence is a theorem. A trait object
  or a generic parameter is a record of functions or a locale. Code from outside the repository
  (ciphers, digests, the runtime's channels, random bytes, clocks) is an argument; what is assumed
  of the cryptography is \<open>lib_laws\<close>, and \<open>Circuit_Onion\<close> has a library that satisfies it.

  \<^bold>\<open>The theories.\<close>

  \<^item> \<open>Arti_Prelude\<close>, \<open>Rust_Std\<close>: machine types, results, the fact collections, and what the code uses
    of the Rust standard library.
  \<^item> \<open>Bytes_Reader\<close>, \<open>Bytes_Readable\<close> (\<open>tor-bytes/src/reader.rs\<close>, \<open>impls.rs\<close>, \<open>err.rs\<close>): the reader; the
    contract of the trait \<open>Readable\<close> is the locale \<open>readable\<close>, closed under sequencing, repetition
    and nesting. Shown: reads do not panic, and \<open>extract_n\<close> restores the reader when it fails.
  \<^item> \<open>Bytes_Writer\<close> (\<open>tor-bytes/src/writer.rs\<close>, \<open>tor-cell/src/slicewriter.rs\<close>): an encoder is the blocks
    it writes; the locale \<open>writer\<close> is interpreted on \<open>Vec\<close> and on \<open>SliceWriter\<close>. Shown: the second
    refines the first, and nested writers and readers are inverse.
  \<^item> \<open>Chan_Msg\<close>, \<open>Chan_Codec\<close> (\<open>tor-cell/src/chancell.rs\<close>, \<open>chancell/msg.rs\<close>, \<open>chancell/codec.rs\<close>): all
    channel messages and the codec. Shown: round trips of a cell and of a stream of cells, the
    outcome of writing on every input, and that decoding arbitrary bytes neither panics nor
    consumes anything but whole cells.
  \<^item> \<open>Relay_Msg\<close>, \<open>Relay_Cell\<close> (\<open>tor-cell/src/relaycell.rs\<close>, \<open>relaycell/msg.rs\<close>, \<open>flow_ctrl.rs\<close>,
    \<open>conflux.rs\<close>): relay messages and the two formats of relay cells. Shown: round trip in both formats
    for any padding, which messages fit, agreement of the accessors of an unparsed message with its
    decoding, and the splitting of data into cells.
  \<^item> \<open>Sendme\<close>, \<open>Congestion\<close>, \<open>Congestion_Facts\<close>, \<open>Congestion_Link\<close> (\<open>tor-proto/src/congestion\<close>): windows,
    the round-trip estimator, both algorithms. The locale \<open>cc_contract\<close> is what an algorithm owes its
    hop. Shown, for the two ends of a hop connected by queues in both directions: no window is
    violated, no honest SENDME is refused, nothing panics, the two do not deadlock, the sender's
    accounts, the bounds on the window, and that a SENDME is accepted exactly when its tag is the
    oldest expected one.
  \<^item> \<open>Stream_Queue\<close>, \<open>Stream_Flow\<close>, \<open>Poll_Set\<close>, \<open>Stream_Map\<close> (\<open>stream/queue.rs\<close>, \<open>stream/flow_control.rs\<close>,
    \<open>tunnel/halfstream.rs\<close>, \<open>util/stream_poll_set.rs\<close>, \<open>util/keyed_futures_unordered.rs\<close>,
    \<open>tunnel/streammap.rs\<close> and \<open>tor-async-utils/src/stream_peek.rs\<close>): the streams of a hop. Shown: the queue is a
    FIFO with an exact counter, the language of messages a data stream accepts, the windows of open
    and half-closed streams, the alternation of XOFF and XON, that the set of polled streams
    implements a map and forgets no stream, the state machine of every stream identifier, and the
    choice of new identifiers.
  \<^item> \<open>Client_Crypt\<close>, \<open>Crypt_Tor1\<close>, \<open>Crypt_Cgo\<close>, \<open>Client_Layers\<close> (\<open>crypto/cell.rs\<close>, \<open>crypto/cell/tor1.rs\<close>,
    \<open>crypto/cell/cgo.rs\<close>, \<open>tunnel/circuit/handshake.rs\<close>): layered encryption over the locale
    \<open>onion_layer\<close>, which both algorithms satisfy.
  \<^item> \<open>Circ_Hop\<close>, \<open>Hop_Facts\<close> (\<open>reactor/circuit/circhop.rs\<close>): a hop and its life. Shown: no stream is starved,
    and the limits on cells are exact.
  \<^item> \<open>Conflux_Handler\<close>, \<open>Unbounded_Sink\<close>, \<open>Circuit\<close>, \<open>Circuit_Cells\<close> (\<open>reactor/conflux/msghandler.rs\<close>,
    \<open>util/sometimes_unbounded_sink.rs\<close>, \<open>reactor/circuit.rs\<close>): a circuit, what it sends and how it handles a
    cell. \<open>Circuit_Onion\<close> shows that messages arrive at their hop, unchanged and in order;
    \<open>Circuit_Safe\<close> and \<open>Circuit_Run\<close> that no cell makes a circuit panic at any point of its life, the
    inductive relation \<open>circ_life\<close>; \<open>Circuit_Signals\<close> what the congestion signals do to the window.
  \<^item> \<open>Circuit_Extend\<close>, \<open>Circuit_Negotiate\<close> (\<open>reactor/circuit/create.rs\<close>, \<open>extender.rs\<close>, \<open>tunnel/circuit.rs\<close>): creating and
    extending circuits, and that the two ends agree on the settings of a hop.
  \<^item> \<open>Protover\<close>, \<open>Protover_Facts\<close> (\<open>tor-protover/src/lib.rs\<close>): sets of subprotocol versions. Shown: they
    print and parse back, printing ends, and the operations are those on sets.

  \<^bold>\<open>Bounds and fuel.\<close> Loops over a list or a counter are structural recursion. The loop that prints a
  mask of versions takes fuel 32: every round consumes at least one zero or the end of the mask and
  one range, and \<open>dumpmask_terminates\<close> shows that 32 rounds are enough. The loops over what is left of
  a message (\<open>Chan_Msg\<close>, \<open>Relay_Msg\<close>), over the data still to be split (\<open>Relay_Cell\<close>) and over the keys
  still to be polled (\<open>Poll_Set\<close>) are functions with termination proofs. No model has a bound the
  code does not have. Sizes are those of the code (509 and 514 bytes, 255 hops, 65535
  streams); a queue that counts more than \<open>usize\<close> bytes is the one panic that safety excludes by
  its statement.

  \<^bold>\<open>Not modelled.\<close> The asynchronous main loop of the reactor and its control messages
  (\<open>reactor/control.rs\<close>): their effects on a circuit are the steps of \<open>circ_life\<close>, in any order. The
  channel's own reactor, its handshake and padding; the circuit handshakes (they are the parameter
  \<open>client_handshake\<close>); the asynchronous readers and writers of data streams; the messages of the
  features \<open>hs\<close> and \<open>experimental-udp\<close>; memory quotas, logging and debug assertions. Of the other crates,
  which configure the client, fetch and parse directory documents, choose relays, store keys and run
  onion services, nothing is modelled: they are asynchronous glue over files, sockets and third-party
  cryptography, and the modelled crates do not depend on their state.
\<close>

end
